(* ===== verification/TL_Prelude.thy ===== *)
theory TL_Prelude
  imports Main "HOL-Library.Word"
begin

text \<open>
  Shared ground of the Timelite development: the machine integer types of the C sources, the error
  values every function returns, memory blocks as byte lists with the two ways the code writes into
  them (\<open>put\<close> for a fixed buffer, \<open>overwrite\<close> for a file that may grow), and the lemmas on lists,
  blocks and words which the component theories rely on.  The collections \<open>layout\<close> (lengths and
  blocks of encoded structures) and \<open>u64_arith\<close> (the way from 64-bit words to natural numbers) carry
  most of the component proofs.
\<close>

unbundle bit_operations_syntax

named_theorems layout \<open>lengths and blocks of encoded structures\<close>
named_theorems u64_arith \<open>64-bit words read as natural numbers\<close>

type_synonym byte = "8 word"
type_synonym u32 = "32 word"
type_synonym u64 = "64 word"
type_synonym bytes = "byte list"

section \<open>Result codes\<close>

text \<open>
  Positive \<open>errno\<close> values the sources name, one constructor for every other \<open>errno\<close>, and the negative
  \<open>TIMELITE_\<close> codes of \<open>timelite.h\<close>.  A function that returns \<open>int\<close> in C returns \<open>Inl\<close> of an error
  or \<open>Inr\<close> of its outputs; success is the code 0.
\<close>

datatype error =
    EINVAL | EBADF | ENOENT | EEXIST | EIO | EOVERFLOW | EBUSY | EWOULDBLOCK | ENOTSUP
  | ENAMETOOLONG | EINTR | EACCES | EFBIG | ENOSPC | ENOMEM | EMFILE | EILSEQ | Errno nat
  | INVALID_DATABASE | UNSUPPORTED_VERSION | END | BUFFER_TOO_SMALL | RECOVERY_REQUIRED
  | WAL_FULL | PAIR_MISMATCH | DATABASE_FULL | OUT_OF_ORDER

text \<open>The negative codes, with the values \<open>timelite.h\<close> gives them; \<open>None\<close> for an \<open>errno\<close>.\<close>

fun timelite_code :: "error \<Rightarrow> int option" where
  "timelite_code INVALID_DATABASE = Some (-1)"
| "timelite_code UNSUPPORTED_VERSION = Some (-2)"
| "timelite_code END = Some (-3)"
| "timelite_code BUFFER_TOO_SMALL = Some (-4)"
| "timelite_code RECOVERY_REQUIRED = Some (-5)"
| "timelite_code WAL_FULL = Some (-6)"
| "timelite_code PAIR_MISMATCH = Some (-7)"
| "timelite_code DATABASE_FULL = Some (-8)"
| "timelite_code OUT_OF_ORDER = Some (-9)"
| "timelite_code _ = None"

section \<open>Memory blocks\<close>

text \<open>\<open>block off n p\<close> is the block of \<open>n\<close> bytes at \<open>p + off\<close>.\<close>

definition block :: "nat \<Rightarrow> nat \<Rightarrow> 'a list \<Rightarrow> 'a list" where
  "block off n p = take n (drop off p)"

text \<open>\<open>memcpy\<close> or an encoder storing into a buffer that is large enough.\<close>

definition put :: "nat \<Rightarrow> 'a list \<Rightarrow> 'a list \<Rightarrow> 'a list" where
  "put off bs p =
     map (\<lambda>i. if off \<le> i \<and> i < off + length bs then bs ! (i - off) else p ! i) [0..<length p]"

text \<open>A positioned file write: the gap between the end of file and the offset reads as zero.\<close>

definition overwrite :: "nat \<Rightarrow> bytes \<Rightarrow> bytes \<Rightarrow> bytes" where
  "overwrite off bs p =
     (if bs = [] then p
      else take off (p @ replicate (off - length p) 0) @ bs @ drop (off + length bs) p)"

text \<open>\<open>ftruncate\<close>: cut, or extend with zero bytes.\<close>

definition resize :: "nat \<Rightarrow> bytes \<Rightarrow> bytes" where
  "resize n p = take n p @ replicate (n - length p) 0"

lemma length_block [layout]: "length (block off n p) = min n (length p - off)"
  by (simp add: block_def)

lemma block_append_left: "off + n \<le> length p \<Longrightarrow> block off n (p @ q) = block off n p"
  by (simp add: block_def)

lemma block_append_right: "length p \<le> off \<Longrightarrow> block off n (p @ q) = block (off - length p) n q"
  by (simp add: block_def)

lemma block_0_append: "block 0 (length p) (p @ q) = p"
  by (simp add: block_def)

lemma block_split: "block off (m + n) p = block off m p @ block (off + m) n p"
  by (simp add: block_def take_add add.commute)

lemma drop_chunks: "s + n \<le> m \<Longrightarrow> drop s (take (s + n) xs) @ drop (s + n) (take m xs) = drop s (take m xs)"
proof -
  assume "s + n \<le> m"
  then have "drop s (take (s + n) xs) = take n (drop s (take m xs))"
    by (simp add: drop_take min_def)
  moreover have "drop (s + n) (take m xs) = drop n (drop s (take m xs))"
    by (simp add: add.commute)
  ultimately show ?thesis by (simp only: append_take_drop_id)
qed

lemma length_put [simp]: "length (put off bs p) = length p"
  by (simp add: put_def)

lemma put_eq: "off + length bs \<le> length p \<Longrightarrow> put off bs p = take off p @ bs @ drop (off + length bs) p"
  by (rule nth_equalityI) (auto simp: put_def nth_append)

lemma block_put_same: "off + length bs \<le> length p \<Longrightarrow> block off (length bs) (put off bs p) = bs"
  by (simp add: block_def put_eq)

lemma block_put_before: "i + n \<le> off \<Longrightarrow> block i n (put off bs p) = block i n p"
  by (rule nth_equalityI) (auto simp: block_def put_def)

lemma block_put_after: "off + length bs \<le> i \<Longrightarrow> block i n (put off bs p) = block i n p"
  by (rule nth_equalityI) (auto simp: block_def put_def)

lemma min_pad [simp]: "min a b + (b - a) = b" "min b a + (b - a) = b" "b - a + min a b = b"
    "b - a + min b a = b" for a b :: nat
  by linarith+

lemma length_overwrite [layout]:
  "length (overwrite off bs p) = (if bs = [] then length p else max (length p) (off + length bs))"
  by (auto simp add: overwrite_def)

lemma nth_overwrite:
  "i < length (overwrite off bs p) \<Longrightarrow> overwrite off bs p ! i =
     (if off \<le> i \<and> i < off + length bs then bs ! (i - off) else if i < length p then p ! i else 0)"
  by (auto simp: overwrite_def nth_append min_def split: if_splits)

lemma overwrite_Nil [simp]: "overwrite off [] p = p"
  by (simp add: overwrite_def)

lemma overwrite_end: "overwrite (length p) bs p = p @ bs"
  by (simp add: overwrite_def)

lemma overwrite_adjacent:
  "overwrite (off + length a) b (overwrite off a p) = overwrite off (a @ b) p"
proof (cases "a = [] \<or> b = []")
  case True
  then show ?thesis by auto
next
  case False
  then show ?thesis
    by (simp add: overwrite_def take_add ac_simps)
qed

definition pad :: "nat \<Rightarrow> bytes \<Rightarrow> bytes" where
  "pad off p = take off (p @ replicate (off - length p) 0)"

lemma length_pad [simp]: "length (pad off p) = off"
  by (simp add: pad_def)

lemma pad_append [simp]: "pad off (pad off p @ q) = pad off p"
  by (simp add: pad_def [of off "pad off p @ q"])

lemma overwrite_pad: "bs \<noteq> [] \<Longrightarrow> overwrite off bs p = pad off p @ bs @ drop (off + length bs) p"
  by (simp add: overwrite_def pad_def)

lemma overwrite_longer: "overwrite off (a @ b) (overwrite off a p) = overwrite off (a @ b) p"
  by (cases "a = []") (simp_all add: overwrite_pad add.assoc [symmetric] add.commute [of _ "length b"])

lemma overwrite_shorter: "overwrite off a (overwrite off (a @ b) p) = overwrite off (a @ b) p"
  by (cases "a = []") (simp_all add: overwrite_pad)

lemma overwrite_again:
  "overwrite off (take a bs) (overwrite off (take b bs) p) = overwrite off (take (max a b) bs) p"
proof (cases "a \<le> b")
  case True
  then have "take b bs = take a bs @ drop a (take b bs)"
    by (metis append_take_drop_id min.absorb1 take_take)
  then show ?thesis using overwrite_shorter [of off "take a bs" "drop a (take b bs)" p] True by (simp add: max_def)
next
  case False
  then have "take a bs = take b bs @ drop b (take a bs)"
    by (metis append_take_drop_id min.absorb1 nat_le_linear take_take)
  then show ?thesis using overwrite_longer [of off "take b bs" "drop b (take a bs)" p] False by (simp add: max_def)
qed

lemma block_overwrite_same:
  "block off (length bs) (overwrite off bs p) = bs"
  by (cases "bs = []") (simp_all add: block_def overwrite_def)

lemma block_overwrite_before:
  "i + n \<le> off \<Longrightarrow> i + n \<le> length p \<Longrightarrow> block i n (overwrite off bs p) = block i n p"
  by (cases "bs = []") (simp_all add: block_def overwrite_def min_def drop_take)

lemma block_overwrite_after:
  "off + length bs \<le> i \<Longrightarrow> block i n (overwrite off bs p) = block i n p"
  by (cases "bs = []") (simp_all add: block_def overwrite_def)

lemma length_resize [simp]: "length (resize n p) = n"
  by (simp add: resize_def)

lemma block_resize: "i + m \<le> n \<Longrightarrow> i + m \<le> length p \<Longrightarrow> block i m (resize n p) = block i m p"
  by (simp add: block_def resize_def min_def drop_take)

lemma resize_shrink: "n \<le> length p \<Longrightarrow> resize n p = take n p"
  by (simp add: resize_def)

section \<open>Words\<close>

lemma u64_less [u64_arith]: "(a < b) = (unat a < unat b)" for a b :: u64
  by (rule word_less_nat_alt)

lemma u64_le [u64_arith]: "(a \<le> b) = (unat a \<le> unat b)" for a b :: u64
  by (rule word_le_nat_alt)

lemma u64_add [u64_arith]: "unat a + unat b < 2 ^ 64 \<Longrightarrow> unat (a + b) = unat a + unat b" for a b :: u64
  by (subst unat_add_lem [symmetric]) simp

lemma u64_sub [u64_arith]: "unat b \<le> unat a \<Longrightarrow> unat (a - b) = unat a - unat b" for a b :: u64
  by (rule unat_sub) (simp add: word_le_nat_alt)

lemma u64_of_nat [u64_arith]: "n < 2 ^ 64 \<Longrightarrow> unat (of_nat n :: u64) = n"
  by (simp add: unat_of_nat take_bit_nat_eq_self)

lemma u32_of_nat: "n < 2 ^ 32 \<Longrightarrow> unat (of_nat n :: u32) = n"
  by (simp add: unat_of_nat take_bit_nat_eq_self)

lemma u64_bound: "unat (a :: u64) < 2 ^ 64"
  using unsigned_less [of a] by simp

lemma u32_bound: "unat (a :: u32) < 2 ^ 32"
  using unsigned_less [of a] by simp

end
