(* ===== verification/TL_Codec.thy ===== *)
theory TL_Codec
  imports TL_Prelude
begin

text \<open>
  The byte-level primitives of \<open>timelite.c\<close>: \<open>encode32\<close>, \<open>encode64\<close>, \<open>decode32\<close>, \<open>decode64\<close> and
  \<open>checksum\<close>.  An encoder returns the bytes it stores at its pointer argument; a decoder reads the
  bytes at the head of the block its pointer names.  The locale \<open>fixed_codec\<close> states what the record
  and header layouts need of such a pair and is interpreted on the two integer codecs here and on
  the record codec in the layout theory.
\<close>

section \<open>Fixed-width codecs\<close>

locale fixed_codec =
  fixes enc :: "'a \<Rightarrow> bytes" and dec :: "bytes \<Rightarrow> 'a" and width :: nat and valid :: "'a \<Rightarrow> bool"
  assumes length_enc: "length (enc v) = width"
    and dec_take: "dec (take width p) = dec p"
    and dec_enc: "valid v \<Longrightarrow> dec (enc v) = v"
begin

lemma dec_enc_append: "valid v \<Longrightarrow> dec (enc v @ rest) = v"
  using dec_take [of "enc v @ rest"] by (simp add: length_enc dec_enc)

lemma enc_inj: "valid v \<Longrightarrow> valid u \<Longrightarrow> enc v = enc u \<longleftrightarrow> v = u"
  using dec_enc by metis

lemma dec_block: "width \<le> n \<Longrightarrow> dec (block off n p) = dec (drop off p)"
  unfolding block_def
  using dec_take [of "take n (drop off p)"] dec_take [of "drop off p"] by (simp add: min_def)

lemma dec_append: "width \<le> length p \<Longrightarrow> dec (p @ q) = dec p"
  using dec_take [of "p @ q"] dec_take [of p] by simp

lemma dec_put_same: "valid v \<Longrightarrow> off + width \<le> length p \<Longrightarrow> dec (drop off (put off (enc v) p)) = v"
  by (simp add: put_eq length_enc dec_enc_append)

lemma dec_put_other:
  assumes "i + width \<le> off \<or> off + length bs \<le> i"
  shows "dec (drop i (put off bs p)) = dec (drop i p)"
proof -
  have "block i width (put off bs p) = block i width p"
    using assms by (auto intro: block_put_before block_put_after)
  then show ?thesis
    using dec_block [of width i] by (metis order_refl)
qed

lemma length_concat_enc: "length (concat (map enc vs)) = length vs * width"
  by (induction vs) (simp_all add: length_enc)

lemma dec_concat_enc:
  "list_all valid vs \<Longrightarrow> i < length vs \<Longrightarrow>
     dec (drop (i * width) (concat (map enc vs) @ rest)) = vs ! i"
proof (induction vs arbitrary: i)
  case Nil
  then show ?case by simp
next
  case (Cons v vs)
  then show ?case
    by (cases i) (simp_all add: dec_enc_append length_enc)
qed

lemma map_dec_concat_enc:
  "list_all valid vs \<Longrightarrow>
     map (\<lambda>i. dec (drop (i * width) (concat (map enc vs) @ rest))) [0..<length vs] = vs"
  by (rule nth_equalityI) (simp_all add: dec_concat_enc del: drop_append)

end

definition encode32 :: "u32 \<Rightarrow> bytes" where
  "encode32 value = map (\<lambda>i. ucast (drop_bit (8 * i) value)) [0..<4]"

definition encode64 :: "u64 \<Rightarrow> bytes" where
  "encode64 value = map (\<lambda>i. ucast (drop_bit (8 * i) value)) [0..<8]"

definition decode32 :: "bytes \<Rightarrow> u32" where
  "decode32 p = foldl (\<lambda>value i. value OR push_bit (8 * i) (ucast (p ! i))) 0 [0..<4]"

definition decode64 :: "bytes \<Rightarrow> u64" where
  "decode64 p = foldl (\<lambda>value i. value OR push_bit (8 * i) (ucast (p ! i))) 0 [0..<8]"

lemma length_encode32 [simp]: "length (encode32 v) = 4"
  by (simp add: encode32_def)

lemma length_encode64 [simp]: "length (encode64 v) = 8"
  by (simp add: encode64_def)

text \<open>Bit \<open>k\<close> of a decoded integer is bit \<open>k mod 8\<close> of byte \<open>k div 8\<close>.\<close>

lemma bit_foldl_bytes:
  fixes p :: bytes
  shows "bit (foldl (\<lambda>value i. value OR push_bit (8 * i) (ucast (p ! i))) (0 :: 'a::len word) [0..<n]) k
     \<longleftrightarrow> k < LENGTH('a) \<and> k div 8 < n \<and> bit (p ! (k div 8)) (k mod 8)"
proof (induction n)
  case 0
  show ?case by simp
next
  case (Suc n)
  have shift: "bit (push_bit (8 * n) (ucast (p ! n)) :: 'a word) k \<longleftrightarrow>
      k < LENGTH('a) \<and> k div 8 = n \<and> bit (p ! n) (k mod 8)"
  proof (cases "k div 8 = n")
    case True
    then have "8 * n \<le> k" "k - 8 * n = k mod 8"
      by (auto simp: minus_mult_div_eq_mod)
    with True show ?thesis
      by (auto simp: bit_simps dest: bit_imp_le_length)
  next
    case False
    then have "\<not> (8 * n \<le> k \<and> k - 8 * n < 8)" by linarith
    with False show ?thesis
      by (auto simp: bit_simps dest: bit_imp_le_length)
  qed
  show ?case
    by (auto simp: bit_or_iff Suc.IH shift less_Suc_eq)
qed

lemma bit_encode: "bit (ucast (drop_bit (8 * i) v) :: byte) j \<longleftrightarrow> j < 8 \<and> bit v (8 * i + j)"
  for v :: "'a::len word"
  by (auto simp: bit_simps dest: bit_imp_le_length)

lemma xor_right_cancel: "(a XOR c = b XOR c) = (a = b)" for a b c :: "'a::len word"
  by (metis xor.assoc xor_self_eq xor.right_neutral)

interpretation u32_codec: fixed_codec encode32 decode32 4 "\<lambda>_. True"
proof unfold_locales
  fix v :: u32 and p :: bytes
  show "length (encode32 v) = 4" by simp
  show "decode32 (take 4 p) = decode32 p"
    unfolding decode32_def by (rule foldl_cong) simp_all
  show "decode32 (encode32 v) = v"
    unfolding decode32_def encode32_def
    by (rule bit_word_eqI) (subst bit_foldl_bytes, auto simp: bit_encode)
qed

interpretation u64_codec: fixed_codec encode64 decode64 8 "\<lambda>_. True"
proof unfold_locales
  fix v :: u64 and p :: bytes
  show "length (encode64 v) = 8" by simp
  show "decode64 (take 8 p) = decode64 p"
    unfolding decode64_def by (rule foldl_cong) simp_all
  show "decode64 (encode64 v) = v"
    unfolding decode64_def encode64_def
    by (rule bit_word_eqI) (subst bit_foldl_bytes, auto simp: bit_encode)
qed

text \<open>The other direction: every block of the right length is the encoding of what it decodes to.\<close>

lemma encode32_decode32: "length p = 4 \<Longrightarrow> encode32 (decode32 p) = p"
  unfolding encode32_def decode32_def
  by (rule nth_equalityI; simp; rule bit_word_eqI)
    (auto simp: bit_unsigned_iff bit_drop_bit_eq bit_foldl_bytes dest: bit_imp_le_length)

lemma encode64_decode64: "length p = 8 \<Longrightarrow> encode64 (decode64 p) = p"
  unfolding encode64_def decode64_def
  by (rule nth_equalityI; simp; rule bit_word_eqI)
    (auto simp: bit_unsigned_iff bit_drop_bit_eq bit_foldl_bytes dest: bit_imp_le_length)

lemmas codec_fields [layout] =
  u32_codec.dec_put_same [OF TrueI] u32_codec.dec_put_other u32_codec.dec_append
  u32_codec.dec_enc_append [OF TrueI] u32_codec.dec_enc [OF TrueI]
  u64_codec.dec_put_same [OF TrueI] u64_codec.dec_put_other u64_codec.dec_append
  u64_codec.dec_enc_append [OF TrueI] u64_codec.dec_enc [OF TrueI]

section \<open>The checksum\<close>

text \<open>One shift of the reflected CRC-32 register, one input byte, and the loop over the block.\<close>

definition crc_bit :: "u32 \<Rightarrow> u32" where
  "crc_bit crc = drop_bit 1 crc XOR (if crc AND 1 \<noteq> 0 then 0xedb88320 else 0)"

definition crc_byte :: "u32 \<Rightarrow> byte \<Rightarrow> u32" where
  "crc_byte crc b = (crc_bit ^^ 8) (crc XOR ucast b)"

definition checksum :: "bytes \<Rightarrow> nat \<Rightarrow> u32" where
  "checksum p n = NOT (foldl crc_byte 0xffffffff (take n p))"

lemma and_1_bit: "(x AND 1 \<noteq> 0) = bit x 0" for x :: u32
  by (simp add: and_one_eq bit_0 odd_iff_mod_2_eq_one)

lemma crc_bit_xor: "crc_bit (x XOR y) = crc_bit x XOR crc_bit y"
  by (rule bit_word_eqI) (auto simp: crc_bit_def and_1_bit bit_simps)

lemma crc_bits_xor: "(crc_bit ^^ n) (x XOR y) = (crc_bit ^^ n) x XOR (crc_bit ^^ n) y"
  by (induction n) (simp_all add: crc_bit_xor)

lemma crc_bit_inj: "crc_bit x = crc_bit y \<Longrightarrow> x = y"
proof -
  assume eq: "crc_bit x = crc_bit y"
  have top: "bit (crc_bit z) 31 = bit z 0" for z
    by (simp add: crc_bit_def and_1_bit bit_simps) (auto dest: bit_imp_le_length)
  have low: "bit x 0 = bit y 0" using eq top by metis
  then have "drop_bit 1 x = drop_bit 1 y"
    using eq by (auto simp: crc_bit_def and_1_bit xor_right_cancel split: if_splits)
  then have "bit x (Suc n) = bit y (Suc n)" for n
    by (metis bit_drop_bit_eq comp_apply plus_1_eq_Suc)
  with low have "bit x n = bit y n" for n by (cases n) auto
  then show "x = y" by (rule bit_eqI)
qed

lemma crc_bits_inj: "(crc_bit ^^ n) x = (crc_bit ^^ n) y \<Longrightarrow> x = y"
  by (induction n) (auto dest: crc_bit_inj)

lemma crc_bits_shift: "(\<And>i. i < n \<Longrightarrow> \<not> bit x i) \<Longrightarrow> (crc_bit ^^ n) x = drop_bit n x"
proof (induction n)
  case (Suc n)
  have "\<not> bit (drop_bit n x) 0" using Suc.prems [of n] by (simp add: bit_drop_bit_eq)
  with Suc show ?case
    by (simp add: crc_bit_def and_1_bit)
qed simp

text \<open>One input bit: the loop of the code is a loop over the bits of the block, lowest bit first.\<close>

definition crc_shift :: "u32 \<Rightarrow> bool \<Rightarrow> u32" where
  "crc_shift crc x = crc_bit (crc XOR of_bool x)"

definition message_bits :: "bytes \<Rightarrow> bool list" where
  "message_bits m = map (\<lambda>k. bit (m ! (k div 8)) (k mod 8)) [0..<8 * length m]"

text \<open>The word whose bit \<open>i\<close> is \<open>g i\<close>.\<close>

fun word_of_bits :: "(nat \<Rightarrow> bool) \<Rightarrow> nat \<Rightarrow> u32" where
  "word_of_bits g 0 = 0"
| "word_of_bits g (Suc n) = word_of_bits g n XOR push_bit n (of_bool (g n))"

lemma bit_word_of_bits: "bit (word_of_bits g n) k \<longleftrightarrow> k < n \<and> k < 32 \<and> g k"
  by (induction n) (auto simp: bit_simps less_Suc_eq simp del: push_bit_of_1)

lemma foldl_crc_shift:
  "n \<le> 32 \<Longrightarrow> foldl crc_shift c (map g [0..<n]) = (crc_bit ^^ n) (c XOR word_of_bits g n)"
proof (induction n)
  case (Suc n)
  have "drop_bit n (push_bit n (of_bool (g n))) = (of_bool (g n) :: u32)"
    using Suc.prems by (intro bit_word_eqI) (auto simp: bit_simps simp del: push_bit_of_1)
  then have e: "of_bool (g n) = (crc_bit ^^ n) (push_bit n (of_bool (g n)))"
    by (subst crc_bits_shift) (auto simp: bit_push_bit_iff)
  have "(crc_bit ^^ n) (c XOR word_of_bits g n) XOR of_bool (g n) = (crc_bit ^^ n) (c XOR word_of_bits g (Suc n))"
    by (subst e) (simp only: word_of_bits.simps crc_bits_xor xor.assoc)
  moreover have "foldl crc_shift c (map g [0..<n]) = (crc_bit ^^ n) (c XOR word_of_bits g n)" using Suc by simp
  moreover have "foldl crc_shift c (map g [0..<Suc n]) = crc_shift (foldl crc_shift c (map g [0..<n])) (g n)" by simp
  ultimately show ?case by (simp only: crc_shift_def [of "(crc_bit ^^ n) x" for x] funpow.simps comp_apply)
qed simp

lemma crc_byte_bits: "crc_byte c b = foldl crc_shift c (map (bit b) [0..<8])"
proof -
  have "ucast b = word_of_bits (bit b) 8"
    by (rule bit_word_eqI) (auto simp: bit_word_of_bits bit_simps dest: bit_imp_le_length)
  then show ?thesis by (simp add: foldl_crc_shift crc_byte_def del: upt.simps)
qed

lemma message_bits_Cons: "message_bits (b # m) = map (bit b) [0..<8] @ message_bits m"
proof -
  have "[0..<8 * length (b # m)] = [0..<8] @ map (\<lambda>k. k + 8) [0..<8 * length m]"
    using upt_add_eq_append [of 0 8 "8 * length m"] by (simp add: map_add_upt add.commute)
  then show ?thesis
    by (simp add: message_bits_def div_add_self2 del: upt.simps)
qed

lemma foldl_crc_bits: "foldl crc_byte c m = foldl crc_shift c (message_bits m)"
proof (induction m arbitrary: c)
  case (Cons b m)
  then show ?case by (simp add: message_bits_Cons crc_byte_bits del: upt.simps)
qed (simp add: message_bits_def)

lemma message_bits_inj: "length a = length b \<Longrightarrow> message_bits a = message_bits b \<Longrightarrow> a = b"
proof (rule nth_equalityI)
  fix i assume eq: "message_bits a = message_bits b" and i: "i < length a"
  show "a ! i = b ! i"
  proof (rule bit_word_eqI)
    fix j assume "j < LENGTH(8)"
    then have k: "8 * i + j < 8 * length a" "(8 * i + j) div 8 = i" "(8 * i + j) mod 8 = j" using i by auto
    have "length b = length a" using arg_cong [OF eq, of length] by (simp add: message_bits_def)
    then show "bit (a ! i) j = bit (b ! i) j"
      using arg_cong [OF eq, of "\<lambda>xs. xs ! (8 * i + j)"] k by (simp add: message_bits_def)
  qed
qed

lemma foldl_shift_inj: "foldl crc_shift c xs = foldl crc_shift d xs \<Longrightarrow> c = d"
proof (induction xs arbitrary: c d)
  case (Cons x xs)
  then have "crc_shift c x = crc_shift d x" by simp
  then show ?case unfolding crc_shift_def by (auto dest: crc_bit_inj simp: xor_right_cancel)
qed simp

text \<open>Up to 32 consecutive bits determine what they add to the register.\<close>

lemma foldl_window_inj:
  assumes "foldl crc_shift c xs = foldl crc_shift c ys" "length xs = length ys" "length ys \<le> 32"
  shows "xs = ys"
proof -
  let ?n = "length ys"
  have xs: "xs = map (nth xs) [0..<?n]" "ys = map (nth ys) [0..<?n]"
    using map_nth [of xs] map_nth [of ys] assms(2) by simp_all
  have "(crc_bit ^^ ?n) (c XOR word_of_bits (nth xs) ?n) = (crc_bit ^^ ?n) (c XOR word_of_bits (nth ys) ?n)"
    using foldl_crc_shift [OF assms(3), of c "nth xs"] foldl_crc_shift [OF assms(3), of c "nth ys"] assms(1) xs
    by simp
  then have "c XOR word_of_bits (nth xs) ?n = c XOR word_of_bits (nth ys) ?n" by (rule crc_bits_inj)
  then have eq: "word_of_bits (nth xs) ?n = word_of_bits (nth ys) ?n"
    unfolding xor.commute [of c] by (simp only: xor_right_cancel)
  have "xs ! i = ys ! i" if "i < ?n" for i
    using arg_cong [OF eq, of "\<lambda>w. bit w i"] that assms(3) by (simp add: bit_word_of_bits)
  then show ?thesis using assms(2) by (intro nth_equalityI) simp_all
qed

section \<open>The reference CRC-32\<close>

text \<open>
  CRC-32 as the standards define it: a register that starts with all ones and is shifted to the left,
  reduced by the generator polynomial \<open>0x04C11DB7\<close>; each input byte enters with its lowest bit first;
  the register is reflected and complemented at the end.
\<close>

definition crc32_shift :: "u32 \<Rightarrow> bool \<Rightarrow> u32" where
  "crc32_shift r x = push_bit 1 r XOR (if bit r 31 \<noteq> x then 0x04C11DB7 else 0)"

definition reflect :: "u32 \<Rightarrow> u32" where
  "reflect w = word_of_bits (\<lambda>i. bit w (31 - i)) 32"

definition crc32 :: "bytes \<Rightarrow> u32" where
  "crc32 m = NOT (reflect (foldl crc32_shift 0xFFFFFFFF (message_bits m)))"

lemma bit_reflect: "bit (reflect w) k \<longleftrightarrow> k < 32 \<and> bit w (31 - k)"
  by (simp add: reflect_def bit_word_of_bits)

lemma reflect_xor: "reflect (a XOR b) = reflect a XOR reflect b"
  by (rule bit_word_eqI) (auto simp: bit_reflect bit_xor_iff)

lemma reflect_push: "reflect (push_bit 1 w) = drop_bit 1 (reflect w)"
proof (rule bit_word_eqI)
  fix k assume "k < LENGTH(32)"
  then show "bit (reflect (push_bit 1 w)) k = bit (drop_bit 1 (reflect w)) k"
    unfolding bit_reflect bit_push_bit_iff bit_drop_bit_eq comp_apply by (cases "k < 31") auto
qed

lemma reflect_generator: "reflect 0x04C11DB7 = 0xEDB88320"
  by (simp add: reflect_def eval_nat_numeral)

lemma reflect_ones: "reflect 0xFFFFFFFF = 0xFFFFFFFF"
  by (simp add: reflect_def eval_nat_numeral)

lemma reflect_zero: "reflect 0 = 0"
  by (rule bit_word_eqI) (simp add: bit_reflect)

lemma reflect_shift: "reflect (crc32_shift r x) = crc_shift (reflect r) x"
proof -
  have low: "((reflect r XOR of_bool x) AND 1 \<noteq> 0) = (bit r 31 \<noteq> x)"
    by (cases x) (simp_all add: and_1_bit bit_xor_iff bit_reflect)
  have "drop_bit 1 (reflect r XOR of_bool x) = drop_bit 1 (reflect r)"
    by (rule bit_word_eqI) (auto simp: bit_drop_bit_eq bit_xor_iff bit_1_iff)
  then show ?thesis
    unfolding crc_shift_def crc_bit_def crc32_shift_def low reflect_xor reflect_push
    by (simp only: if_distrib [of reflect] reflect_generator reflect_zero)
qed

lemma checksum_take: "n \<le> m \<Longrightarrow> checksum (take m p) n = checksum p n"
  by (simp add: checksum_def min_def)

lemma checksum_put [layout]: "n \<le> off \<Longrightarrow> checksum (put off bs p) n = checksum p n"
  using block_put_before [of 0 n off bs p] by (simp add: checksum_def block_def)

lemma checksum_append: "n \<le> length p \<Longrightarrow> checksum (p @ q) n = checksum p n"
  by (simp add: checksum_def)

section \<open>Properties\<close>

text \<open>
  C21. No burst of up to 32 bits goes unnoticed: two messages of one length that differ, and differ only
  within 32 consecutive bits, wherever these lie and whatever the other bits are, have different
  checksums.
\<close>

theorem checksum_detects_burst:
  assumes "length a = length b" "a \<noteq> b"
    and "\<And>k. k < 8 * length a \<Longrightarrow> message_bits a ! k \<noteq> message_bits b ! k \<Longrightarrow> s \<le> k \<and> k < s + 32"
  shows "checksum a (length a) \<noteq> checksum b (length b)"
proof
  assume "checksum a (length a) = checksum b (length b)"
  then have eq: "foldl crc_shift 0xffffffff (message_bits a) = foldl crc_shift 0xffffffff (message_bits b)"
    by (simp add: checksum_def bit.compl_eq_compl_iff foldl_crc_bits)
  define window where "window = (\<lambda>xs :: bool list. take 32 (drop s xs))"
  have len: "length (message_bits a) = length (message_bits b)" "length (message_bits b) = 8 * length a"
    using assms(1) by (simp_all add: message_bits_def)
  have split: "xs = take s xs @ window xs @ drop (s + 32) xs" for xs
    unfolding window_def by (metis append_take_drop_id drop_drop add.commute)
  have pre: "take s (message_bits a) = take s (message_bits b)"
  proof (rule nth_equalityI)
    fix i assume "i < length (take s (message_bits a))"
    then show "take s (message_bits a) ! i = take s (message_bits b) ! i"
      using assms(3) [of i] len by auto
  qed (simp add: len)
  have post: "drop (s + 32) (message_bits a) = drop (s + 32) (message_bits b)"
  proof (rule nth_equalityI)
    fix i assume "i < length (drop (s + 32) (message_bits a))"
    then show "drop (s + 32) (message_bits a) ! i = drop (s + 32) (message_bits b) ! i"
      using assms(3) [of "s + 32 + i"] len by (fastforce simp: less_diff_conv)
  qed (simp add: len)
  define c where "c = foldl crc_shift 0xffffffff (take s (message_bits b))"
  have fold: "foldl crc_shift 0xffffffff (message_bits m) =
      foldl crc_shift (foldl crc_shift c (window (message_bits m))) (drop (s + 32) (message_bits b))"
    if "take s (message_bits m) = take s (message_bits b)"
      "drop (s + 32) (message_bits m) = drop (s + 32) (message_bits b)" for m
    using arg_cong [OF split [of "message_bits m"], of "foldl crc_shift 0xffffffff"] that by (simp add: c_def)
  have "foldl crc_shift c (window (message_bits a)) = foldl crc_shift c (window (message_bits b))"
    using eq unfolding fold [OF pre post] fold [OF refl refl] by (rule foldl_shift_inj)
  then have "window (message_bits a) = window (message_bits b)"
    by (rule foldl_window_inj) (simp_all add: window_def len)
  then have "message_bits a = message_bits b" by (metis split pre post)
  then show False using message_bits_inj assms by blast
qed

text \<open>The last four bits of the first byte up to the low four bits of the fifth.\<close>

theorem checksum_detects_burst_witness:
  "checksum [0x10, 0x20, 0x30, 0x40, 0x50, 7] 6 \<noteq> checksum [0xE0, 0xDF, 0xCF, 0xBF, 0x5A, 7] 6"
proof -
  let ?a = "[0x10, 0x20, 0x30, 0x40, 0x50, 7] :: bytes" and ?b = "[0xE0, 0xDF, 0xCF, 0xBF, 0x5A, 7] :: bytes"
  have diff: "4 \<le> k \<and> k < 4 + 32" if "k < 8 * length ?a" "message_bits ?a ! k \<noteq> message_bits ?b ! k" for k
  proof -
    have "k \<in> set [0..<48]" using that(1) by simp
    moreover have "list_all (\<lambda>k. bit (?a ! (k div 8)) (k mod 8) \<noteq> bit (?b ! (k div 8)) (k mod 8) \<longrightarrow> 4 \<le> k \<and> k < 36) [0..<48]"
      by code_simp
    ultimately show ?thesis using that by (simp add: list_all_iff message_bits_def del: upt.simps)
  qed
  have "checksum ?a (length ?a) \<noteq> checksum ?b (length ?b)"
    by (rule checksum_detects_burst [OF _ _ diff]) simp_all
  then show ?thesis by (simp add: eval_nat_numeral)
qed

text \<open>
  C34. The checksum is CRC-32: on every block, the reflected, right-shifting loop of the code computes
  the same value as the definition of the standard, the left-shifting register with the generator
  polynomial \<open>0x04C11DB7\<close> and the initial and final complement.
\<close>

theorem checksum_is_crc32: "checksum p n = crc32 (take n p)"
proof -
  have "reflect (foldl crc32_shift r xs) = foldl crc_shift (reflect r) xs" for r xs
    by (induction xs arbitrary: r) (simp_all add: reflect_shift)
  then show ?thesis by (simp add: checksum_def crc32_def foldl_crc_bits reflect_ones)
qed

text \<open>
  C24. Integers survive the byte order: decoding the little-endian encoding of a 32-bit or a 64-bit
  integer gives it back, whatever bytes follow, and encoding what was decoded gives the bytes back.
\<close>

theorem integer_round_trip:
  "decode32 (encode32 a @ p) = a \<and> decode64 (encode64 b @ p) = b \<and>
   (length q = 4 \<longrightarrow> encode32 (decode32 q) = q) \<and> (length r = 8 \<longrightarrow> encode64 (decode64 r) = r)"
  by (simp add: u32_codec.dec_enc_append u64_codec.dec_enc_append encode32_decode32 encode64_decode64)

theorem integer_round_trip_witness:
  "decode32 (encode32 0xdeadbeef @ []) = 0xdeadbeef \<and> encode32 (decode32 [1, 2, 3, 4]) = [1, 2, 3, 4] \<and>
   encode64 (decode64 [1, 2, 3, 4, 5, 6, 7, 8]) = [1, 2, 3, 4, 5, 6, 7, 8]"
  using integer_round_trip [of "0xdeadbeef" "[]" 0 "[1, 2, 3, 4]" "[1, 2, 3, 4, 5, 6, 7, 8]"] by simp

end
