(* ===== verification/TL_Layout.thy ===== *)
theory TL_Layout
  imports TL_Codec
begin

text \<open>
  The on-disk structures of the batch format, as the pure parts of \<open>timelite.c\<close>: pair headers,
  install manifests (feature 006/007), retention manifests (feature 010), segment headers, batch
  frames and records.  A structure the code fills field by field in a zeroed buffer is a chain of
  \<open>put\<close>; a frame, which the code writes without gaps, is a concatenation.
\<close>

section \<open>Constants of the format\<close>

abbreviation TIMELITE_MAX_RECORDS :: nat where "TIMELITE_MAX_RECORDS \<equiv> 64"
abbreviation TIMELITE_BATCH_SCRATCH :: nat where "TIMELITE_BATCH_SCRATCH \<equiv> 1344"
abbreviation TIMELITE_WAL_CAPACITY :: u64 where "TIMELITE_WAL_CAPACITY \<equiv> 67108864"
abbreviation TIMELITE_DATABASE_CAPACITY :: u64 where "TIMELITE_DATABASE_CAPACITY \<equiv> 1073741824"
abbreviation TIMELITE_DATA_START :: u64 where "TIMELITE_DATA_START \<equiv> 160"
abbreviation TIMELITE_SEGMENT_MIN :: u64 where "TIMELITE_SEGMENT_MIN \<equiv> 116"
abbreviation UINT64_MAX :: u64 where "UINT64_MAX \<equiv> 0xFFFFFFFFFFFFFFFF"
abbreviation INT64_MAX :: u64 where "INT64_MAX \<equiv> 0x7FFFFFFFFFFFFFFF"

text \<open>The bytes of a magic string, and \<open>memcmp(p, magic, 8) == 0\<close>.\<close>

definition ascii :: "string \<Rightarrow> bytes" where
  "ascii s = map of_char s"

definition has_magic :: "bytes \<Rightarrow> string \<Rightarrow> bool" where
  "has_magic p magic \<longleftrightarrow> take 8 p = ascii magic"

section \<open>Records\<close>

record timelite_record =
  series :: u32
  timestamp_us :: u64
  value_i64 :: int

text \<open>The values an \<open>int64_t\<close> field can hold.\<close>

definition record_in_range :: "timelite_record \<Rightarrow> bool" where
  "record_in_range r \<longleftrightarrow> - (2 ^ 63) \<le> value_i64 r \<and> value_i64 r < 2 ^ 63"

definition encode_record :: "timelite_record \<Rightarrow> bytes" where
  "encode_record r =
     encode32 (series r) @ encode64 (timestamp_us r) @ encode64 (of_int (value_i64 r))"

definition decode_record :: "bytes \<Rightarrow> timelite_record" where
  "decode_record record =
     (let value = decode64 (drop 12 record)
      in \<lparr> series = decode32 record,
           timestamp_us = decode64 (drop 4 record),
           value_i64 = (if value \<le> INT64_MAX then uint value else -1 - uint (UINT64_MAX - value)) \<rparr>)"

section \<open>Frames\<close>

definition frame_header :: "u64 \<Rightarrow> nat \<Rightarrow> bytes" where
  "frame_header next count =
     (let h = ascii ''TLBATCH!'' @ encode64 next @ encode32 (of_nat count)
                @ encode32 (of_nat (32 + count * 20)) @ encode32 0
      in h @ encode32 (checksum h 28))"

definition frame_body :: "u64 \<Rightarrow> timelite_record list \<Rightarrow> bytes" where
  "frame_body next records = frame_header next (length records) @ concat (map encode_record records)"

definition frame_commit :: "u64 \<Rightarrow> nat \<Rightarrow> bytes \<Rightarrow> bytes" where
  "frame_commit next count body =
     (let body_length = 32 + count * 20;
          c = ascii ''TLCOMMIT'' @ encode64 next @ encode32 (of_nat count)
                @ encode32 (of_nat body_length) @ encode32 (checksum body body_length)
      in c @ encode32 (checksum c 28))"

definition encode_frame :: "u64 \<Rightarrow> timelite_record list \<Rightarrow> bytes" where
  "encode_frame next records =
     frame_body next records @ frame_commit next (length records) (frame_body next records)"

definition check_frame_header :: "bytes \<Rightarrow> bool" where
  "check_frame_header bytes \<longleftrightarrow>
     (let count = decode32 (drop 16 bytes)
      in has_magic bytes ''TLBATCH!'' \<and> count \<noteq> 0 \<and> count \<le> of_nat TIMELITE_MAX_RECORDS \<and>
         decode32 (drop 20 bytes) = 32 + count * 20 \<and> decode32 (drop 24 bytes) = 0 \<and>
         checksum bytes 28 = decode32 (drop 28 bytes))"

text \<open>The commit record of a frame whose whole bytes are in memory.\<close>

definition check_commit :: "bytes \<Rightarrow> u64 \<Rightarrow> u32 \<Rightarrow> u32 \<Rightarrow> bool" where
  "check_commit bytes sequence count body_length \<longleftrightarrow>
     (let commit = drop (unat body_length) bytes
      in has_magic commit ''TLCOMMIT'' \<and> decode64 (drop 8 commit) = sequence \<and>
         decode32 (drop 16 commit) = count \<and> decode32 (drop 20 commit) = body_length \<and>
         decode32 (drop 24 commit) = checksum bytes (unat body_length) \<and>
         decode32 (drop 28 commit) = checksum commit 28)"

section \<open>Pair headers\<close>

definition pair_header_bytes :: "string \<Rightarrow> bytes \<Rightarrow> bytes \<Rightarrow> bytes" where
  "pair_header_bytes magic identity header =
     (let header = put 0 (ascii magic) header;
          header = put 8 (encode32 2) header;
          header = put 12 identity header
      in put 28 (encode32 (checksum header 28)) header)"

section \<open>Install manifests\<close>

definition encode_manifest :: "u64 \<Rightarrow> u64 \<Rightarrow> u64 \<Rightarrow> u64 \<Rightarrow> u64 \<Rightarrow> bytes" where
  "encode_manifest generation data_end last_seq last_time last_segment =
     (let m = replicate 64 0;
          m = put 0 (ascii ''TLINSTAL'') m;
          m = put 8 (encode64 generation) m;
          m = put 16 (encode64 data_end) m;
          m = put 24 (encode64 last_seq) m;
          m = (if generation \<noteq> 0
               then put 48 (encode32 7) (put 40 (encode64 last_segment) (put 32 (encode64 last_time) m))
               else m)
      in put 60 (encode32 (checksum m 60)) m)"

definition check_manifest :: "bytes \<Rightarrow> u64 \<Rightarrow> (u64 \<times> u64 \<times> u64) option" where
  "check_manifest m file_size =
     (let g = decode64 (drop 8 m); d = decode64 (drop 16 m); l = decode64 (drop 24 m)
      in if \<not> has_magic m ''TLINSTAL'' \<or>
            (block 32 28 m \<noteq> replicate 28 0 \<and>
             (decode32 (drop 48 m) \<noteq> 7 \<or> block 52 8 m \<noteq> replicate 8 0 \<or> g = 0)) \<or>
            checksum m 60 \<noteq> decode32 (drop 60 m)
         then None
         else if d < TIMELITE_DATA_START \<or> d > TIMELITE_DATABASE_CAPACITY \<or> d > file_size then None
         else if (if g = 0 then d \<noteq> TIMELITE_DATA_START \<or> l \<noteq> 0
                  else g > (TIMELITE_DATABASE_CAPACITY - TIMELITE_DATA_START) div TIMELITE_SEGMENT_MIN \<or>
                       l < g \<or> d < TIMELITE_DATA_START + g * TIMELITE_SEGMENT_MIN)
         then None
         else Some (g, d, l))"

section \<open>Retention manifests\<close>

record retention_state =
  rs_revision :: u64
  rs_root :: u64
  rs_phase :: u32
  rs_enabled :: bool

definition encode_retention ::
  "u64 \<Rightarrow> u64 \<Rightarrow> u64 \<Rightarrow> u64 \<Rightarrow> u64 \<Rightarrow> u64 \<Rightarrow> u64 \<Rightarrow> u32 \<Rightarrow> bytes" where
  "encode_retention revision count end last_seq time tail root phase =
     (let m = replicate 64 0;
          m = put 0 (ascii ''TLRETAIN'') m;
          m = put 8 (encode64 revision) m;
          m = put 16 (encode64 end) m;
          m = put 24 (encode64 last_seq) m;
          m = put 32 (encode64 time) m;
          m = put 40 (encode32 (ucast tail)) m;
          m = put 44 (encode32 (ucast root)) m;
          m = put 48 (encode32 10) m;
          m = put 52 (encode32 (ucast count)) m;
          m = put 56 (encode32 phase) m
      in put 60 (encode32 (checksum m 60)) m)"

definition retention_manifest :: "bytes \<Rightarrow> u64 \<Rightarrow> bool" where
  "retention_manifest m file_size \<longleftrightarrow>
     (let end = decode64 (drop 16 m); root = ucast (decode32 (drop 44 m)) :: u64;
          count = ucast (decode32 (drop 52 m)) :: u64; tail = ucast (decode32 (drop 40 m)) :: u64;
          phase = decode32 (drop 56 m)
      in has_magic m ''TLRETAIN'' \<and> checksum m 60 = decode32 (drop 60 m) \<and>
         decode32 (drop 48 m) = 10 \<and> decode64 (drop 8 m) \<noteq> 0 \<and> phase \<le> 3 \<and> root \<ge> 160 \<and>
         root \<le> end \<and> end \<le> file_size \<and> end \<le> TIMELITE_DATABASE_CAPACITY \<and>
         count \<le> (end - root) div TIMELITE_SEGMENT_MIN \<and> count \<le> decode64 (drop 24 m) \<and>
         (if count \<noteq> 0 then tail \<ge> root \<and> tail < end else tail = 0 \<and> root = end) \<and>
         (if phase = 2 then end - root \<le> root - 160 else root = 160))"

section \<open>Segment headers\<close>

definition encode_segment ::
  "u64 \<Rightarrow> u64 \<Rightarrow> u32 \<Rightarrow> u64 \<Rightarrow> u64 \<Rightarrow> u64 \<Rightarrow> u64 \<Rightarrow> bool \<Rightarrow> bytes" where
  "encode_segment first last_seq body minimum maximum previous skip ordered =
     (let s = replicate 64 0;
          s = put 0 (ascii (if ordered then ''TLSPAN07'' else ''TLUNOR07'')) s;
          s = put 8 (encode64 first) s;
          s = put 16 (encode64 last_seq) s;
          s = put 24 (encode32 body) s;
          s = put 28 (encode64 minimum) s;
          s = put 36 (encode64 maximum) s;
          s = put 44 (encode64 previous) s;
          s = put 52 (encode64 skip) s
      in put 60 (encode32 (checksum s 60)) s)"

definition low_bit :: "u64 \<Rightarrow> u64" where
  "low_bit n = n AND (NOT n + 1)"

section \<open>Lengths\<close>

lemma length_ascii [simp]: "length (ascii s) = length s"
  by (simp add: ascii_def)

lemma length_encode_record [simp]: "length (encode_record r) = 20"
  by (simp add: encode_record_def)

lemma length_frame_header [simp]: "length (frame_header n c) = 32"
  by (simp add: frame_header_def Let_def)

lemma length_frame_commit [simp]: "length (frame_commit n c b) = 32"
  by (simp add: frame_commit_def Let_def)

lemma length_encode_manifest [simp]: "length (encode_manifest g d l t s) = 64"
  by (simp add: encode_manifest_def Let_def layout)

lemma length_encode_retention [simp]: "length (encode_retention r c e l t a rt p) = 64"
  by (simp add: encode_retention_def Let_def layout)

lemma length_encode_segment [simp]: "length (encode_segment f l b mi ma p s ord) = 64"
  by (simp add: encode_segment_def Let_def layout)

section \<open>Records round trip\<close>

text \<open>The decoder rebuilds a signed value without an out-of-range conversion.\<close>

lemma signed_value:
  fixes x :: int
  assumes "- (2 ^ 63) \<le> x" "x < 2 ^ 63"
  defines "v \<equiv> of_int x :: u64"
  shows "(if v \<le> INT64_MAX then uint v else -1 - uint (UINT64_MAX - v)) = x"
proof (cases "0 \<le> x")
  case True
  then have "uint v = x"
    unfolding v_def uint_word_of_int using assms(2) by (simp add: mod_pos_pos_trivial)
  then show ?thesis
    using assms by (simp add: word_le_def)
next
  case False
  have "x mod 2 ^ 64 = (x + 2 ^ 64) mod 2 ^ 64" by (rule mod_add_self2 [symmetric])
  also have "\<dots> = x + 2 ^ 64"
    using False assms(1) by (intro mod_pos_pos_trivial) simp_all
  finally have u: "uint v = x + 2 ^ 64"
    unfolding v_def uint_word_of_int by simp
  have "v \<le> UINT64_MAX"
    using u False by (simp add: word_le_def)
  then have "uint (UINT64_MAX - v) = (2 ^ 64 - 1) - uint v"
    using uint_minus_simple_alt [of v UINT64_MAX] by simp
  then show ?thesis
    using u assms(1) False by (simp add: word_le_def)
qed

interpretation record_codec: fixed_codec encode_record decode_record 20 record_in_range
proof unfold_locales
  fix v :: timelite_record and p :: bytes
  show "length (encode_record v) = 20" by simp
  show "decode_record (take 20 p) = decode_record p"
    using u32_codec.dec_take [of "take 20 p"] u32_codec.dec_take [of p]
      u64_codec.dec_block [of 8 4 p] u64_codec.dec_block [of 8 12 p]
      u64_codec.dec_block [of 8 4 "take 20 p"] u64_codec.dec_block [of 8 12 "take 20 p"]
    by (simp add: decode_record_def Let_def block_def drop_take)
  assume "record_in_range v"
  then show "decode_record (encode_record v) = v"
    by (simp add: decode_record_def encode_record_def Let_def layout signed_value record_in_range_def)
qed

section \<open>Frames round trip\<close>

lemma take_8_ascii [simp]: "length s = 8 \<Longrightarrow> take 8 (ascii s @ p) = ascii s"
  by simp

lemma has_magic_ascii [layout]: "length s = 8 \<Longrightarrow> has_magic (ascii s @ p) s"
  by (simp add: has_magic_def)

lemma has_magic_put0 [layout]:
  "length s = 8 \<Longrightarrow> 8 \<le> length p \<Longrightarrow> has_magic (put 0 (ascii s) p) t \<longleftrightarrow> ascii s = ascii t"
  by (simp add: has_magic_def put_eq)

lemma has_magic_put [layout]:
  "8 \<le> off \<Longrightarrow> has_magic (put off bs p) t \<longleftrightarrow> has_magic p t"
  using block_put_before [of 0 8 off bs p] by (simp add: has_magic_def block_def)

lemma has_magic_append: "8 \<le> length p \<Longrightarrow> has_magic (p @ q) s = has_magic p s"
  by (simp add: has_magic_def)

text \<open>The fields of a frame header, wherever more bytes follow it.\<close>

lemma frame_header_fields [layout]:
  "decode64 (drop 8 (frame_header n c @ rest)) = n"
  "decode32 (drop 16 (frame_header n c @ rest)) = of_nat c"
  "decode32 (drop 20 (frame_header n c @ rest)) = of_nat (32 + c * 20)"
  by (simp_all add: frame_header_def Let_def layout)

lemma check_frame_header_append: "32 \<le> length h \<Longrightarrow> check_frame_header (h @ rest) = check_frame_header h"
  by (simp add: check_frame_header_def Let_def layout has_magic_append checksum_append)

lemma check_frame_header_frame_header:
  assumes "0 < c" "c \<le> TIMELITE_MAX_RECORDS"
  shows "check_frame_header (frame_header n c)"
proof -
  have "(of_nat c :: u32) \<noteq> 0" "(of_nat c :: u32) \<le> 64"
    using assms by (simp_all add: word_unat_eq_iff word_le_nat_alt u32_of_nat)
  then show ?thesis
    by (simp add: check_frame_header_def frame_header_def Let_def layout) (simp add: checksum_def)
qed

lemma length_frame_body [simp]: "length (frame_body n rs) = 32 + length rs * 20"
  by (simp add: frame_body_def record_codec.length_concat_enc)

lemma length_encode_frame [simp]: "length (encode_frame n rs) = 64 + length rs * 20"
  by (simp add: encode_frame_def)

lemma frame_counts:
  assumes "c \<le> TIMELITE_MAX_RECORDS"
  shows "unat (of_nat c :: u32) = c" "unat (of_nat (32 + c * 20) :: u32) = 32 + c * 20"
  using assms by (auto intro: u32_of_nat simp del: of_nat_add of_nat_mult)

lemma check_commit_encode_frame:
  assumes "length rs \<le> TIMELITE_MAX_RECORDS"
  shows "check_commit (encode_frame n rs) n (of_nat (length rs)) (of_nat (32 + length rs * 20))"
  using assms frame_counts [OF assms]
  by (simp add: check_commit_def encode_frame_def frame_commit_def Let_def layout checksum_append)
    (simp add: checksum_def)

text \<open>The records of a frame, read back one by one at their offsets.\<close>

definition frame_records :: "bytes \<Rightarrow> nat \<Rightarrow> timelite_record list" where
  "frame_records bytes count = map (\<lambda>i. decode_record (drop (32 + i * 20) bytes)) [0..<count]"

lemma frame_records_encode_frame:
  assumes "list_all record_in_range rs"
  shows "frame_records (encode_frame n rs) (length rs) = rs"
proof -
  have "drop (32 + i * 20) (encode_frame n rs) =
      drop (i * 20) (concat (map encode_record rs) @ frame_commit n (length rs) (frame_body n rs))" for i
    by (simp add: encode_frame_def frame_body_def)
  then show ?thesis
    unfolding frame_records_def
    using record_codec.map_dec_concat_enc [OF assms] by (simp del: drop_append)
qed

section \<open>Manifests and segment headers round trip\<close>

text \<open>The extent an install manifest may describe: what \<open>check_manifest\<close> accepts beyond its integrity.\<close>

definition manifest_extent :: "u64 \<Rightarrow> u64 \<Rightarrow> u64 \<Rightarrow> u64 \<Rightarrow> bool" where
  "manifest_extent g d l file_size \<longleftrightarrow>
     TIMELITE_DATA_START \<le> d \<and> d \<le> TIMELITE_DATABASE_CAPACITY \<and> d \<le> file_size \<and>
     (if g = 0 then d = TIMELITE_DATA_START \<and> l = 0
      else g \<le> (TIMELITE_DATABASE_CAPACITY - TIMELITE_DATA_START) div TIMELITE_SEGMENT_MIN \<and>
           g \<le> l \<and> TIMELITE_DATA_START + g * TIMELITE_SEGMENT_MIN \<le> d)"

lemma encode_manifest_fields [layout]:
  "has_magic (encode_manifest g d l t s) ''TLINSTAL''"
  "decode64 (drop 8 (encode_manifest g d l t s)) = g"
  "decode64 (drop 16 (encode_manifest g d l t s)) = d"
  "decode64 (drop 24 (encode_manifest g d l t s)) = l"
  "checksum (encode_manifest g d l t s) 60 = decode32 (drop 60 (encode_manifest g d l t s))"
  "decode64 (drop 32 (encode_manifest g d l t s)) = (if g = 0 then 0 else t)"
  "decode64 (drop 40 (encode_manifest g d l t s)) = (if g = 0 then 0 else s)"
  "decode32 (drop 48 (encode_manifest g d l t s)) = (if g = 0 then 0 else 7)"
  by (simp_all add: encode_manifest_def Let_def layout)
    (simp_all add: decode64_def decode32_def upt_rec)

lemma encode_manifest_reserved:
  "block 52 8 (encode_manifest g d l t s) = replicate 8 0"
  "g = 0 \<Longrightarrow> block 32 28 (encode_manifest g d l t s) = replicate 28 0"
  by (simp_all add: encode_manifest_def Let_def block_put_before block_put_after layout)
    (simp_all add: block_def)

lemma check_manifestI:
  assumes "has_magic m ''TLINSTAL''" "checksum m 60 = decode32 (drop 60 m)"
    and "block 32 28 m = replicate 28 0 \<or>
         decode32 (drop 48 m) = 7 \<and> block 52 8 m = replicate 8 0 \<and> decode64 (drop 8 m) \<noteq> 0"
    and "manifest_extent (decode64 (drop 8 m)) (decode64 (drop 16 m)) (decode64 (drop 24 m)) file_size"
  shows "check_manifest m file_size =
     Some (decode64 (drop 8 m), decode64 (drop 16 m), decode64 (drop 24 m))"
  using assms unfolding check_manifest_def manifest_extent_def Let_def
  by (auto simp only: not_less not_le simp_thms if_True if_False split: if_splits)

lemma check_manifest_SomeD:
  "check_manifest m file_size = Some (g, d, l) \<Longrightarrow>
     manifest_extent g d l file_size \<and> has_magic m ''TLINSTAL'' \<and>
     g = decode64 (drop 8 m) \<and> d = decode64 (drop 16 m) \<and> l = decode64 (drop 24 m)"
  unfolding check_manifest_def manifest_extent_def Let_def
  by (auto simp only: not_less not_le simp_thms option.inject prod.inject if_True if_False
      split: if_splits)

lemma check_manifest_encode_manifest:
  assumes "manifest_extent g d l file_size"
  shows "check_manifest (encode_manifest g d l t s) file_size = Some (g, d, l)"
  using check_manifestI [of "encode_manifest g d l t s" file_size] assms encode_manifest_reserved
  by (simp only: layout if_True if_False simp_thms) (metis (full_types))

lemma encode_retention_fields [layout]:
  "has_magic (encode_retention r c e l t a rt p) ''TLRETAIN''"
  "decode64 (drop 8 (encode_retention r c e l t a rt p)) = r"
  "decode64 (drop 16 (encode_retention r c e l t a rt p)) = e"
  "decode64 (drop 24 (encode_retention r c e l t a rt p)) = l"
  "decode64 (drop 32 (encode_retention r c e l t a rt p)) = t"
  "decode32 (drop 40 (encode_retention r c e l t a rt p)) = ucast a"
  "decode32 (drop 44 (encode_retention r c e l t a rt p)) = ucast rt"
  "decode32 (drop 48 (encode_retention r c e l t a rt p)) = 10"
  "decode32 (drop 52 (encode_retention r c e l t a rt p)) = ucast c"
  "decode32 (drop 56 (encode_retention r c e l t a rt p)) = p"
  "checksum (encode_retention r c e l t a rt p) 60 = decode32 (drop 60 (encode_retention r c e l t a rt p))"
  by (simp_all add: encode_retention_def Let_def layout)

text \<open>The extent a retention manifest may describe.\<close>

definition retention_extent ::
  "u64 \<Rightarrow> u64 \<Rightarrow> u64 \<Rightarrow> u64 \<Rightarrow> u64 \<Rightarrow> u64 \<Rightarrow> u32 \<Rightarrow> u64 \<Rightarrow> bool" where
  "retention_extent revision count end last_seq tail root phase file_size \<longleftrightarrow>
     revision \<noteq> 0 \<and> phase \<le> 3 \<and> root \<ge> 160 \<and> root \<le> end \<and> end \<le> file_size \<and>
     end \<le> TIMELITE_DATABASE_CAPACITY \<and> count \<le> (end - root) div TIMELITE_SEGMENT_MIN \<and>
     count \<le> last_seq \<and>
     (if count \<noteq> 0 then tail \<ge> root \<and> tail < end else tail = 0 \<and> root = end) \<and>
     (if phase = 2 then end - root \<le> root - 160 else root = 160)"

lemma ucast_32_64: "unat x < 2 ^ 32 \<Longrightarrow> ucast (ucast x :: u32) = x" for x :: u64
  by (simp add: word_unat_eq_iff unsigned_ucast_eq unsigned_take_bit_eq take_bit_nat_eq_self)

lemma retention_words:
  assumes "retention_extent r c e l a rt p file_size"
  shows "ucast (ucast c :: u32) = c" "ucast (ucast a :: u32) = a" "ucast (ucast rt :: u32) = rt"
proof -
  have e: "unat e \<le> 1073741824" and rt: "unat rt \<le> unat e" "160 \<le> unat rt"
    and c: "c \<le> (e - rt) div 116" and a: "unat a \<le> unat e"
    using assms by (auto simp: retention_extent_def word_le_nat_alt word_less_nat_alt split: if_splits)
  have "unat ((e - rt) div 116) \<le> unat (e - rt)"
    by (simp add: unat_div)
  also have "\<dots> \<le> unat e"
    using rt by (simp add: u64_arith)
  finally have "unat c \<le> unat e"
    using c by (simp add: word_le_nat_alt)
  then show "ucast (ucast c :: u32) = c" "ucast (ucast a :: u32) = a" "ucast (ucast rt :: u32) = rt"
    using e rt a by (simp_all add: ucast_32_64)
qed

lemma retention_manifest_encode_retention:
  assumes "retention_extent r c e l a rt p file_size"
  shows "retention_manifest (encode_retention r c e l t a rt p) file_size"
  using assms unfolding retention_manifest_def retention_extent_def Let_def
  by (simp only: layout retention_words [OF assms] simp_thms) blast

lemma encode_segment_fields [layout]:
  "decode64 (drop 8 (encode_segment f l b mi ma p s ord)) = f"
  "decode64 (drop 16 (encode_segment f l b mi ma p s ord)) = l"
  "decode32 (drop 24 (encode_segment f l b mi ma p s ord)) = b"
  "decode64 (drop 28 (encode_segment f l b mi ma p s ord)) = mi"
  "decode64 (drop 36 (encode_segment f l b mi ma p s ord)) = ma"
  "decode64 (drop 44 (encode_segment f l b mi ma p s ord)) = p"
  "decode64 (drop 52 (encode_segment f l b mi ma p s ord)) = s"
  "checksum (encode_segment f l b mi ma p s ord) 60 =
     decode32 (drop 60 (encode_segment f l b mi ma p s ord))"
  by (simp_all add: encode_segment_def Let_def layout)

lemma encode_segment_magic [layout]:
  "has_magic (encode_segment f l b mi ma p s ord) ''TLSPAN07'' = ord"
  "has_magic (encode_segment f l b mi ma p s ord) ''TLUNOR07'' = (\<not> ord)"
  "\<not> has_magic (encode_segment f l b mi ma p s ord) ''TLSEGMNT''"
  by (cases ord; simp add: encode_segment_def Let_def layout; simp add: ascii_def)+

section \<open>Properties\<close>

text \<open>
  C22. A frame can always be read back: the frame of a batch of 1 to 64 records has a valid header with
  its sequence, a valid commit record, 64 bytes of framing beside 20 per record, and its records
  decode to exactly the records encoded, signed values included.
\<close>

theorem frame_round_trip:
  assumes "rs \<noteq> []" "length rs \<le> TIMELITE_MAX_RECORDS" "list_all record_in_range rs"
  shows "check_frame_header (encode_frame n rs) \<and> decode64 (drop 8 (encode_frame n rs)) = n \<and>
    check_commit (encode_frame n rs) n (of_nat (length rs)) (of_nat (32 + length rs * 20)) \<and>
    length (encode_frame n rs) = 64 + length rs * 20 \<and>
    map (\<lambda>i. decode_record (drop (32 + i * 20) (encode_frame n rs))) [0..<length rs] = rs"
proof -
  have e: "encode_frame n rs = frame_header n (length rs) @
      (concat (map encode_record rs) @ frame_commit n (length rs) (frame_body n rs))"
    by (simp add: encode_frame_def frame_body_def)
  have "check_frame_header (encode_frame n rs)"
    unfolding e using assms by (simp add: check_frame_header_append check_frame_header_frame_header)
  moreover have "decode64 (drop 8 (encode_frame n rs)) = n"
    unfolding e by (simp only: layout)
  moreover have "map (\<lambda>i. decode_record (drop (32 + i * 20) (encode_frame n rs))) [0..<length rs] = rs"
    using frame_records_encode_frame [OF assms(3), of n] by (simp only: frame_records_def)
  ultimately show ?thesis
    using check_commit_encode_frame [OF assms(2)] by simp
qed

theorem frame_round_trip_witness:
  "map (\<lambda>i. decode_record (drop (32 + i * 20) (encode_frame 9 [\<lparr>series = 7, timestamp_us = 1, value_i64 = - (2 ^ 63)\<rparr>])))
     [0..<length [\<lparr>series = 7, timestamp_us = 1, value_i64 = - (2 ^ 63)\<rparr>]] =
   [\<lparr>series = 7, timestamp_us = 1, value_i64 = - (2 ^ 63)\<rparr>]"
  using frame_round_trip [of "[\<lparr>series = 7, timestamp_us = 1, value_i64 = - (2 ^ 63)\<rparr>]" 9]
  by (simp add: record_in_range_def)

text \<open>
  C23. Both kinds of manifest survive their round trip: the checks accept what the encoders write for
  every extent the format allows, and every field is read back as it was written at the offset the
  readers use: generation (or revision and count), data end, last sequence, last timestamp, last
  segment, and of a retention manifest the root and the phase, although it stores positions in 32
  bits.  The empty generation 0 stores no timestamp and no segment.
\<close>

theorem manifest_round_trip:
  fixes t s t' :: u64
  assumes "manifest_extent g d l file_size" "retention_extent r c e l' a rt p file_size"
  defines "m \<equiv> encode_manifest g d l t s" and "m' \<equiv> encode_retention r c e l' t' a rt p"
  shows "check_manifest m file_size = Some (g, d, l) \<and> decode64 (drop 8 m) = g \<and>
    decode64 (drop 32 m) = (if g = 0 then 0 else t) \<and> decode64 (drop 40 m) = (if g = 0 then 0 else s) \<and>
    decode32 (drop 48 m) = (if g = 0 then 0 else 7) \<and>
    retention_manifest m' file_size \<and> has_magic m' ''TLRETAIN'' \<and> decode64 (drop 8 m') = r \<and>
    ucast (decode32 (drop 52 m')) = c \<and> decode64 (drop 16 m') = e \<and> decode64 (drop 24 m') = l' \<and>
    decode64 (drop 32 m') = t' \<and> ucast (decode32 (drop 40 m')) = a \<and>
    ucast (decode32 (drop 44 m')) = rt \<and> decode32 (drop 56 m') = p"
  using check_manifest_encode_manifest [OF assms(1)] retention_manifest_encode_retention [OF assms(2)]
    retention_words [OF assms(2)] by (simp only: m_def m'_def layout)

theorem manifest_round_trip_witness:
  "check_manifest (encode_manifest 1 308 1 5 160) 308 = Some (1, 308, 1) \<and>
   decode64 (drop 32 (encode_manifest 1 308 1 5 160)) = 5 \<and> decode64 (drop 40 (encode_manifest 1 308 1 5 160)) = 160 \<and>
   retention_manifest (encode_retention 4 1 308 1 5 160 160 0) 308 \<and>
   decode64 (drop 32 (encode_retention 4 1 308 1 5 160 160 0)) = 5"
proof -
  have "manifest_extent 1 308 1 308" "retention_extent 4 1 308 1 160 160 0 308"
    by (simp_all add: manifest_extent_def retention_extent_def)
  from manifest_round_trip [OF this, of 5 160 5] show ?thesis by simp
qed

end
