(* ===== verification/TL_Backend.thy ===== *)
theory TL_Backend
  imports TL_Prelude
begin

text \<open>
  The contract of the file layer as \<open>file_io.h\<close> states it, for the operations the batch engine
  composes: positioned reads and writes, truncation and sync.  \<open>content\<close> is what a read sees,
  \<open>durable\<close> what the last sync preserved; \<open>same_file\<close> relates handles on the same file.  A failed
  transfer may have changed a prefix; a failed sync may or may not have reached the storage.  The
  engine's write protocols are proved once here and used through the interpretation on the POSIX
  backend.
\<close>

text \<open>An offset and a length the transfer functions accept: both ends fit \<open>INT64_MAX\<close>.\<close>

definition in_off_t :: "u64 \<Rightarrow> nat \<Rightarrow> bool" where
  "in_off_t offset len \<longleftrightarrow> unat offset + len \<le> 0x7FFFFFFFFFFFFFFF"

locale file_backend =
  fixes content :: "'w \<Rightarrow> 'f \<Rightarrow> bytes"
    and durable :: "'w \<Rightarrow> 'f \<Rightarrow> bytes"
    and usable :: "'w \<Rightarrow> 'f \<Rightarrow> bool"
    and same_file :: "'w \<Rightarrow> 'f \<Rightarrow> 'f \<Rightarrow> bool"
    and rd :: "'f \<Rightarrow> u64 \<Rightarrow> nat \<Rightarrow> 'w \<Rightarrow> (error option \<times> bytes) \<times> 'w"
    and wr :: "'f \<Rightarrow> u64 \<Rightarrow> bytes \<Rightarrow> 'w \<Rightarrow> (error option \<times> nat) \<times> 'w"
    and tr :: "'f \<Rightarrow> u64 \<Rightarrow> 'w \<Rightarrow> error option \<times> 'w"
    and sy :: "'f \<Rightarrow> 'w \<Rightarrow> error option \<times> 'w"
  assumes same_file_refl: "same_file w f f"
    and rd_frame: "usable w f \<Longrightarrow> rd f off n w = (r, w') \<Longrightarrow>
          content w' = content w \<and> durable w' = durable w \<and> usable w' = usable w \<and> same_file w' = same_file w"
    and rd_ok: "usable w f \<Longrightarrow> rd f off n w = ((None, bs), w') \<Longrightarrow> bs = block (unat off) n (content w f)"
    and wr_frame: "usable w f \<Longrightarrow> wr f off bs w = (s, w') \<Longrightarrow>
          usable w' = usable w \<and> same_file w' = same_file w \<and> durable w' = durable w \<and>
          (\<forall>g. \<not> same_file w f g \<longrightarrow> content w' g = content w g)"
    and wr_prefix: "usable w f \<Longrightarrow> wr f off bs w = (s, w') \<Longrightarrow>
          \<exists>n \<le> length bs. content w' f = overwrite (unat off) (take n bs) (content w f)"
    and wr_ok: "usable w f \<Longrightarrow> wr f off bs w = ((None, k), w') \<Longrightarrow>
          content w' f = overwrite (unat off) bs (content w f) \<and> k = length bs"
    and tr_frame: "usable w f \<Longrightarrow> tr f sz w = (e, w') \<Longrightarrow>
          usable w' = usable w \<and> same_file w' = same_file w \<and> durable w' = durable w \<and>
          (\<forall>g. \<not> same_file w f g \<longrightarrow> content w' g = content w g)"
    and tr_any: "usable w f \<Longrightarrow> tr f sz w = (e, w') \<Longrightarrow>
          content w' f = content w f \<or> content w' f = resize (unat sz) (content w f)"
    and tr_ok: "usable w f \<Longrightarrow> tr f sz w = (None, w') \<Longrightarrow> content w' f = resize (unat sz) (content w f)"
    and sy_frame: "usable w f \<Longrightarrow> sy f w = (e, w') \<Longrightarrow>
          usable w' = usable w \<and> same_file w' = same_file w \<and> content w' = content w \<and>
          (\<forall>g. \<not> same_file w f g \<longrightarrow> durable w' g = durable w g)"
    and sy_any: "usable w f \<Longrightarrow> sy f w = (e, w') \<Longrightarrow>
          durable w' f = durable w f \<or> durable w' f = content w f"
    and sy_ok: "usable w f \<Longrightarrow> sy f w = (None, w') \<Longrightarrow> durable w' f = content w f"
begin

text \<open>A read after a successful write of the same extent returns what was written.\<close>

lemma rd_after_wr:
  assumes "usable w f" "wr f off bs w = ((None, k), u)" "rd f off (length bs) u = ((None, got), v)"
  shows "got = bs"
proof -
  have "usable u f" using wr_frame [OF assms(1,2)] assms(1) by simp
  then have "got = block (unat off) (length bs) (content u f)" using assms(3) by (rule rd_ok)
  also have "\<dots> = bs" using wr_ok [OF assms(1,2)] by (simp add: block_overwrite_same)
  finally show ?thesis .
qed

text \<open>A write followed by a sync: \<open>write_exact\<close> then \<open>timelite_file_sync\<close>.\<close>

lemma wr_sy:
  assumes "usable w f" "wr f off bs w = ((None, k), u)" "sy f u = (None, v)"
  shows "usable v = usable w \<and> same_file v = same_file w \<and>
    content v f = overwrite (unat off) bs (content w f) \<and> durable v f = content v f \<and>
    (\<forall>g. \<not> same_file w f g \<longrightarrow> content v g = content w g \<and> durable v g = durable w g)"
proof -
  note w = wr_frame [OF assms(1,2)] wr_ok [OF assms(1,2)]
  then have "usable u f" using assms(1) by simp
  note s = sy_frame [OF this assms(3)] sy_ok [OF this assms(3)]
  show ?thesis using w s by simp
qed

text \<open>The append protocol: body, sync, commit, sync, at adjacent offsets.\<close>

lemma wr_sy_wr_sy:
  assumes "usable w f" "wr f off a w = ((None, k), u)" "sy f u = (None, v)"
    and "wr f off' b v = ((None, l), x)" "sy f x = (None, y)" and "unat off' = unat off + length a"
  shows "usable y = usable w \<and> same_file y = same_file w \<and>
    content y f = overwrite (unat off) (a @ b) (content w f) \<and> durable y f = content y f \<and>
    (\<forall>g. \<not> same_file w f g \<longrightarrow> content y g = content w g \<and> durable y g = durable w g)"
proof -
  note 1 = wr_sy [OF assms(1-3)]
  then have "usable v f" using assms(1) by simp
  note 2 = wr_sy [OF this assms(4,5)]
  show ?thesis
    using 1 2 assms(6) by (simp add: overwrite_adjacent)
qed

text \<open>Before the commit is written, what is durable is a prefix of the old bytes and the body.\<close>

lemma wr_uncommitted:
  assumes "usable w f" "wr f off bs w = (r, w')"
  shows "durable w' f = durable w f \<and>
    (\<exists>n \<le> length bs. content w' f = overwrite (unat off) (take n bs) (content w f))"
  using wr_frame [OF assms] wr_prefix [OF assms] by simp

end

text \<open>A backend that makes progress: without faults every accepted operation succeeds.\<close>

locale live_backend = file_backend content durable usable same_file rd wr tr sy
  for content :: "'w \<Rightarrow> 'f \<Rightarrow> bytes" and durable usable same_file rd wr tr sy +
  fixes quiet :: "'w \<Rightarrow> bool"
  assumes rd_live: "quiet w \<Longrightarrow> usable w f \<Longrightarrow> in_off_t off n \<Longrightarrow>
          \<exists>bs. rd f off n w = ((None, bs), w)"
    and wr_live: "quiet w \<Longrightarrow> usable w f \<Longrightarrow> in_off_t off (length bs) \<Longrightarrow>
          \<exists>k w'. wr f off bs w = ((None, k), w') \<and> quiet w'"
    and tr_live: "quiet w \<Longrightarrow> usable w f \<Longrightarrow> in_off_t sz 0 \<Longrightarrow> \<exists>w'. tr f sz w = (None, w') \<and> quiet w'"
    and sy_live: "quiet w \<Longrightarrow> usable w f \<Longrightarrow> \<exists>w'. sy f w = (None, w') \<and> quiet w'"
begin

lemma rd_quiet:
  assumes "quiet w" "usable w f" "in_off_t off n"
  shows "rd f off n w = ((None, block (unat off) n (content w f)), w)"
  using rd_live [OF assms] rd_ok [OF assms(2)] by metis

lemma wr_sy_live:
  assumes "quiet w" "usable w f" "in_off_t off (length bs)"
  shows "\<exists>k u v. wr f off bs w = ((None, k), u) \<and> sy f u = (None, v) \<and> quiet v"
proof -
  obtain k u where u: "wr f off bs w = ((None, k), u)" "quiet u" using wr_live [OF assms] by blast
  then have "usable u f" using wr_frame [OF assms(2) u(1)] assms(2) by simp
  with u show ?thesis using sy_live by blast
qed

end

end
