(* ===== verification/TL_FileIO.thy ===== *)
theory TL_FileIO
  imports TL_Layout TL_Backend
begin

text \<open>
  The file layer, \<open>file_io.c\<close>, over a small model of the POSIX calls it makes.  The kernel state
  \<open>os\<close> holds directory entries, inodes with their current and their synced bytes, the descriptor
  table and the lock owners.  What the operating system is free to decide is the \<open>script\<close>: each
  system call takes the next outcome from it (an error without effect, an error after the effect, a
  short transfer, success) and succeeds once the script is empty, so a theorem over every script
  covers every interruption, short transfer and failure the manuals allow.  The script is finite:
  interrupted calls are retried finitely often.
\<close>

section \<open>The operating system\<close>

record inode =
  i_data :: bytes
  i_synced :: bytes
  i_regular :: bool
  i_fs :: nat

datatype dirent = Entry nat | Symlink nat

datatype outcome = Done | Short nat | Fail error | FailAfter error

record os =
  entries :: "string \<times> string \<Rightarrow> dirent option"
  synced_entries :: "string \<times> string \<Rightarrow> dirent option"
  directories :: "string \<Rightarrow> bool"
  inodes :: "nat \<Rightarrow> inode"
  fds :: "int \<Rightarrow> nat option"
  lock_owner :: "nat \<Rightarrow> int option"
  entropy :: bytes
  default_fs :: nat
  fresh_inode :: nat
  fresh_fd :: int
  script :: "outcome list"

definition pop :: "os \<Rightarrow> outcome \<times> os" where
  "pop w = (case script w of [] \<Rightarrow> (Done, w) | oc # s \<Rightarrow> (oc, w\<lparr>script := s\<rparr>))"

text \<open>\<open>strrchr(path, '/')\<close> splits a path into its directory and its last component.\<close>

definition split_path :: "string \<Rightarrow> string \<times> string" where
  "split_path path =
     (let name = rev (takeWhile (\<lambda>c. c \<noteq> CHR ''/'') (rev path));
          parent = take (length path - length name - 1) path
      in if CHR ''/'' \<notin> set path then (''.'', name)
         else (if parent = [] then ''/'' else parent, name))"

fun dirent_inode :: "dirent \<Rightarrow> nat" where
  "dirent_inode (Entry i) = i"
| "dirent_inode (Symlink i) = i"

definition sys_open :: "string \<Rightarrow> bool \<Rightarrow> os \<Rightarrow> (error + int) \<times> os" where
  "sys_open path create w =
     (let (oc, w) = pop w; key = split_path path; i = fresh_inode w; fd = fresh_fd w;
          made = w\<lparr>entries := (entries w)(key := Some (Entry i)),
                   inodes := (inodes w)(i := \<lparr>i_data = [], i_synced = [], i_regular = True, i_fs = default_fs w\<rparr>),
                   fresh_inode := i + 1\<rparr>
      in case oc of
           Fail e \<Rightarrow> (Inl e, w)
         | FailAfter e \<Rightarrow>
             (Inl e, if create \<and> directories w (fst key) \<and> entries w key = None then made else w)
         | _ \<Rightarrow>
             if \<not> directories w (fst key) then (Inl ENOENT, w)
             else (case entries w key of
                     Some d \<Rightarrow>
                       if create then (Inl EEXIST, w)
                       else (Inr fd, w\<lparr>fds := (fds w)(fd \<mapsto> dirent_inode d), fresh_fd := fd + 1\<rparr>)
                   | None \<Rightarrow>
                       if create then (Inr fd, made\<lparr>fds := (fds w)(fd \<mapsto> i), fresh_fd := fd + 1\<rparr>)
                       else (Inl ENOENT, w)))"

text \<open>\<open>fstat\<close>: the inode number and the inode of an open descriptor.\<close>

definition sys_fstat :: "int \<Rightarrow> os \<Rightarrow> (error + nat \<times> inode) \<times> os" where
  "sys_fstat fd w =
     (let (oc, w) = pop w
      in case oc of
           Fail e \<Rightarrow> (Inl e, w)
         | FailAfter e \<Rightarrow> (Inl e, w)
         | _ \<Rightarrow> (case fds w fd of None \<Rightarrow> (Inl EBADF, w) | Some i \<Rightarrow> (Inr (i, inodes w i), w)))"

definition sys_pread :: "int \<Rightarrow> nat \<Rightarrow> nat \<Rightarrow> os \<Rightarrow> (error + bytes) \<times> os" where
  "sys_pread fd count pos w =
     (let (oc, w) = pop w
      in case fds w fd of
           None \<Rightarrow> (Inl EBADF, w)
         | Some i \<Rightarrow>
             (case oc of
                Fail e \<Rightarrow> (Inl e, w)
              | FailAfter e \<Rightarrow> (Inl e, w)
              | Short n \<Rightarrow> (Inr (block pos (min count (max 1 n)) (i_data (inodes w i))), w)
              | Done \<Rightarrow> (Inr (block pos count (i_data (inodes w i))), w)))"

definition modify_inode :: "nat \<Rightarrow> (inode \<Rightarrow> inode) \<Rightarrow> os \<Rightarrow> os" where
  "modify_inode i f w = w\<lparr>inodes := (inodes w)(i := f (inodes w i))\<rparr>"

definition sys_pwrite :: "int \<Rightarrow> bytes \<Rightarrow> nat \<Rightarrow> os \<Rightarrow> (error + nat) \<times> os" where
  "sys_pwrite fd bs pos w =
     (let (oc, w) = pop w
      in case fds w fd of
           None \<Rightarrow> (Inl EBADF, w)
         | Some i \<Rightarrow>
             (let wrote = (\<lambda>n. modify_inode i (\<lambda>x. x\<lparr>i_data := overwrite pos (take n bs) (i_data x)\<rparr>) w)
              in case oc of
                   Fail e \<Rightarrow> (Inl e, w)
                 | FailAfter e \<Rightarrow> (Inl e, wrote (length bs))
                 | Short n \<Rightarrow> (Inr (min n (length bs)), wrote n)
                 | Done \<Rightarrow> (Inr (length bs), wrote (length bs))))"

definition sys_ftruncate :: "int \<Rightarrow> nat \<Rightarrow> os \<Rightarrow> (error + unit) \<times> os" where
  "sys_ftruncate fd n w =
     (let (oc, w) = pop w
      in case fds w fd of
           None \<Rightarrow> (Inl EBADF, w)
         | Some i \<Rightarrow>
             (let cut = modify_inode i (\<lambda>x. x\<lparr>i_data := resize n (i_data x)\<rparr>) w
              in case oc of Fail e \<Rightarrow> (Inl e, w) | FailAfter e \<Rightarrow> (Inl e, cut) | _ \<Rightarrow> (Inr (), cut)))"

definition sys_fdatasync :: "int \<Rightarrow> os \<Rightarrow> (error + unit) \<times> os" where
  "sys_fdatasync fd w =
     (let (oc, w) = pop w
      in case fds w fd of
           None \<Rightarrow> (Inl EBADF, w)
         | Some i \<Rightarrow>
             (let flushed = modify_inode i (\<lambda>x. x\<lparr>i_synced := i_data x\<rparr>) w
              in case oc of Fail e \<Rightarrow> (Inl e, w) | FailAfter e \<Rightarrow> (Inl e, flushed) | _ \<Rightarrow> (Inr (), flushed)))"

text \<open>\<open>close\<close> releases the descriptor and its lock; a failure leaves only the result in doubt.\<close>

definition sys_close :: "int \<Rightarrow> os \<Rightarrow> (error + unit) \<times> os" where
  "sys_close fd w =
     (let (oc, w) = pop w
      in case fds w fd of
           None \<Rightarrow> (Inl EBADF, w)
         | Some i \<Rightarrow>
             (let closed = w\<lparr>fds := (fds w)(fd := None),
                            lock_owner := (if lock_owner w i = Some fd then (lock_owner w)(i := None)
                                           else lock_owner w)\<rparr>
              in case oc of Fail e \<Rightarrow> (Inl e, closed) | FailAfter e \<Rightarrow> (Inl e, closed) | _ \<Rightarrow> (Inr (), closed)))"

text \<open>\<open>flock(fd, LOCK_EX | LOCK_NB)\<close>: one owner per open file description.\<close>

definition sys_flock :: "int \<Rightarrow> os \<Rightarrow> (error + unit) \<times> os" where
  "sys_flock fd w =
     (let (oc, w) = pop w
      in case fds w fd of
           None \<Rightarrow> (Inl EBADF, w)
         | Some i \<Rightarrow>
             (case oc of
                Fail e \<Rightarrow> (Inl e, w)
              | FailAfter e \<Rightarrow> (Inl e, w)
              | _ \<Rightarrow>
                  if lock_owner w i = None \<or> lock_owner w i = Some fd
                  then (Inr (), w\<lparr>lock_owner := (lock_owner w)(i \<mapsto> fd)\<rparr>)
                  else (Inl EWOULDBLOCK, w)))"

definition sys_getrandom :: "os \<Rightarrow> (error + bytes) \<times> os" where
  "sys_getrandom w =
     (let (oc, w) = pop w
      in case oc of
           Fail e \<Rightarrow> (Inl e, w)
         | FailAfter e \<Rightarrow> (Inl e, w)
         | Short n \<Rightarrow> (Inr (take (min n 16) (entropy w)), w)
         | Done \<Rightarrow> (Inr (take 16 (entropy w)), w))"

text \<open>The calls of provisioning on a directory, named by its path.\<close>

definition sys_opendir :: "string \<Rightarrow> os \<Rightarrow> (error + string) \<times> os" where
  "sys_opendir parent w =
     (let (oc, w) = pop w
      in case oc of
           Fail e \<Rightarrow> (Inl e, w)
         | FailAfter e \<Rightarrow> (Inl e, w)
         | _ \<Rightarrow> if directories w parent then (Inr parent, w) else (Inl ENOENT, w))"

text \<open>\<open>fstatat\<close> with \<open>AT_SYMLINK_NOFOLLOW\<close>: whether the entry is a regular file, and its inode.\<close>

definition sys_fstatat :: "string \<Rightarrow> string \<Rightarrow> os \<Rightarrow> (error + bool \<times> nat) \<times> os" where
  "sys_fstatat dir name w =
     (let (oc, w) = pop w
      in case oc of
           Fail e \<Rightarrow> (Inl e, w)
         | FailAfter e \<Rightarrow> (Inl e, w)
         | _ \<Rightarrow> (case entries w (dir, name) of
                  None \<Rightarrow> (Inl ENOENT, w)
                | Some (Entry i) \<Rightarrow> (Inr (i_regular (inodes w i), i), w)
                | Some (Symlink i) \<Rightarrow> (Inr (False, i), w)))"

definition sys_fstatfs :: "int \<Rightarrow> os \<Rightarrow> (error + nat) \<times> os" where
  "sys_fstatfs fd w =
     (let (oc, w) = pop w
      in case oc of
           Fail e \<Rightarrow> (Inl e, w)
         | FailAfter e \<Rightarrow> (Inl e, w)
         | _ \<Rightarrow> (case fds w fd of None \<Rightarrow> (Inl EBADF, w) | Some i \<Rightarrow> (Inr (i_fs (inodes w i)), w)))"

definition sys_fsync_dir :: "string \<Rightarrow> os \<Rightarrow> (error + unit) \<times> os" where
  "sys_fsync_dir dir w =
     (let (oc, w) = pop w;
          flushed = w\<lparr>synced_entries := (\<lambda>key. if fst key = dir then entries w key else synced_entries w key)\<rparr>
      in case oc of Fail e \<Rightarrow> (Inl e, w) | FailAfter e \<Rightarrow> (Inl e, flushed) | _ \<Rightarrow> (Inr (), flushed))"

definition sys_closedir :: "string \<Rightarrow> os \<Rightarrow> (error + unit) \<times> os" where
  "sys_closedir dir w =
     (let (oc, w) = pop w
      in case oc of Fail e \<Rightarrow> (Inl e, w) | FailAfter e \<Rightarrow> (Inl e, w) | _ \<Rightarrow> (Inr (), w))"

section \<open>Interrupted calls\<close>

text \<open>
  \<open>do { result = call(); } while (result < 0 && errno == EINTR);\<close>  A call is interrupted only by an
  outcome of the script, which the call has then consumed; \<open>retry_unfold\<close> below shows that the second
  test, which bounds the loop, never decides anything for the calls of this layer.
\<close>

definition interrupted :: "error + 'a \<Rightarrow> bool" where
  "interrupted r \<longleftrightarrow> (case r of Inl e \<Rightarrow> e = EINTR | Inr _ \<Rightarrow> False)"

function retry :: "(os \<Rightarrow> (error + 'a) \<times> os) \<Rightarrow> os \<Rightarrow> (error + 'a) \<times> os" where
  "retry call w =
     (case call w of
        (r, w') \<Rightarrow>
          if interrupted r \<and> length (script w') < length (script w) then retry call w' else (r, w'))"
  by pat_completeness auto
termination
  by (relation "measure (\<lambda>(call, w). length (script w))") auto

declare retry.simps [simp del]

section \<open>file\_io.c\<close>

record timelite_file =
  fd :: int

definition TIMELITE_FILE_INIT :: timelite_file where
  "TIMELITE_FILE_INIT = \<lparr>fd = -1\<rparr>"

definition check_file :: "timelite_file option \<Rightarrow> error option" where
  "check_file file =
     (case file of
        None \<Rightarrow> Some EINVAL
      | Some f \<Rightarrow> if fd f < 0 then Some EBADF else None)"

definition open_file ::
  "timelite_file option \<Rightarrow> string option \<Rightarrow> bool \<Rightarrow> os \<Rightarrow> (error + timelite_file) \<times> os" where
  "open_file file path create w =
     (case (file, path) of
        (Some f, Some p) \<Rightarrow>
          if p = [] then (Inl EINVAL, w)
          else if fd f \<noteq> -1 then (Inl EINVAL, w)
          else (case retry (sys_open p create) w of
                  (Inl e, w) \<Rightarrow> (Inl e, w)
                | (Inr d, w) \<Rightarrow>
                    (case retry (sys_fstat d) w of
                       (Inl e, w) \<Rightarrow> (Inl e, snd (sys_close d w))
                     | (Inr (i, info), w) \<Rightarrow>
                         if \<not> i_regular info then (Inl EINVAL, snd (sys_close d w))
                         else (Inr \<lparr>fd = d\<rparr>, w)))
      | _ \<Rightarrow> (Inl EINVAL, w))"

definition timelite_file_open ::
  "timelite_file option \<Rightarrow> string option \<Rightarrow> os \<Rightarrow> (error + timelite_file) \<times> os" where
  "timelite_file_open file path w = open_file file path False w"

definition timelite_file_create ::
  "timelite_file option \<Rightarrow> string option \<Rightarrow> os \<Rightarrow> (error + timelite_file) \<times> os" where
  "timelite_file_create file path w = open_file file path True w"

definition timelite_file_lock :: "timelite_file option \<Rightarrow> os \<Rightarrow> error option \<times> os" where
  "timelite_file_lock file w =
     (case check_file file of
        Some e \<Rightarrow> (Some e, w)
      | None \<Rightarrow>
          (case sys_flock (fd (the file)) w of
             (Inl e, w) \<Rightarrow> (Some (if e = EWOULDBLOCK then EBUSY else e), w)
           | (Inr _, w) \<Rightarrow> (None, w)))"

definition check_transfer ::
  "timelite_file option \<Rightarrow> u64 \<Rightarrow> 'b option \<Rightarrow> nat \<Rightarrow> unit option \<Rightarrow> error option" where
  "check_transfer file offset buffer len transferred =
     (if transferred = None then Some EINVAL
      else case check_file file of
             Some e \<Rightarrow> Some e
           | None \<Rightarrow>
               if (case buffer of None \<Rightarrow> len \<noteq> 0 | Some _ \<Rightarrow> False) then Some EINVAL
               else if offset > INT64_MAX \<or> len > unat (INT64_MAX - offset) then Some EOVERFLOW
               else None)"

abbreviation SSIZE_MAX :: nat where "SSIZE_MAX \<equiv> 0x7FFFFFFFFFFFFFFF"

lemma pop_script: "length (script (snd (pop w))) \<le> length (script w)"
  by (simp add: pop_def split: list.splits)

lemma pop_not_Done: "fst (pop w) \<noteq> Done \<Longrightarrow> length (script (snd (pop w))) < length (script w)"
  by (simp add: pop_def split: list.splits)

lemmas sys_defs = sys_open_def sys_fstat_def sys_pread_def sys_pwrite_def sys_ftruncate_def
  sys_fdatasync_def sys_close_def sys_flock_def sys_getrandom_def sys_opendir_def sys_fstatat_def
  sys_fstatfs_def sys_fsync_dir_def sys_closedir_def

lemma sys_pread_progress:
  "sys_pread d n p w = (r, w') \<Longrightarrow>
     length (script w') \<le> length (script w) \<and>
     (r = Inl EINTR \<longrightarrow> length (script w') < length (script w))"
  using pop_script [of w] pop_not_Done [of w]
  by (auto simp: sys_pread_def split: prod.splits option.splits outcome.splits)

lemma sys_pwrite_progress:
  "sys_pwrite d bs p w = (r, w') \<Longrightarrow>
     length (script w') \<le> length (script w) \<and>
     (r = Inl EINTR \<longrightarrow> length (script w') < length (script w))"
  using pop_script [of w] pop_not_Done [of w]
  by (auto simp: sys_pwrite_def modify_inode_def Let_def split: prod.splits option.splits outcome.splits)

text \<open>
  The transfer loops.  \<open>acc\<close> holds the bytes transferred so far: \<open>*transferred\<close> is its length, and
  in the read loop it is the prefix of the caller's buffer that has been filled.
\<close>

function read_loop :: "int \<Rightarrow> u64 \<Rightarrow> nat \<Rightarrow> bytes \<Rightarrow> os \<Rightarrow> (error option \<times> bytes) \<times> os" where
  "read_loop d offset len acc w =
     (if length acc < len then
        (let count = min (len - length acc) SSIZE_MAX
         in case sys_pread d count (unat (offset + of_nat (length acc))) w of
              (Inl e, w') \<Rightarrow>
                if e = EINTR then read_loop d offset len acc w' else ((Some e, acc), w')
            | (Inr bs, w') \<Rightarrow>
                if bs = [] then ((None, acc), w') else read_loop d offset len (acc @ bs) w')
      else ((None, acc), w))"
  by pat_completeness auto
termination
  by (relation "measures [\<lambda>(d, offset, len, acc, w). length (script w),
                          \<lambda>(d, offset, len, acc, w). len - length acc]")
    (auto dest!: sym [THEN sys_pread_progress] simp: le_less neq_Nil_conv)

declare read_loop.simps [simp del]

function write_loop :: "int \<Rightarrow> u64 \<Rightarrow> bytes \<Rightarrow> nat \<Rightarrow> os \<Rightarrow> (error option \<times> nat) \<times> os" where
  "write_loop d offset bs sofar w =
     (if sofar < length bs then
        (let count = min (length bs - sofar) SSIZE_MAX
         in case sys_pwrite d (block sofar count bs) (unat (offset + of_nat sofar)) w of
              (Inl e, w') \<Rightarrow>
                if e = EINTR then write_loop d offset bs sofar w' else ((Some e, sofar), w')
            | (Inr n, w') \<Rightarrow>
                if n = 0 then ((Some EIO, sofar), w') else write_loop d offset bs (sofar + n) w')
      else ((None, sofar), w))"
  by pat_completeness auto
termination
  by (relation "measures [\<lambda>(d, offset, bs, sofar, w). length (script w),
                          \<lambda>(d, offset, bs, sofar, w). length bs - sofar]")
    (auto dest!: sym [THEN sys_pwrite_progress] simp: le_less)

declare write_loop.simps [simp del]

definition timelite_file_read ::
  "timelite_file option \<Rightarrow> u64 \<Rightarrow> unit option \<Rightarrow> nat \<Rightarrow> unit option \<Rightarrow> os
     \<Rightarrow> (error option \<times> bytes) \<times> os" where
  "timelite_file_read file offset buffer len transferred w =
     (case check_transfer file offset buffer len transferred of
        Some e \<Rightarrow> ((Some e, []), w)
      | None \<Rightarrow> read_loop (fd (the file)) offset len [] w)"

definition timelite_file_write ::
  "timelite_file option \<Rightarrow> u64 \<Rightarrow> bytes option \<Rightarrow> nat \<Rightarrow> unit option \<Rightarrow> os
     \<Rightarrow> (error option \<times> nat) \<times> os" where
  "timelite_file_write file offset buffer len transferred w =
     (case check_transfer file offset buffer len transferred of
        Some e \<Rightarrow> ((Some e, 0), w)
      | None \<Rightarrow>
          write_loop (fd (the file)) offset (case buffer of None \<Rightarrow> [] | Some b \<Rightarrow> take len b) 0 w)"

definition timelite_file_size :: "timelite_file option \<Rightarrow> unit option \<Rightarrow> os \<Rightarrow> (error + u64) \<times> os" where
  "timelite_file_size file size_out w =
     (case check_file file of
        Some e \<Rightarrow> (Inl e, w)
      | None \<Rightarrow>
          if size_out = None then (Inl EINVAL, w)
          else (case retry (sys_fstat (fd (the file))) w of
                  (Inl e, w) \<Rightarrow> (Inl e, w)
                | (Inr (i, info), w) \<Rightarrow>
                    (let st_size = int (length (i_data info))
                     in if st_size < 0 then (Inl EOVERFLOW, w) else (Inr (of_int st_size), w))))"

definition timelite_file_truncate :: "timelite_file option \<Rightarrow> u64 \<Rightarrow> os \<Rightarrow> error option \<times> os" where
  "timelite_file_truncate file new_size w =
     (case check_file file of
        Some e \<Rightarrow> (Some e, w)
      | None \<Rightarrow>
          if new_size > INT64_MAX then (Some EOVERFLOW, w)
          else (case retry (sys_ftruncate (fd (the file)) (unat new_size)) w of
                  (Inl e, w) \<Rightarrow> (Some e, w)
                | (Inr _, w) \<Rightarrow> (None, w)))"

definition timelite_file_sync :: "timelite_file option \<Rightarrow> os \<Rightarrow> error option \<times> os" where
  "timelite_file_sync file w =
     (case check_file file of
        Some e \<Rightarrow> (Some e, w)
      | None \<Rightarrow>
          (case retry (sys_fdatasync (fd (the file))) w of
             (Inl e, w) \<Rightarrow> (Some e, w)
           | (Inr _, w) \<Rightarrow> (None, w)))"

text \<open>Closing consumes the handle whatever the result; the new handle is the second component.\<close>

definition timelite_file_close :: "timelite_file option \<Rightarrow> os \<Rightarrow> (error option \<times> timelite_file option) \<times> os" where
  "timelite_file_close file w =
     (case check_file file of
        Some e \<Rightarrow> ((Some e, file), w)
      | None \<Rightarrow>
          (case sys_close (fd (the file)) w of
             (Inl e, w) \<Rightarrow> ((Some e, Some \<lparr>fd = -1\<rparr>), w)
           | (Inr _, w) \<Rightarrow> ((None, Some \<lparr>fd = -1\<rparr>), w)))"

definition timelite_file_identity :: "os \<Rightarrow> (error + bytes) \<times> os" where
  "timelite_file_identity w =
     (case retry sys_getrandom w of
        (Inl e, w) \<Rightarrow> (Inl e, w)
      | (Inr identity, w) \<Rightarrow> if length identity = 16 then (Inr identity, w) else (Inl EIO, w))"

text \<open>\<open>timelite_file_provision\<close>: the identity and filesystem checks, and the check repeated at the end.\<close>

definition provision_identify ::
  "int \<Rightarrow> string \<Rightarrow> string \<Rightarrow> os \<Rightarrow> (error option \<times> nat) \<times> os" where
  "provision_identify d dir name w =
     (case sys_fstat d w of
        (Inl e, w) \<Rightarrow> ((Some e, 0), w)
      | (Inr (opened, info), w) \<Rightarrow>
          (case sys_fstatat dir name w of
             (Inl e, w) \<Rightarrow> ((Some e, opened), w)
           | (Inr (regular, named), w) \<Rightarrow>
               (case sys_fstatfs d w of
                  (Inl e, w) \<Rightarrow> ((Some e, opened), w)
                | (Inr f_type, w) \<Rightarrow>
                    if \<not> regular \<or> opened \<noteq> named then ((Some EINVAL, opened), w)
                    else if f_type \<noteq> 0xef53 \<and> f_type \<noteq> 0x58465342 \<and> f_type \<noteq> 0x9123683e
                    then ((Some ENOTSUP, opened), w)
                    else ((None, opened), w))))"

definition provision_recheck :: "nat \<Rightarrow> string \<Rightarrow> string \<Rightarrow> os \<Rightarrow> error option \<times> os" where
  "provision_recheck opened dir name w =
     (case sys_fstatat dir name w of
        (Inl e, w) \<Rightarrow> (Some e, w)
      | (Inr (regular, named), w) \<Rightarrow>
          (if \<not> regular \<or> opened \<noteq> named then Some EINVAL else None, w))"

text \<open>\<open>if (error == 0) { error = step(); }\<close>\<close>

definition unless_error :: "error option \<Rightarrow> (os \<Rightarrow> error option \<times> os) \<Rightarrow> os \<Rightarrow> error option \<times> os" where
  "unless_error error step w = (case error of Some e \<Rightarrow> (Some e, w) | None \<Rightarrow> step w)"

definition errno_of :: "(error + 'a) \<times> os \<Rightarrow> error option \<times> os" where
  "errno_of r = (case r of (Inl e, w) \<Rightarrow> (Some e, w) | (Inr _, w) \<Rightarrow> (None, w))"

definition timelite_file_provision ::
  "timelite_file option \<Rightarrow> string option \<Rightarrow> os \<Rightarrow> error option \<times> os" where
  "timelite_file_provision file path w =
     (case (check_file file, path) of
        (Some e, _) \<Rightarrow> (Some e, w)
      | (None, None) \<Rightarrow> (Some EINVAL, w)
      | (None, Some p) \<Rightarrow>
          (let d = fd (the file); parent = fst (split_path p); name = snd (split_path p)
           in if length parent \<ge> 4096 \<or> name = [] then (Some ENAMETOOLONG, w)
              else (case sys_opendir parent w of
                      (Inl e, w) \<Rightarrow> (Some e, w)
                    | (Inr dir, w) \<Rightarrow>
                        (let ((error, opened), w) = provision_identify d dir name w;
                             (error, w) = unless_error error (timelite_file_sync file) w;
                             (error, w) = unless_error error (\<lambda>w. errno_of (retry (sys_fsync_dir dir) w)) w;
                             (error, w) = unless_error error (provision_recheck opened dir name) w;
                             (closed, w) = errno_of (sys_closedir dir w)
                         in (case error of None \<Rightarrow> closed | Some e \<Rightarrow> Some e, w)))))"

section \<open>What the calls change\<close>

text \<open>\<open>same_files w w'\<close>: only the script may differ.\<close>

definition same_files :: "os \<Rightarrow> os \<Rightarrow> bool" where
  "same_files w w' \<longleftrightarrow> w' = w\<lparr>script := script w'\<rparr>"

lemma same_files_refl [simp]: "same_files w w"
  by (simp add: same_files_def)

lemma same_files_trans [trans]: "same_files a b \<Longrightarrow> same_files b c \<Longrightarrow> same_files a c"
  unfolding same_files_def by (metis os.surjective os.update_convs(11))

lemma same_files_script: "same_files w (w\<lparr>script := s\<rparr>)"
  by (simp add: same_files_def)

lemma same_files_fields:
  "same_files w w' \<Longrightarrow> fds w' = fds w \<and> inodes w' = inodes w \<and> entries w' = entries w \<and>
     directories w' = directories w \<and> lock_owner w' = lock_owner w \<and> entropy w' = entropy w \<and>
     synced_entries w' = synced_entries w \<and> fresh_fd w' = fresh_fd w \<and>
     fresh_inode w' = fresh_inode w \<and> default_fs w' = default_fs w"
  unfolding same_files_def by (metis os.select_convs os.update_convs(11) os.surjective)

lemma same_files_pop: "pop w = (oc, w') \<Longrightarrow> same_files w w'"
  by (auto simp: pop_def same_files_def split: list.splits)

lemma pop_quiet [simp]: "script w = [] \<Longrightarrow> pop w = (Done, w)"
  by (simp add: pop_def)

text \<open>\<open>changed i f w w'\<close>: inode \<open>i\<close> was changed by \<open>f\<close>, everything else but the script is the same.\<close>

definition changed :: "nat \<Rightarrow> (inode \<Rightarrow> inode) \<Rightarrow> os \<Rightarrow> os \<Rightarrow> bool" where
  "changed i f w w' \<longleftrightarrow> same_files (modify_inode i f w) w'"

lemma changed_id: "same_files w w' \<Longrightarrow> f (inodes w i) = inodes w i \<Longrightarrow> changed i f w w'"
  by (simp add: changed_def modify_inode_def)

lemma changed_fields:
  assumes "changed i f w w'"
  shows "fds w' = fds w" "inodes w' = (inodes w)(i := f (inodes w i))" "entries w' = entries w"
    "lock_owner w' = lock_owner w" "directories w' = directories w"
  using same_files_fields [OF assms [unfolded changed_def]] by (simp_all add: modify_inode_def)

lemma changed_trans:
  assumes "changed i f w w'" "changed i g w' w''"
  shows "changed i (g \<circ> f) w w''"
proof -
  have "w' = (modify_inode i f w)\<lparr>script := script w'\<rparr>"
    using assms(1) by (simp add: changed_def same_files_def)
  then have "same_files (modify_inode i g ((modify_inode i f w)\<lparr>script := script w'\<rparr>)) w''"
    using assms(2) by (simp add: changed_def)
  then show ?thesis
    by (simp add: changed_def same_files_def modify_inode_def)
qed

lemma changed_same: "changed i f w w' \<Longrightarrow> same_files w' w'' \<Longrightarrow> changed i f w w''"
  unfolding changed_def by (rule same_files_trans)

lemma same_changed: "same_files w w' \<Longrightarrow> changed i f w' w'' \<Longrightarrow> changed i f w w''"
  unfolding changed_def same_files_def modify_inode_def
  by (metis os.select_convs(4) os.surjective os.update_convs(4) os.update_convs(11))

section \<open>Retried calls\<close>

definition consumes :: "(os \<Rightarrow> (error + 'a) \<times> os) \<Rightarrow> bool" where
  "consumes call \<longleftrightarrow>
     (\<forall>w r w'. call w = (r, w') \<longrightarrow> interrupted r \<longrightarrow> length (script w') < length (script w))"

lemma consumesI:
  "(\<And>w r w'. call w = (r, w') \<Longrightarrow> interrupted r \<Longrightarrow> length (script w') < length (script w)) \<Longrightarrow> consumes call"
  by (auto simp: consumes_def)

lemma retry_unfold:
  "consumes call \<Longrightarrow>
     retry call w = (case call w of (r, w') \<Rightarrow> if interrupted r then retry call w' else (r, w'))"
  by (subst retry.simps) (auto simp: consumes_def split: prod.splits)

lemma pop_consumes:
  "pop w = (oc, w') \<Longrightarrow> oc \<noteq> Done \<Longrightarrow> length (script w') < length (script w)"
  using pop_not_Done [of w] by simp

lemma sys_consumes:
  "consumes (sys_open p c)" "consumes (sys_fstat d)" "consumes (sys_ftruncate d n)"
  "consumes (sys_fdatasync d)" "consumes sys_getrandom" "consumes (sys_fsync_dir p)"
  by (auto intro!: consumesI dest!: pop_consumes
      simp: sys_defs interrupted_def modify_inode_def Let_def
      split: prod.splits option.splits outcome.splits sum.splits if_splits)

text \<open>The result of a retried call is the result of a last, uninterrupted one.\<close>

lemma retry_last:
  assumes "retry call w = (r, w')"
    and "Q w" and step: "\<And>u v. Q u \<Longrightarrow> call u = (Inl EINTR, v) \<Longrightarrow> Q v"
  shows "\<exists>u. Q u \<and> call u = (r, w')"
  using assms(1,2)
proof (induction "length (script w)" arbitrary: w rule: less_induct)
  case less
  obtain s v where c: "call w = (s, v)" by force
  show ?case
  proof (cases "interrupted s \<and> length (script v) < length (script w)")
    case True
    then have "s = Inl EINTR" by (auto simp: interrupted_def split: sum.splits)
    then have "Q v" using c less.prems(2) step by blast
    moreover have "retry call v = (r, w')"
      using less.prems(1) c True by (subst (asm) retry.simps) simp
    ultimately show ?thesis using less.hyps True by blast
  next
    case False
    then show ?thesis using less.prems c by (subst (asm) retry.simps) auto
  qed
qed

lemma retry_uninterrupted: "call w = (r, w') \<Longrightarrow> \<not> interrupted r \<Longrightarrow> retry call w = (r, w')"
  by (subst retry.simps) simp

section \<open>Transfers\<close>

text \<open>An open handle: its descriptor names an inode.\<close>

definition opened :: "os \<Rightarrow> timelite_file \<Rightarrow> nat \<Rightarrow> bool" where
  "opened w f i \<longleftrightarrow> fd f \<ge> 0 \<and> fds w (fd f) = Some i"

definition fdata :: "os \<Rightarrow> timelite_file \<Rightarrow> bytes" where
  "fdata w f = (case fds w (fd f) of None \<Rightarrow> [] | Some i \<Rightarrow> i_data (inodes w i))"

definition fsynced :: "os \<Rightarrow> timelite_file \<Rightarrow> bytes" where
  "fsynced w f = (case fds w (fd f) of None \<Rightarrow> [] | Some i \<Rightarrow> i_synced (inodes w i))"

lemma check_transfer_ok:
  assumes "fd f \<ge> 0"
  shows "check_transfer (Some f) offset (Some b) len (Some ()) =
     (if in_off_t offset len then None else Some EOVERFLOW)"
proof (cases "offset > INT64_MAX")
  case True
  then show ?thesis
    using assms by (simp add: check_transfer_def check_file_def in_off_t_def word_less_nat_alt)
next
  case False
  then have "unat (INT64_MAX - offset) = 0x7FFFFFFFFFFFFFFF - unat offset"
    by (simp add: u64_arith not_less)
  then show ?thesis
    using assms False
    by (auto simp: check_transfer_def check_file_def in_off_t_def word_less_nat_alt)
qed

lemma sys_pread_effect:
  assumes "sys_pread d count pos w = (r, w')" "fds w d = Some i"
  shows "same_files w w' \<and>
    (\<forall>bs. r = Inr bs \<longrightarrow> (\<exists>n. bs = block pos n (i_data (inodes w i)) \<and> n \<le> count \<and> (n = 0 \<longrightarrow> count = 0)))"
proof -
  obtain oc u where pop: "pop w = (oc, u)" by force
  note same_files_fields [OF same_files_pop [OF pop]]
  with assms pop show ?thesis
    by (auto simp: sys_pread_def same_files_pop split: outcome.splits
        intro: exI [of _ count] exI [of _ "min count (max 1 n)" for n])
qed

lemma block_eq_Nil: "block pos n d = [] \<longleftrightarrow> n = 0 \<or> length d \<le> pos"
  by (auto simp: block_def)

lemma block_extend: "length (block off m d) = m \<Longrightarrow> block off m d @ block (off + m) n d = block off (m + n) d"
  by (simp add: block_split)

lemma u64_offset: "unat off + n < 2 ^ 64 \<Longrightarrow> unat (off + of_nat n :: u64) = unat off + n"
  by (subst u64_add; simp add: u64_of_nat)

lemma read_loop_effect:
  assumes "read_loop d off len acc w = ((err, bs), w')" "fds w d = Some i"
    and "in_off_t off len" and "length acc \<le> len" and "acc = block (unat off) (length acc) (i_data (inodes w i))"
  shows "same_files w w' \<and> (err = None \<longrightarrow> bs = block (unat off) len (i_data (inodes w i)))"
  using assms
proof (induction d off len acc w rule: read_loop.induct)
  case (1 d off len acc w)
  let ?D = "i_data (inodes w i)"
  let ?c = "min (len - length acc) SSIZE_MAX" and ?p = "unat (off + of_nat (length acc))"
  show ?case
  proof (cases "length acc < len")
    case False
    then show ?thesis
      using "1.prems" by (subst (asm) read_loop.simps) simp
  next
    case True
    obtain r u where call: "sys_pread d ?c ?p w = (r, u)" by force
    have pos: "?p = unat off + length acc"
      using "1.prems"(3) True by (intro u64_offset) (simp add: in_off_t_def)
    have same: "same_files w u" and
      got: "\<And>bs. r = Inr bs \<Longrightarrow> \<exists>n. bs = block ?p n ?D \<and> n \<le> ?c \<and> (n = 0 \<longrightarrow> ?c = 0)"
      using sys_pread_effect [OF call "1.prems"(2)] by auto
    have u: "fds u d = Some i" "i_data (inodes u i) = ?D"
      using same_files_fields [OF same] "1.prems"(2) by simp_all
    show ?thesis
    proof (cases r)
      case (Inl e)
      show ?thesis
      proof (cases "e = EINTR")
        case True
        have "read_loop d off len acc u = ((err, bs), w')"
          using "1.prems"(1) \<open>length acc < len\<close> call Inl True
          by (subst (asm) read_loop.simps) simp
        from "1.IH"(1) [OF \<open>length acc < len\<close> refl call [symmetric] Inl True this] "1.prems"(3-5) u
        show ?thesis using same_files_trans [OF same] by simp
      next
        case False
        then show ?thesis
          using "1.prems"(1) True call Inl same by (subst (asm) read_loop.simps) auto
      qed
    next
      case (Inr got_bytes)
      from got [OF Inr] True obtain n where n: "got_bytes = block ?p n ?D" "n \<le> ?c" "n \<noteq> 0" by auto
      show ?thesis
      proof (cases "got_bytes = []")
        case eof: True
        then have "length ?D \<le> unat off + length acc"
          using n pos by (simp add: block_eq_Nil)
        then have "block (unat off) len ?D = acc"
          using "1.prems"(5) True by (simp add: block_def)
        then show ?thesis
          using "1.prems"(1) True call Inr eof same by (subst (asm) read_loop.simps) auto
      next
        case False
        have r: "read_loop d off len (acc @ got_bytes) u = ((err, bs), w')"
          using "1.prems"(1) True call Inr False by (subst (asm) read_loop.simps) simp
        have "length got_bytes \<le> n" using n(1) by (simp add: length_block)
        moreover have "length acc + n \<le> len" using n(2) True by linarith
        ultimately have "length (acc @ got_bytes) \<le> len"
          unfolding length_append by linarith
        moreover have "acc @ got_bytes = block (unat off) (length (acc @ got_bytes)) (i_data (inodes u i))"
        proof -
          have "got_bytes = block (unat off + length acc) (length got_bytes) ?D"
            using n(1) pos by (simp add: block_def min_def)
          then show ?thesis
            unfolding u(2) length_append using "1.prems"(5) by (subst block_split) metis
        qed
        ultimately have "same_files u w' \<and> (err = None \<longrightarrow> bs = block (unat off) len (i_data (inodes u i)))"
          by (intro "1.IH"(2) [OF True refl call [symmetric] Inr False r u(1) "1.prems"(3)])
        then show ?thesis
          using same_files_trans [OF same] u(2) by simp
      qed
    qed
  qed
qed

lemma take_min_length: "take (min n (length bs)) bs = take n bs"
  by (simp add: min_def)

lemma sys_pwrite_effect:
  assumes "sys_pwrite d bs pos w = (r, w')" "fds w d = Some i"
  shows "\<exists>n \<le> length bs. changed i (\<lambda>x. x\<lparr>i_data := overwrite pos (take n bs) (i_data x)\<rparr>) w w' \<and>
    (\<forall>k. r = Inr k \<longrightarrow> k = n)"
proof -
  obtain oc u where pop: "pop w = (oc, u)" by force
  have same: "same_files w u" using pop by (rule same_files_pop)
  have wrote: "changed i (\<lambda>x. x\<lparr>i_data := overwrite pos (take n bs) (i_data x)\<rparr>) w
      (modify_inode i (\<lambda>x. x\<lparr>i_data := overwrite pos (take n bs) (i_data x)\<rparr>) u)" for n
    by (rule same_changed [OF same]) (simp add: changed_def)
  have none: "changed i (\<lambda>x. x\<lparr>i_data := overwrite pos (take 0 bs) (i_data x)\<rparr>) w u"
    by (rule changed_id [OF same]) simp
  have "fds u d = Some i" using same_files_fields [OF same] assms(2) by simp
  then show ?thesis
    using assms(1) pop wrote [of "length bs"] wrote [of "min n (length bs)" for n] none
    by (cases oc)
      (fastforce simp: sys_pwrite_def Let_def take_min_length intro: exI [of _ "0::nat"] exI [of _ "length bs"])+
qed

lemma write_loop_effect:
  assumes "write_loop d off bs sofar w = ((err, count), w')" "fds w d = Some i"
    and "in_off_t off (length bs)" and "sofar \<le> length bs"
  shows "\<exists>n. sofar \<le> n \<and> n \<le> length bs \<and>
    changed i (\<lambda>x. x\<lparr>i_data := overwrite (unat off + sofar) (drop sofar (take n bs)) (i_data x)\<rparr>) w w' \<and>
    (err = None \<longrightarrow> n = length bs \<and> count = length bs)"
  using assms
proof (induction d off bs sofar w rule: write_loop.induct)
  case (1 d off bs sofar w)
  let ?c = "min (length bs - sofar) SSIZE_MAX" and ?p = "unat (off + of_nat sofar)"
  show ?case
  proof (cases "sofar < length bs")
    case False
    then have "sofar = length bs" using "1.prems"(4) by simp
    then show ?thesis
      using "1.prems"(1) False by (subst (asm) write_loop.simps) (auto intro!: changed_id)
  next
    case True
    obtain r u where call: "sys_pwrite d (block sofar ?c bs) ?p w = (r, u)" by force
    have pos: "?p = unat off + sofar"
      using "1.prems"(3,4) by (intro u64_offset) (simp add: in_off_t_def)
    from sys_pwrite_effect [OF call "1.prems"(2)] obtain n
      where n: "n \<le> length (block sofar ?c bs)" "\<And>k. r = Inr k \<Longrightarrow> k = n"
        and ch: "changed i (\<lambda>x. x\<lparr>i_data := overwrite ?p (take n (block sofar ?c bs)) (i_data x)\<rparr>) w u"
      by auto
    have nb: "sofar + n \<le> length bs" "n \<le> ?c" using n(1) True by (auto simp: length_block)
    have chunk: "take n (block sofar ?c bs) = drop sofar (take (sofar + n) bs)"
      using nb by (simp add: block_def drop_take min_def)
    have ch': "changed i (\<lambda>x. x\<lparr>i_data := overwrite (unat off + sofar) (drop sofar (take (sofar + n) bs)) (i_data x)\<rparr>) w u"
      using ch by (simp only: pos chunk)
    have u: "fds u d = Some i" using changed_fields(1) [OF ch] "1.prems"(2) by simp
    show ?thesis
    proof (cases r)
      case (Inl e)
      show ?thesis
      proof (cases "e = EINTR")
        case True
        have "write_loop d off bs sofar u = ((err, count), w')"
          using "1.prems"(1) \<open>sofar < length bs\<close> call Inl True by (subst (asm) write_loop.simps) simp
        from "1.IH"(1) [OF \<open>sofar < length bs\<close> refl call [symmetric] Inl True this u "1.prems"(3,4)]
        obtain m where m: "sofar \<le> m" "m \<le> length bs" "err = None \<longrightarrow> m = length bs \<and> count = length bs"
          "changed i (\<lambda>x. x\<lparr>i_data := overwrite (unat off + sofar) (drop sofar (take m bs)) (i_data x)\<rparr>) u w'"
          by blast
        have max_minus: "max m (sofar + n) - sofar = max (m - sofar) n" by linarith
        have "changed i (\<lambda>x. x\<lparr>i_data := overwrite (unat off + sofar)
            (drop sofar (take (max m (sofar + n)) bs)) (i_data x)\<rparr>) w w'"
          using changed_trans [OF ch' m(4)] overwrite_again [of "unat off + sofar" "m - sofar" "drop sofar bs" n]
          by (simp add: comp_def drop_take max_minus)
        then show ?thesis
          using m nb by (intro exI [of _ "max m (sofar + n)"]) auto
      next
        case False
        then have "err = Some e \<and> w' = u"
          using "1.prems"(1) \<open>sofar < length bs\<close> call Inl by (subst (asm) write_loop.simps) auto
        then show ?thesis using ch' nb by (intro exI [of _ "sofar + n"]) simp
      qed
    next
      case (Inr k)
      then have k: "k = n" using n(2) by simp
      show ?thesis
      proof (cases "n = 0")
        case True
        then have "err = Some EIO \<and> w' = u"
          using "1.prems"(1) \<open>sofar < length bs\<close> call Inr k by (subst (asm) write_loop.simps) auto
        then show ?thesis using ch' nb by (intro exI [of _ "sofar + n"]) simp
      next
        case False
        have "write_loop d off bs (sofar + k) u = ((err, count), w')"
          using "1.prems"(1) \<open>sofar < length bs\<close> call Inr k False by (subst (asm) write_loop.simps) simp
        with "1.IH"(2) [OF \<open>sofar < length bs\<close> refl call [symmetric] Inr] k False u nb "1.prems"(3)
        obtain m where m: "sofar + n \<le> m" "m \<le> length bs" "err = None \<longrightarrow> m = length bs \<and> count = length bs"
          "changed i (\<lambda>x. x\<lparr>i_data := overwrite (unat off + (sofar + n)) (drop (sofar + n) (take m bs)) (i_data x)\<rparr>) u w'"
          by auto
        have "drop sofar (take (sofar + n) bs) @ drop (sofar + n) (take m bs) = drop sofar (take m bs)"
          using m(1) by (rule drop_chunks)
        then have "changed i (\<lambda>x. x\<lparr>i_data := overwrite (unat off + sofar) (drop sofar (take m bs)) (i_data x)\<rparr>) w w'"
          using changed_trans [OF ch' m(4)]
            overwrite_adjacent [of "unat off + sofar" "drop sofar (take (sofar + n) bs)" "drop (sofar + n) (take m bs)"] nb
          by (simp add: comp_def add.assoc)
        then show ?thesis using m by (intro exI [of _ m]) auto
      qed
    qed
  qed
qed

section \<open>The operations of the file layer\<close>

lemma timelite_file_read_effect:
  assumes "timelite_file_read (Some f) off (Some ()) n (Some ()) w = ((err, bs), w')" "opened w f i"
  shows "same_files w w' \<and> (err = None \<longrightarrow> in_off_t off n \<and> bs = block (unat off) n (fdata w f))"
proof (cases "in_off_t off n")
  case True
  then have "read_loop (fd f) off n [] w = ((err, bs), w')"
    using assms by (simp add: timelite_file_read_def check_transfer_ok opened_def)
  from read_loop_effect [OF this] show ?thesis
    using assms(2) True by (simp add: opened_def fdata_def block_def)
next
  case False
  then show ?thesis
    using assms by (auto simp: timelite_file_read_def check_transfer_ok opened_def)
qed

abbreviation write_at :: "nat \<Rightarrow> bytes \<Rightarrow> inode \<Rightarrow> inode" where
  "write_at off bs x \<equiv> x\<lparr>i_data := overwrite off bs (i_data x)\<rparr>"

lemma timelite_file_write_effect:
  assumes "timelite_file_write (Some f) off (Some bs) (length bs) (Some ()) w = ((err, k), w')" "opened w f i"
  shows "\<exists>n \<le> length bs. changed i (write_at (unat off) (take n bs)) w w' \<and>
    (err = None \<longrightarrow> n = length bs \<and> k = length bs \<and> in_off_t off (length bs))"
proof (cases "in_off_t off (length bs)")
  case True
  then have "write_loop (fd f) off bs 0 w = ((err, k), w')"
    using assms by (simp add: timelite_file_write_def check_transfer_ok opened_def)
  from write_loop_effect [OF this] show ?thesis
    using assms(2) True by (auto simp: opened_def)
next
  case False
  then show ?thesis
    using assms
    by (auto simp: timelite_file_write_def check_transfer_ok opened_def intro!: exI [of _ 0] changed_id)
qed

text \<open>An interrupted truncation or flush may have happened before it is repeated: both are idempotent.\<close>

lemma retry_idempotent:
  assumes r: "retry call w = (r, w')" and i: "fds w d = Some i"
    and call: "\<And>u r v. call u = (r, v) \<Longrightarrow> fds u d = Some i \<Longrightarrow>
                 (same_files u v \<and> isl r) \<or> changed i f u v"
    and idem: "\<And>x. f (f x) = f x"
  shows "(same_files w w' \<and> isl r) \<or> changed i f w w'"
proof -
  have once: "changed i f w v" if "changed i f w u" "changed i f u v" for u v
    using changed_trans [OF that] idem by (simp add: comp_def)
  let ?Q = "\<lambda>u. same_files w u \<or> changed i f w u"
  have fd: "fds u d = Some i" if "?Q u" for u
    using that i same_files_fields changed_fields(1) by metis
  have "\<exists>u. ?Q u \<and> call u = (r, w')"
  proof (rule retry_last [OF r])
    fix u v assume "?Q u" "call u = (Inl EINTR, v)"
    then show "?Q v"
      using call [OF _ fd] once same_files_trans same_changed changed_same by metis
  qed simp
  then show ?thesis
    using call [OF _ fd] once same_files_trans same_changed changed_same by metis
qed

lemma sys_ftruncate_effect:
  assumes "sys_ftruncate d n w = (r, w')" "fds w d = Some i"
  shows "(same_files w w' \<and> isl r) \<or> changed i (\<lambda>x. x\<lparr>i_data := resize n (i_data x)\<rparr>) w w'"
proof -
  obtain oc u where pop: "pop w = (oc, u)" by force
  have same: "same_files w u" using pop by (rule same_files_pop)
  have "changed i f w (modify_inode i f u)" for f
    by (rule same_changed [OF same]) (simp add: changed_def)
  then show ?thesis
    using assms pop same same_files_fields [OF same]
    by (auto simp: sys_ftruncate_def Let_def split: outcome.splits)
qed

lemma sys_fdatasync_effect:
  assumes "sys_fdatasync d w = (r, w')" "fds w d = Some i"
  shows "(same_files w w' \<and> isl r) \<or> changed i (\<lambda>x. x\<lparr>i_synced := i_data x\<rparr>) w w'"
proof -
  obtain oc u where pop: "pop w = (oc, u)" by force
  have same: "same_files w u" using pop by (rule same_files_pop)
  have "changed i f w (modify_inode i f u)" for f
    by (rule same_changed [OF same]) (simp add: changed_def)
  then show ?thesis
    using assms pop same same_files_fields [OF same]
    by (auto simp: sys_fdatasync_def Let_def split: outcome.splits)
qed

lemma resize_resize [simp]: "resize n (resize n p) = resize n p"
  by (simp add: resize_def)

lemma timelite_file_truncate_effect:
  assumes "timelite_file_truncate (Some f) n w = (err, w')" "opened w f i"
  shows "(same_files w w' \<and> err \<noteq> None) \<or>
    changed i (\<lambda>x. x\<lparr>i_data := resize (unat n) (i_data x)\<rparr>) w w'"
proof (cases "n > INT64_MAX")
  case True
  then show ?thesis
    using assms by (auto simp: timelite_file_truncate_def check_file_def opened_def)
next
  case False
  obtain r u where c: "retry (sys_ftruncate (fd f) (unat n)) w = (r, u)" by force
  have "err = (case r of Inl e \<Rightarrow> Some e | Inr _ \<Rightarrow> None)" "w' = u"
    using assms c False
    by (auto simp: timelite_file_truncate_def check_file_def opened_def split: sum.splits)
  moreover have "(same_files w u \<and> isl r) \<or> changed i (\<lambda>x. x\<lparr>i_data := resize (unat n) (i_data x)\<rparr>) w u"
    using assms(2) by (intro retry_idempotent [OF c _ sys_ftruncate_effect]) (simp_all add: opened_def)
  ultimately show ?thesis by (auto split: sum.splits)
qed

lemma timelite_file_sync_effect:
  assumes "timelite_file_sync (Some f) w = (err, w')" "opened w f i"
  shows "(same_files w w' \<and> err \<noteq> None) \<or> changed i (\<lambda>x. x\<lparr>i_synced := i_data x\<rparr>) w w'"
proof -
  obtain r u where c: "retry (sys_fdatasync (fd f)) w = (r, u)" by force
  have "err = (case r of Inl e \<Rightarrow> Some e | Inr _ \<Rightarrow> None)" "w' = u"
    using assms c by (auto simp: timelite_file_sync_def check_file_def opened_def split: sum.splits)
  moreover have "(same_files w u \<and> isl r) \<or> changed i (\<lambda>x. x\<lparr>i_synced := i_data x\<rparr>) w u"
    using assms(2) by (intro retry_idempotent [OF c _ sys_fdatasync_effect]) (simp_all add: opened_def)
  ultimately show ?thesis by (auto split: sum.splits)
qed

lemma sys_fstat_effect:
  assumes "sys_fstat d w = (r, w')" "fds w d = Some i"
  shows "same_files w w' \<and> (\<forall>x. r = Inr x \<longrightarrow> x = (i, inodes w i))"
proof -
  obtain oc u where pop: "pop w = (oc, u)" by force
  have same: "same_files w u" using pop by (rule same_files_pop)
  show ?thesis
    using assms pop same same_files_fields [OF same]
    by (auto simp: sys_fstat_def split: outcome.splits)
qed

lemma retry_fstat_effect:
  assumes "retry (sys_fstat d) w = (r, w')" "fds w d = Some i"
  shows "same_files w w' \<and> (\<forall>x. r = Inr x \<longrightarrow> x = (i, inodes w i))"
proof -
  have fd: "fds u d = Some i \<and> inodes u = inodes w" if "same_files w u" for u
    using same_files_fields [OF that] assms(2) by simp
  have "\<exists>u. same_files w u \<and> sys_fstat d u = (r, w')"
  proof (rule retry_last [OF assms(1)])
    fix u v assume u: "same_files w u" and "sys_fstat d u = (Inl EINTR, v)"
    then have "same_files u v" using sys_fstat_effect fd by blast
    with u show "same_files w v" by (rule same_files_trans)
  qed simp
  then obtain u where u: "same_files w u" and c: "sys_fstat d u = (r, w')" by blast
  from sys_fstat_effect [OF c, of i] fd [OF u] u show ?thesis
    using same_files_trans by auto
qed

lemma timelite_file_size_effect:
  assumes "timelite_file_size (Some f) (Some ()) w = (r, w')" "opened w f i"
  shows "same_files w w' \<and> (\<forall>n. r = Inr n \<longrightarrow> n = of_nat (length (fdata w f)))"
proof -
  obtain s u where c: "retry (sys_fstat (fd f)) w = (s, u)" by force
  from retry_fstat_effect [OF c, of i] assms(2)
  have "same_files w u" "\<And>x. s = Inr x \<Longrightarrow> x = (i, inodes w i)" by (simp_all add: opened_def)
  then show ?thesis
    using assms c
    by (auto simp: timelite_file_size_def check_file_def opened_def fdata_def split: sum.splits)
qed

section \<open>The POSIX backend meets the contract\<close>

definition posix_alias :: "os \<Rightarrow> timelite_file \<Rightarrow> timelite_file \<Rightarrow> bool" where
  "posix_alias w f g \<longleftrightarrow> fds w (fd f) = fds w (fd g)"

definition is_opened :: "os \<Rightarrow> timelite_file \<Rightarrow> bool" where
  "is_opened w f \<longleftrightarrow> fd f \<ge> 0 \<and> fds w (fd f) \<noteq> None"

lemma is_opened_iff: "is_opened w f \<longleftrightarrow> (\<exists>i. opened w f i)"
  by (auto simp: is_opened_def opened_def)

definition posix_read :: "timelite_file \<Rightarrow> u64 \<Rightarrow> nat \<Rightarrow> os \<Rightarrow> (error option \<times> bytes) \<times> os" where
  "posix_read f off n w = timelite_file_read (Some f) off (Some ()) n (Some ()) w"

definition posix_write :: "timelite_file \<Rightarrow> u64 \<Rightarrow> bytes \<Rightarrow> os \<Rightarrow> (error option \<times> nat) \<times> os" where
  "posix_write f off bs w = timelite_file_write (Some f) off (Some bs) (length bs) (Some ()) w"

lemma same_files_views:
  "same_files w w' \<Longrightarrow> fdata w' = fdata w \<and> fsynced w' = fsynced w \<and> is_opened w' = is_opened w \<and>
     posix_alias w' = posix_alias w \<and> opened w' = opened w"
  by (drule same_files_fields)
    (simp add: fdata_def [abs_def] fsynced_def [abs_def] is_opened_def [abs_def] posix_alias_def [abs_def]
      opened_def [abs_def] cong: option.case_cong)

lemma changed_views:
  assumes "changed i f w w'" "opened w h i" and "\<And>x. i_synced (f x) = i_synced x"
  shows "fdata w' h = i_data (f (inodes w i)) \<and> is_opened w' = is_opened w \<and>
    posix_alias w' = posix_alias w \<and> opened w' = opened w \<and> fsynced w' = fsynced w \<and>
    (\<forall>g. \<not> posix_alias w h g \<longrightarrow> fdata w' g = fdata w g)"
  using changed_fields [OF assms(1)] assms(2,3)
  by (auto simp: fun_eq_iff fdata_def fsynced_def is_opened_def posix_alias_def opened_def
      split: option.splits)

lemma synced_views:
  assumes "changed i (\<lambda>x. x\<lparr>i_synced := i_data x\<rparr>) w w'" "opened w h i"
  shows "fsynced w' h = fdata w h \<and> is_opened w' = is_opened w \<and>
    posix_alias w' = posix_alias w \<and> fdata w' = fdata w \<and>
    (\<forall>g. \<not> posix_alias w h g \<longrightarrow> fsynced w' g = fsynced w g)"
  using changed_fields [OF assms(1)] assms(2)
  by (auto simp: fun_eq_iff fdata_def fsynced_def is_opened_def posix_alias_def opened_def
      split: option.splits)

lemma posix_write_views:
  assumes "posix_write f off bs w = ((err, k), w')" "is_opened w f"
  shows "is_opened w' = is_opened w \<and> posix_alias w' = posix_alias w \<and> fsynced w' = fsynced w \<and>
    (\<forall>g. \<not> posix_alias w f g \<longrightarrow> fdata w' g = fdata w g) \<and>
    (\<exists>n \<le> length bs. fdata w' f = overwrite (unat off) (take n bs) (fdata w f) \<and>
       (err = None \<longrightarrow> n = length bs \<and> k = length bs))"
proof -
  obtain i where i: "opened w f i" using assms(2) by (auto simp: is_opened_iff)
  from timelite_file_write_effect [OF assms(1) [unfolded posix_write_def] i] obtain n
    where n: "n \<le> length bs" "changed i (write_at (unat off) (take n bs)) w w'"
      "err = None \<longrightarrow> n = length bs \<and> k = length bs" by blast
  have "i_data (inodes w i) = fdata w f" using i by (simp add: fdata_def opened_def)
  with changed_views [OF n(2) i] n show ?thesis by auto
qed

lemma posix_truncate_views:
  assumes "timelite_file_truncate (Some f) n w = (err, w')" "is_opened w f"
  shows "is_opened w' = is_opened w \<and> posix_alias w' = posix_alias w \<and> fsynced w' = fsynced w \<and>
    (\<forall>g. \<not> posix_alias w f g \<longrightarrow> fdata w' g = fdata w g) \<and>
    (fdata w' f = resize (unat n) (fdata w f) \<or> err \<noteq> None \<and> fdata w' f = fdata w f)"
proof -
  obtain i where i: "opened w f i" using assms(2) by (auto simp: is_opened_iff)
  from timelite_file_truncate_effect [OF assms(1) i] show ?thesis
  proof
    assume "same_files w w' \<and> err \<noteq> None"
    then show ?thesis using same_files_views [of w w'] by simp
  next
    assume c: "changed i (\<lambda>x. x\<lparr>i_data := resize (unat n) (i_data x)\<rparr>) w w'"
    have "i_data (inodes w i) = fdata w f" using i by (simp add: fdata_def opened_def)
    then show ?thesis using changed_views [OF c i] by simp
  qed
qed

lemma posix_sync_views:
  assumes "timelite_file_sync (Some f) w = (err, w')" "is_opened w f"
  shows "is_opened w' = is_opened w \<and> posix_alias w' = posix_alias w \<and> fdata w' = fdata w \<and>
    (\<forall>g. \<not> posix_alias w f g \<longrightarrow> fsynced w' g = fsynced w g) \<and>
    (fsynced w' f = fdata w f \<or> err \<noteq> None \<and> fsynced w' f = fsynced w f)"
proof -
  obtain i where i: "opened w f i" using assms(2) by (auto simp: is_opened_iff)
  from timelite_file_sync_effect [OF assms(1) i] show ?thesis
  proof
    assume "same_files w w' \<and> err \<noteq> None"
    then show ?thesis using same_files_views [of w w'] by simp
  next
    assume c: "changed i (\<lambda>x. x\<lparr>i_synced := i_data x\<rparr>) w w'"
    then show ?thesis using synced_views [OF c i] by simp
  qed
qed

interpretation posix: file_backend fdata fsynced is_opened posix_alias posix_read posix_write
  "\<lambda>f. timelite_file_truncate (Some f)" "\<lambda>f. timelite_file_sync (Some f)"
proof (unfold_locales, goal_cases)
  case (1 w f) then show ?case by (simp add: posix_alias_def)
next
  case (2 w f off n r w')
  then show ?case
    by (cases r) (auto simp: posix_read_def is_opened_iff dest!: timelite_file_read_effect same_files_views)
next
  case (3 w f off n bs w')
  then show ?case
    by (auto simp: posix_read_def is_opened_iff dest!: timelite_file_read_effect)
next
  case (4 w f off bs s w') then show ?case by (cases s) (simp add: posix_write_views)
next
  case (5 w f off bs s w') then show ?case by (cases s) (use posix_write_views in blast)
next
  case (6 w f off bs k w') then show ?case by (auto dest: posix_write_views)
next
  case (7 w f n r w') then show ?case by (simp add: posix_truncate_views)
next
  case (8 w f n r w') then show ?case using posix_truncate_views by blast
next
  case (9 w f n w') then show ?case using posix_truncate_views by blast
next
  case (10 w f r w') then show ?case by (simp add: posix_sync_views)
next
  case (11 w f r w') then show ?case using posix_sync_views by blast
next
  case (12 w f w') then show ?case using posix_sync_views by blast
qed

section \<open>Progress without faults\<close>

lemma read_loop_quiet:
  "script w = [] \<Longrightarrow> fds w d = Some i \<Longrightarrow> length acc \<le> n \<Longrightarrow> in_off_t off n \<Longrightarrow>
     acc = block (unat off) (length acc) (i_data (inodes w i)) \<Longrightarrow>
     \<exists>bs. read_loop d off n acc w = ((None, bs), w)"
proof (induction d off n acc w rule: read_loop.induct)
  case (1 d off n acc w)
  show ?case
  proof (cases "length acc < n")
    case False
    then show ?thesis by (subst read_loop.simps) simp
  next
    case True
    let ?c = "min (n - length acc) SSIZE_MAX" and ?p = "unat (off + of_nat (length acc))"
    let ?bs = "block ?p ?c (i_data (inodes w i))"
    have pos: "?p = unat off + length acc"
      using "1.prems"(4) True by (intro u64_offset) (simp add: in_off_t_def)
    have call: "sys_pread d ?c ?p w = (Inr ?bs, w)"
      using "1.prems"(1,2) by (simp add: sys_pread_def)
    show ?thesis
    proof (cases "?bs = []")
      case eof: True
      then show ?thesis
        using True call by (subst read_loop.simps) (simp only: Let_def if_True prod.case sum.case, simp)
    next
      case False
      have "length (acc @ ?bs) \<le> n"
        using True by (simp add: length_block)
      moreover have "acc @ ?bs = block (unat off) (length (acc @ ?bs)) (i_data (inodes w i))"
      proof -
        have "?bs = block (unat off + length acc) (length ?bs) (i_data (inodes w i))"
          unfolding pos by (simp add: block_def min_def)
        then show ?thesis
          unfolding length_append using "1.prems"(5) by (subst block_split) metis
      qed
      ultimately have "\<exists>bs. read_loop d off n (acc @ ?bs) w = ((None, bs), w)"
        by (intro "1.IH"(2) [OF True refl call [symmetric] refl False "1.prems"(1,2) _ "1.prems"(4)])
      then show ?thesis
        using True call False by (subst read_loop.simps) (simp only: Let_def if_True if_False prod.case sum.case)
    qed
  qed
qed

lemma write_loop_quiet:
  "script w = [] \<Longrightarrow> fds w d = Some i \<Longrightarrow> \<exists>k w'. write_loop d off bs sofar w = ((None, k), w') \<and> script w' = []"
proof (induction d off bs sofar w rule: write_loop.induct)
  case (1 d off bs sofar w)
  show ?case
  proof (cases "sofar < length bs")
    case False
    then show ?thesis using "1.prems" by (subst write_loop.simps) simp
  next
    case True
    let ?b = "block sofar (min (length bs - sofar) SSIZE_MAX) bs" and ?p = "unat (off + of_nat sofar)"
    obtain u where call: "sys_pwrite d ?b ?p w = (Inr (length ?b), u)" and u: "script u = []" "fds u d = Some i"
      using "1.prems" by (simp add: sys_pwrite_def Let_def modify_inode_def)
    have pos: "length ?b \<noteq> 0" using True by (simp add: length_block)
    from "1.IH"(2) [OF True refl call [symmetric] refl pos u] show ?thesis
      using True call pos by (subst write_loop.simps) (simp only: Let_def if_True if_False prod.case sum.case)
  qed
qed

lemma in_off_t_size: "in_off_t n 0 \<Longrightarrow> \<not> n > INT64_MAX"
  by (simp add: in_off_t_def word_less_nat_alt)

interpretation posix_live: live_backend fdata fsynced is_opened posix_alias posix_read posix_write
  "\<lambda>f. timelite_file_truncate (Some f)" "\<lambda>f. timelite_file_sync (Some f)" "\<lambda>w. script w = []"
proof (unfold_locales, goal_cases)
  case (1 w f off n)
  then obtain i where "fds w (fd f) = Some i" "fd f \<ge> 0" by (auto simp: is_opened_def)
  with 1 read_loop_quiet [of w "fd f" i "[]" n off] show ?case
    by (simp add: posix_read_def timelite_file_read_def check_transfer_ok block_def)
next
  case (2 w f off bs)
  then obtain i where "fds w (fd f) = Some i" "fd f \<ge> 0" by (auto simp: is_opened_def)
  with 2 write_loop_quiet [of w "fd f" i off bs 0] show ?case
    by (simp add: posix_write_def timelite_file_write_def check_transfer_ok)
next
  case (3 w f sz)
  then show ?case
    using in_off_t_size [of sz]
    by (auto simp: timelite_file_truncate_def check_file_def is_opened_def sys_ftruncate_def Let_def
        retry_uninterrupted interrupted_def modify_inode_def)
next
  case (4 w f)
  then show ?case
    by (auto simp: timelite_file_sync_def check_file_def is_opened_def sys_fdatasync_def Let_def
        retry_uninterrupted interrupted_def modify_inode_def)
qed

end
