(* ===== verification/TL_Lifecycle.thy ===== *)
theory TL_Lifecycle
  imports TL_FileIO
begin

text \<open>
  The version 1 lifecycle API of \<open>timelite.c\<close>: a caller-owned handle on one database file that holds
  a 12-byte header.  A NULL pointer argument is \<open>None\<close>; a function that changes the handle through
  its pointer returns the new handle beside its result code (\<open>None\<close> is the code 0).
\<close>

record timelite_db =
  private_fd :: int

datatype timelite_open_mode = OPEN_EXISTING | CREATE_NEW | OPEN_OR_CREATE | OTHER_MODE nat

fun valid_mode :: "timelite_open_mode \<Rightarrow> bool" where
  "valid_mode (OTHER_MODE _) = False"
| "valid_mode _ = True"

definition get_file :: "timelite_db \<Rightarrow> timelite_file" where
  "get_file db = \<lparr>fd = private_fd db\<rparr>"

definition set_file :: "timelite_db \<Rightarrow> timelite_file \<Rightarrow> timelite_db" where
  "set_file db file = db\<lparr>private_fd := fd file\<rparr>"

definition is_closed :: "timelite_file \<Rightarrow> bool" where
  "is_closed file \<longleftrightarrow> fd file = -1"

definition timelite_init :: "timelite_db option \<Rightarrow> error option \<times> timelite_db option" where
  "timelite_init db =
     (case db of
        None \<Rightarrow> (Some EINVAL, None)
      | Some h \<Rightarrow> (None, Some (set_file h TIMELITE_FILE_INIT)))"

definition v1_header :: bytes where
  "v1_header = ascii ''TIMELITE'' @ map (\<lambda>i. ucast (drop_bit (8 * i) (1 :: u32))) [0..<4]"

definition initialize_file :: "timelite_file \<Rightarrow> os \<Rightarrow> error option \<times> os" where
  "initialize_file file w =
     (case timelite_file_write (Some file) 0 (Some v1_header) 12 (Some ()) w of
        ((Some e, count), w) \<Rightarrow> (Some e, w)
      | ((None, count), w) \<Rightarrow>
          if count \<noteq> 12 then (Some EIO, w) else timelite_file_sync (Some file) w)"

definition validate_file :: "timelite_file \<Rightarrow> os \<Rightarrow> error option \<times> os" where
  "validate_file file w =
     (case timelite_file_read (Some file) 0 (Some ()) 12 (Some ()) w of
        ((Some e, header), w) \<Rightarrow> (Some e, w)
      | ((None, header), w) \<Rightarrow>
          if length header \<noteq> 12 \<or> \<not> has_magic header ''TIMELITE'' then (Some INVALID_DATABASE, w)
          else (let version = decode32 (drop 8 header)
                in if version = 0 then (Some INVALID_DATABASE, w)
                   else if version \<noteq> 1 then (Some UNSUPPORTED_VERSION, w)
                   else (case timelite_file_size (Some file) (Some ()) w of
                           (Inl e, w) \<Rightarrow> (Some e, w)
                         | (Inr sz, w) \<Rightarrow> (if sz = 12 then None else Some INVALID_DATABASE, w))))"

text \<open>The native open of \<open>timelite_open\<close>: the handle or the error, and whether the file was created.\<close>

definition acquire_file ::
  "timelite_file \<Rightarrow> string \<Rightarrow> timelite_open_mode \<Rightarrow> os \<Rightarrow> ((error + timelite_file) \<times> bool) \<times> os" where
  "acquire_file file path mode w =
     (if mode = CREATE_NEW then
        (case timelite_file_create (Some file) (Some path) w of
           (Inl e, w) \<Rightarrow> ((Inl e, False), w)
         | (Inr f, w) \<Rightarrow> ((Inr f, True), w))
      else
        (case timelite_file_open (Some file) (Some path) w of
           (Inr f, w) \<Rightarrow> ((Inr f, False), w)
         | (Inl e, w) \<Rightarrow>
             if e = ENOENT \<and> mode = OPEN_OR_CREATE then
               (case timelite_file_create (Some file) (Some path) w of
                  (Inr f, w) \<Rightarrow> ((Inr f, True), w)
                | (Inl e, w) \<Rightarrow>
                    if e = EEXIST then
                      (case timelite_file_open (Some file) (Some path) w of
                         (r, w) \<Rightarrow> ((r, False), w))
                    else ((Inl e, False), w))
             else ((Inl e, False), w)))"

definition timelite_open ::
  "timelite_db option \<Rightarrow> string option \<Rightarrow> timelite_open_mode \<Rightarrow> os
     \<Rightarrow> (error option \<times> timelite_db option) \<times> os" where
  "timelite_open db path mode w =
     (case (db, path) of
        (Some h, Some p) \<Rightarrow>
          if p = [] \<or> \<not> valid_mode mode then ((Some EINVAL, db), w)
          else if \<not> is_closed (get_file h) then ((Some EINVAL, db), w)
          else (case acquire_file (get_file h) p mode w of
                  ((Inl e, created), w) \<Rightarrow> ((Some e, db), w)
                | ((Inr f, created), w) \<Rightarrow>
                    (case (if created then initialize_file f w else validate_file f w) of
                       (Some e, w) \<Rightarrow> ((Some e, db), snd (timelite_file_close (Some f) w))
                     | (None, w) \<Rightarrow> ((None, Some (set_file h f)), w)))
      | _ \<Rightarrow> ((Some EINVAL, db), w))"

definition timelite_close :: "timelite_db option \<Rightarrow> os \<Rightarrow> (error option \<times> timelite_db option) \<times> os" where
  "timelite_close db w =
     (case db of
        None \<Rightarrow> ((Some EINVAL, None), w)
      | Some h \<Rightarrow>
          (case timelite_file_close (Some (get_file h)) w of
             ((e, Some f), w) \<Rightarrow> ((e, Some (set_file h f)), w)
           | ((e, None), w) \<Rightarrow> ((e, db), w)))"

definition timelite_version :: string where
  "timelite_version = ''0.1.0-dev''"

end
