(* ===== verification/TL_Store.thy ===== *)
theory TL_Store
  imports TL_Lifecycle
begin

text \<open>
  The batch handle of \<open>timelite.h\<close> and the readers and writers of single structures in
  \<open>timelite.c\<close>: exact transfers, pair headers, segment headers, frames, retention manifests, and the
  walk over consecutive frames that recovery, checkpoint and retention share.
\<close>

section \<open>The batch handle\<close>

record timelite_batches =
  private_database :: int
  private_wal :: int
  private_end :: u64
  private_sequence :: u64
  private_cursor :: u64
  private_read_sequence :: u64
  private_data_end :: u64
  private_installed :: u64
  private_generation :: u64
  private_revision :: u64
  private_live_batches :: u64
  private_retention :: bool
  private_segment_end :: u64
  private_last_time :: u64
  private_installed_time :: u64
  private_wal_first_time :: u64
  private_wal_minimum :: u64
  private_wal_maximum :: u64
  private_last_segment :: u64
  private_span_start :: u64
  private_wal_ordered :: bool
  private_in_wal :: bool
  private_legacy :: bool
  private_failed :: bool

definition batch_file :: "timelite_batches \<Rightarrow> bool \<Rightarrow> timelite_file" where
  "batch_file db wal = \<lparr>fd = (if wal then private_wal db else private_database db)\<rparr>"

definition batch_set_file :: "timelite_batches \<Rightarrow> timelite_file \<Rightarrow> bool \<Rightarrow> timelite_batches" where
  "batch_set_file db file wal =
     (if wal then db\<lparr>private_wal := fd file\<rparr> else db\<lparr>private_database := fd file\<rparr>)"

definition reset_cursor :: "timelite_batches \<Rightarrow> timelite_batches" where
  "reset_cursor db =
     db\<lparr>private_cursor := TIMELITE_DATA_START, private_segment_end := TIMELITE_DATA_START,
        private_in_wal := False, private_read_sequence := 1\<rparr>"

definition timelite_batches_init ::
  "timelite_batches option \<Rightarrow> error option \<times> timelite_batches option" where
  "timelite_batches_init db =
     (case db of
        None \<Rightarrow> (Some EINVAL, None)
      | Some h \<Rightarrow>
          (let h = batch_set_file h TIMELITE_FILE_INIT False;
               h = batch_set_file h TIMELITE_FILE_INIT True;
               h = h\<lparr>private_end := 32, private_sequence := 0, private_data_end := TIMELITE_DATA_START,
                     private_installed := 0, private_generation := 0, private_revision := 0,
                     private_live_batches := 0, private_retention := False, private_last_time := 0,
                     private_installed_time := 0, private_wal_first_time := 0, private_wal_minimum := 0,
                     private_wal_maximum := 0, private_last_segment := 0, private_span_start := 1,
                     private_wal_ordered := True, private_legacy := False, private_failed := False\<rparr>
           in (None, Some (reset_cursor h))))"

section \<open>Exact transfers\<close>

definition read_exact :: "timelite_file \<Rightarrow> u64 \<Rightarrow> nat \<Rightarrow> os \<Rightarrow> (error + bytes) \<times> os" where
  "read_exact file offset len w =
     (case timelite_file_read (Some file) offset (Some ()) len (Some ()) w of
        ((Some e, _), w) \<Rightarrow> (Inl e, w)
      | ((None, bs), w) \<Rightarrow> (if length bs = len then Inr bs else Inl INVALID_DATABASE, w))"

definition write_exact :: "timelite_file \<Rightarrow> u64 \<Rightarrow> bytes \<Rightarrow> os \<Rightarrow> error option \<times> os" where
  "write_exact file offset buffer w =
     (case timelite_file_write (Some file) offset (Some buffer) (length buffer) (Some ()) w of
        ((Some e, _), w) \<Rightarrow> (Some e, w)
      | ((None, count), w) \<Rightarrow> (if count = length buffer then None else Some EIO, w))"

text \<open>\<open>error = m(); if (error != 0) return error;\<close> and then the rest.\<close>

definition io_bind ::
  "(os \<Rightarrow> (error + 'a) \<times> os) \<Rightarrow> ('a \<Rightarrow> os \<Rightarrow> (error + 'b) \<times> os) \<Rightarrow> os \<Rightarrow> (error + 'b) \<times> os" where
  "io_bind m f w = (case m w of (Inl e, w) \<Rightarrow> (Inl e, w) | (Inr x, w) \<Rightarrow> f x w)"

text \<open>The same after a call whose only result is its code.\<close>

definition io_seq ::
  "(os \<Rightarrow> error option \<times> os) \<Rightarrow> (os \<Rightarrow> (error + 'b) \<times> os) \<Rightarrow> os \<Rightarrow> (error + 'b) \<times> os" where
  "io_seq m f w = (case m w of (Some e, w) \<Rightarrow> (Inl e, w) | (None, w) \<Rightarrow> f w)"

definition pair_header :: "timelite_file \<Rightarrow> string \<Rightarrow> os \<Rightarrow> (error + bytes) \<times> os" where
  "pair_header file magic =
     io_bind (read_exact file 0 12) (\<lambda>header w.
       if \<not> has_magic header magic \<or> decode32 (drop 8 header) = 0 then (Inl INVALID_DATABASE, w)
       else if decode32 (drop 8 header) \<noteq> 2 then (Inl UNSUPPORTED_VERSION, w)
       else io_bind (read_exact file 12 20) (\<lambda>rest w.
              (let header = header @ rest
               in if checksum header 28 = decode32 (drop 28 header) then (Inr header, w)
                  else (Inl INVALID_DATABASE, w))) w)"

definition publish_retention ::
  "timelite_file \<Rightarrow> retention_state \<Rightarrow> u64 \<Rightarrow> u64 \<Rightarrow> u64 \<Rightarrow> u64 \<Rightarrow> u64 \<Rightarrow> u64 \<Rightarrow> u32 \<Rightarrow> os
     \<Rightarrow> (error + retention_state) \<times> os" where
  "publish_retention file state count end last_seq time tail root phase w =
     (if rs_revision state = UINT64_MAX then (Inl EOVERFLOW, w)
      else (let m = encode_retention (rs_revision state + 1) count end last_seq time tail root phase
            in io_seq (write_exact file (32 + 64 * ((rs_revision state + 1) AND 1)) m)
                 (io_seq (timelite_file_sync (Some file)) (\<lambda>w.
                   (Inr (state\<lparr>rs_revision := rs_revision state + 1, rs_root := root,
                               rs_phase := phase, rs_enabled := True\<rparr>), w))) w))"

section \<open>Segments\<close>

record segment_info =
  seg_first :: u64
  seg_last :: u64
  seg_minimum :: u64
  seg_maximum :: u64
  seg_previous :: u64
  seg_skip :: u64
  seg_body :: u32
  seg_header_size :: nat
  seg_ordered :: bool

text \<open>The checks of \<open>read_segment\<close> once the whole header is in memory.\<close>

definition parse_segment :: "bytes \<Rightarrow> nat \<Rightarrow> bool \<Rightarrow> u64 \<Rightarrow> u64 \<Rightarrow> error + segment_info" where
  "parse_segment header header_size ordered offset end =
     (if checksum header (header_size - 4) \<noteq> decode32 (drop (header_size - 4) header)
      then Inl INVALID_DATABASE
      else
        (let first = decode64 (drop 8 header); last_seq = decode64 (drop 16 header);
             body = decode32 (drop 24 header); frames = last_seq - first + 1
         in if first = 0 \<or> last_seq < first \<or> ucast body > TIMELITE_WAL_CAPACITY - 32 \<or>
               ucast body > end - offset - of_nat header_size
            then Inl INVALID_DATABASE
            else if frames > ucast (body div 84) \<or> ucast body > frames * of_nat TIMELITE_BATCH_SCRATCH
            then Inl INVALID_DATABASE
            else if header_size = 64 then
              (let minimum = decode64 (drop 28 header); maximum = decode64 (drop 36 header);
                   previous = decode64 (drop 44 header); skip = decode64 (drop 52 header)
               in if minimum > maximum \<or>
                     (previous \<noteq> 0 \<and> (previous < 160 \<or> previous \<ge> offset)) \<or>
                     (skip \<noteq> 0 \<and> (skip < 160 \<or> skip \<ge> offset))
                  then Inl INVALID_DATABASE
                  else Inr \<lparr>seg_first = first, seg_last = last_seq, seg_minimum = minimum,
                            seg_maximum = maximum, seg_previous = previous, seg_skip = skip,
                            seg_body = body, seg_header_size = header_size, seg_ordered = ordered\<rparr>)
            else Inr \<lparr>seg_first = first, seg_last = last_seq, seg_minimum = 0,
                      seg_maximum = UINT64_MAX, seg_previous = 0, seg_skip = 0, seg_body = body,
                      seg_header_size = header_size, seg_ordered = ordered\<rparr>))"

definition read_segment :: "timelite_file \<Rightarrow> u64 \<Rightarrow> u64 \<Rightarrow> os \<Rightarrow> (error + segment_info) \<times> os" where
  "read_segment file offset end w =
     (if offset > end \<or> end - offset < 32 then (Inl INVALID_DATABASE, w)
      else io_bind (read_exact file offset 32) (\<lambda>header w.
        (let ordered = has_magic header ''TLSPAN07'';
             header_size = (if ordered \<or> has_magic header ''TLUNOR07'' then 64 else 32)
         in if header_size = 64 then
              (if end - offset < 64 then (Inl INVALID_DATABASE, w)
               else io_bind (read_exact file (offset + 32) 32) (\<lambda>rest w.
                      (parse_segment (header @ rest) header_size ordered offset end, w)) w)
            else if \<not> has_magic header ''TLSEGMNT'' then (Inl INVALID_DATABASE, w)
            else (parse_segment header header_size ordered offset end, w))) w)"

text \<open>The extent of a segment: header and body.\<close>

definition segment_extent :: "segment_info \<Rightarrow> u64" where
  "segment_extent segment = of_nat (seg_header_size segment) + ucast (seg_body segment)"

section \<open>Frames\<close>

definition read_frame ::
  "timelite_file \<Rightarrow> u64 \<Rightarrow> u64 \<Rightarrow> u64 \<Rightarrow> os \<Rightarrow> (error + bytes \<times> nat \<times> nat) \<times> os" where
  "read_frame file offset end sequence w =
     (if end - offset < 32 then (Inl INVALID_DATABASE, w)
      else io_bind (read_exact file offset 32) (\<lambda>header w.
        if \<not> check_frame_header header \<or> decode64 (drop 8 header) \<noteq> sequence
        then (Inl INVALID_DATABASE, w)
        else
          (let count = decode32 (drop 16 header); body_length = decode32 (drop 20 header);
               total = unat body_length + 32
           in if of_nat total > end - offset then (Inl END, w)
              else io_bind (read_exact file (offset + 32) (total - 32)) (\<lambda>rest w.
                     if check_commit (header @ rest) sequence count body_length
                     then (Inr (header @ rest, total, unat count), w)
                     else (Inl INVALID_DATABASE, w)) w)) w)"

definition create_header :: "timelite_file \<Rightarrow> string \<Rightarrow> bytes \<Rightarrow> bool \<Rightarrow> os \<Rightarrow> error option \<times> os" where
  "create_header file magic identity database w =
     (let header = pair_header_bytes magic identity (replicate 160 0);
          header = (if database then put 32 (encode_manifest 0 TIMELITE_DATA_START 0 0 0) header
                    else header)
      in write_exact file 0 (take (if database then 160 else 32) header) w)"

section \<open>Every successful read stays inside the file offsets\<close>

lemma timelite_file_read_in_off_t:
  "timelite_file_read (Some f) off (Some ()) n (Some ()) w = ((None, bs), w') \<Longrightarrow> in_off_t off n"
  by (cases "fd f \<ge> 0")
    (auto simp: timelite_file_read_def check_transfer_ok split: if_splits,
     simp add: check_transfer_def check_file_def)

lemma read_exact_InrD:
  "read_exact f off n w = (Inr bs, w') \<Longrightarrow> in_off_t off n \<and> length bs = n"
  by (auto simp: read_exact_def dest: timelite_file_read_in_off_t split: prod.splits option.splits if_splits)

lemma io_bind_Inr:
  "io_bind m f w = (Inr y, w') \<longleftrightarrow> (\<exists>x u. m w = (Inr x, u) \<and> f x u = (Inr y, w'))"
  by (auto simp: io_bind_def split: prod.splits sum.splits)

lemma io_seq_Inr:
  "io_seq m f w = (Inr y, w') \<longleftrightarrow> (\<exists>u. m w = (None, u) \<and> f u = (Inr y, w'))"
  by (auto simp: io_seq_def split: prod.splits option.splits)

text \<open>The counts a valid frame header announces.\<close>

lemma check_frame_header_counts:
  assumes "check_frame_header h"
  defines "c \<equiv> unat (decode32 (drop 16 h))"
  shows "0 < c" "c \<le> TIMELITE_MAX_RECORDS" "unat (decode32 (drop 20 h)) = 32 + c * 20"
proof -
  have h: "decode32 (drop 16 h) \<noteq> 0" "decode32 (drop 16 h) \<le> 64"
    "decode32 (drop 20 h) = 32 + decode32 (drop 16 h) * 20"
    using assms(1) by (simp_all add: check_frame_header_def Let_def)
  show c: "0 < c" "c \<le> TIMELITE_MAX_RECORDS"
    using h by (simp_all add: c_def word_le_nat_alt unat_gt_0)
  have "decode32 (drop 16 h) = of_nat c" by (simp add: c_def)
  then show "unat (decode32 (drop 20 h)) = 32 + c * 20"
    using h(3) frame_counts(2) [OF c(2)] by simp
qed

lemma read_frame_InrD:
  assumes "read_frame f off end seq w = (Inr (bytes, len, count), w')"
  shows "0 < count" "count \<le> TIMELITE_MAX_RECORDS" "len = 64 + count * 20" "length bytes = len"
    "in_off_t off len" "of_nat len \<le> end - off"
proof -
  from assms obtain h u where h: "read_exact f off 32 w = (Inr h, u)" "check_frame_header h"
    and rest: "\<exists>r v. read_exact f (off + 32) (unat (decode32 (drop 20 h))) u = (Inr r, v) \<and> bytes = h @ r"
    and c: "count = unat (decode32 (drop 16 h))" and len: "len = unat (decode32 (drop 20 h)) + 32"
      "of_nat len \<le> end - off"
    by (auto simp: read_frame_def io_bind_Inr Let_def not_less split: if_splits)
  note n = check_frame_header_counts [OF h(2), folded c]
  show "0 < count" "count \<le> TIMELITE_MAX_RECORDS" by (fact n)+
  show l: "len = 64 + count * 20" using n(3) len by simp
  from rest obtain r v where r: "read_exact f (off + 32) (32 + count * 20) u = (Inr r, v)" "bytes = h @ r"
    using n(3) by auto
  note o = read_exact_InrD [OF h(1)] read_exact_InrD [OF r(1)]
  show "length bytes = len" using o r l by simp
  have "unat (off + 32) = unat off + 32"
    using o(1) by (subst u64_add) (auto simp: in_off_t_def)
  then show "in_off_t off len"
    using o(2) l by (simp add: in_off_t_def)
  show "of_nat len \<le> end - off" by (fact len)
qed

lemma read_frame_advance:
  assumes "read_frame f off end seq w = (Inr (bytes, len, count), w')"
  shows "unat (off + of_nat len) = unat off + len \<and> 2 ^ 63 - unat (off + of_nat len) < (2 ^ 63 - unat off :: nat)"
proof -
  note r = read_frame_InrD [OF assms]
  have "unat (off + of_nat len) = unat off + len"
    using r(5) by (intro u64_offset) (simp add: in_off_t_def)
  then show ?thesis using r(3,5) by (simp add: in_off_t_def)
qed

lemma parse_segment_InrD:
  assumes "parse_segment h hs ord off end = Inr s"
  shows "seg_header_size s = hs" "ucast (seg_body s) \<le> end - off - of_nat hs" "seg_first s \<noteq> 0"
    "seg_first s \<le> seg_last s" "ucast (seg_body s) \<le> TIMELITE_WAL_CAPACITY - 32"
    "seg_ordered s = ord"
  using assms by (auto simp: parse_segment_def Let_def not_le not_less split: if_splits)

lemma parse_segment_extent:
  assumes "parse_segment h hs ord off end = Inr s" "hs = 32 \<or> hs = 64" "of_nat hs \<le> end - off" "off \<le> end"
  shows "seg_header_size s = hs" "unat off + unat (segment_extent s) \<le> unat end"
    "0 < unat (segment_extent s)" "unat (segment_extent s) = seg_header_size s + unat (seg_body s)"
    "seg_first s \<noteq> 0" "seg_first s \<le> seg_last s"
proof -
  note s = parse_segment_InrD [OF assms(1)] and hs = assms(2,3) and le = assms(4)
  show "seg_header_size s = hs" by (fact s)
  have e: "unat (end - off) = unat end - unat off" using le by (simp add: u64_arith)
  have h: "unat (of_nat hs :: u64) = hs" using hs by auto
  have b: "unat (ucast (seg_body s) :: u64) = unat (seg_body s)"
    by (simp add: unsigned_ucast_eq take_bit_nat_eq_self unsigned_less [THEN order.strict_trans])
  have "hs \<le> unat end - unat off" using hs(2) e h by (simp add: word_le_nat_alt)
  then have i: "unat (end - off - of_nat hs) = unat end - unat off - hs"
    using e h by (simp add: u64_arith)
  have body: "unat (seg_body s) \<le> unat end - unat off - hs"
    using s(2) i b by (simp add: word_le_nat_alt)
  have "unat (end :: u64) < 2 ^ 64" by (rule u64_bound)
  then have x: "unat (segment_extent s) = hs + unat (seg_body s)"
    unfolding segment_extent_def s(1) using body \<open>hs \<le> unat end - unat off\<close> h b
    by (subst u64_add) simp_all
  then show "unat (segment_extent s) = seg_header_size s + unat (seg_body s)" using s by simp
  show "0 < unat (segment_extent s)" using x hs by auto
  show "unat off + unat (segment_extent s) \<le> unat end"
    using x body \<open>hs \<le> unat end - unat off\<close> le by (simp add: word_le_nat_alt)
  show "seg_first s \<noteq> 0" "seg_first s \<le> seg_last s" by (fact s)+
qed

lemma read_segment_InrD:
  assumes "read_segment f off end w = (Inr s, w')"
  shows "off \<le> end" "seg_header_size s = 32 \<or> seg_header_size s = 64"
    "unat off + unat (segment_extent s) \<le> unat end" "0 < unat (segment_extent s)"
    "unat (segment_extent s) = seg_header_size s + unat (seg_body s)"
    "seg_first s \<noteq> 0" "seg_first s \<le> seg_last s"
proof -
  from assms obtain h hs ord where p: "parse_segment h hs ord off end = Inr s"
    and hs: "hs = 32 \<or> hs = 64" "of_nat hs \<le> end - off" and le: "off \<le> end"
    by (auto simp: read_segment_def io_bind_Inr Let_def not_less split: if_splits)
  note e = parse_segment_extent [OF p hs le]
  show "off \<le> end" by (fact le)
  show "seg_header_size s = 32 \<or> seg_header_size s = 64" using e(1) hs by simp
  show "unat off + unat (segment_extent s) \<le> unat end" "0 < unat (segment_extent s)"
    "unat (segment_extent s) = seg_header_size s + unat (seg_body s)"
    "seg_first s \<noteq> 0" "seg_first s \<le> seg_last s" using e by simp_all
qed

section \<open>Consecutive frames\<close>

text \<open>
  The loop over the frames of \<open>[position, end)\<close> that \<open>timelite_batches_open\<close>, \<open>check_segments\<close>,
  \<open>segment_expires\<close>, \<open>copy_segments\<close> and \<open>timelite_batches_checkpoint\<close> run.  They differ in what they do
  with a frame (\<open>step\<close>) and in whether a validated header whose frame passes the end finishes the loop
  (\<open>tail_ok\<close>, recovery of a current WAL) or is damage.
\<close>

function scan_frames ::
  "(bytes \<Rightarrow> nat \<Rightarrow> nat \<Rightarrow> u64 \<Rightarrow> 'a \<Rightarrow> os \<Rightarrow> (error + 'a) \<times> os) \<Rightarrow> bool \<Rightarrow> timelite_file \<Rightarrow> u64 \<Rightarrow>
     u64 \<Rightarrow> u64 \<Rightarrow> 'a \<Rightarrow> os \<Rightarrow> (error + u64 \<times> u64 \<times> 'a) \<times> os" where
  "scan_frames step tail_ok file end position sequence acc w =
     (if position < end then
        (case read_frame file position end sequence w of
           (Inl e, w') \<Rightarrow>
             if e = END \<and> tail_ok then (Inr (position, sequence, acc), w')
             else (Inl (if e = END then INVALID_DATABASE else e), w')
         | (Inr (bytes, len, records), w') \<Rightarrow>
             (case step bytes len records position acc w' of
                (Inl e, w'') \<Rightarrow> (Inl e, w'')
              | (Inr acc', w'') \<Rightarrow>
                  scan_frames step tail_ok file end (position + of_nat len) (sequence + 1) acc' w''))
      else (Inr (position, sequence, acc), w))"
  by pat_completeness auto
termination
  by (relation "measure (\<lambda>(step, tail_ok, file, end, position, sequence, acc, w). 2 ^ 63 - unat position)")
    (auto dest!: sym [of _ "read_frame _ _ _ _ _", THEN read_frame_advance])

declare scan_frames.simps [simp del]

section \<open>Operations that only read\<close>

text \<open>\<open>reads_only m\<close>: whatever the outcome, \<open>m\<close> leaves every file and descriptor as it was.\<close>

definition reads_only :: "(os \<Rightarrow> 'a \<times> os) \<Rightarrow> bool" where
  "reads_only m \<longleftrightarrow> (\<forall>w. same_files w (snd (m w)))"

named_theorems reading \<open>operations that only read\<close>

lemma reads_onlyD: "reads_only m \<Longrightarrow> m w = (r, w') \<Longrightarrow> same_files w w'"
  unfolding reads_only_def by (metis snd_conv)

lemma reads_onlyI: "(\<And>w r w'. m w = (r, w') \<Longrightarrow> same_files w w') \<Longrightarrow> reads_only m"
  by (auto simp: reads_only_def intro: surjective_pairing)

lemma reads_only_return [reading]: "reads_only (\<lambda>w. (r, w))"
  by (simp add: reads_only_def)

lemma reads_only_if [reading]:
  "(c \<Longrightarrow> reads_only m) \<Longrightarrow> (\<not> c \<Longrightarrow> reads_only k) \<Longrightarrow> reads_only (\<lambda>w. if c then m w else k w)"
  by (simp add: reads_only_def)

lemma reads_only_bind [reading]:
  "reads_only m \<Longrightarrow> (\<And>x. reads_only (f x)) \<Longrightarrow> reads_only (io_bind m f)"
  unfolding reads_only_def io_bind_def
  by (auto split: prod.splits sum.splits) (metis same_files_trans snd_conv)+

lemma reads_only_seq [reading]: "reads_only m \<Longrightarrow> reads_only f \<Longrightarrow> reads_only (io_seq m f)"
  unfolding reads_only_def io_seq_def
  by (auto split: prod.splits option.splits) (metis same_files_trans snd_conv)+

lemma reads_only_case [reading]:
  "reads_only m \<Longrightarrow> (\<And>e. reads_only (f e)) \<Longrightarrow> (\<And>x. reads_only (k x)) \<Longrightarrow>
     reads_only (\<lambda>w. case m w of (Inl e, w) \<Rightarrow> f e w | (Inr x, w) \<Rightarrow> k x w)"
  unfolding reads_only_def
  by (auto split: prod.splits sum.splits) (metis same_files_trans snd_conv)+

lemma sys_pread_same: "sys_pread d n p w = (r, w') \<Longrightarrow> same_files w w'"
  using same_files_pop [of w] by (auto simp: sys_pread_def split: prod.splits option.splits outcome.splits)

lemma read_loop_same: "read_loop d off n acc w = (r, w') \<Longrightarrow> same_files w w'"
proof (induction d off n acc w arbitrary: r w' rule: read_loop.induct)
  case (1 d off n acc w)
  show ?case
  proof (cases "length acc < n")
    case False
    then show ?thesis using "1.prems" by (subst (asm) read_loop.simps) simp
  next
    case True
    obtain s u where call: "sys_pread d (min (n - length acc) SSIZE_MAX) (unat (off + of_nat (length acc))) w = (s, u)"
      by force
    note same = sys_pread_same [OF call]
    show ?thesis
    proof (cases s)
      case (Inl e)
      then show ?thesis
        using "1.prems" True call same "1.IH"(1) [OF True refl call [symmetric] Inl]
        by (subst (asm) read_loop.simps) (auto simp: Let_def split: if_splits intro: same_files_trans)
    next
      case (Inr bs)
      then show ?thesis
        using "1.prems" True call same "1.IH"(2) [OF True refl call [symmetric] Inr]
        by (subst (asm) read_loop.simps) (auto simp: Let_def split: if_splits intro: same_files_trans)
    qed
  qed
qed

lemma reads_only_file_read [reading]: "reads_only (timelite_file_read f off b n t)"
  by (rule reads_onlyI) (auto simp: timelite_file_read_def dest: read_loop_same split: option.splits)

lemma reads_only_read_exact [reading]: "reads_only (read_exact f off n)"
  by (rule reads_onlyI)
    (auto simp: read_exact_def dest: reads_onlyD [OF reads_only_file_read] split: prod.splits option.splits)

lemma retry_same:
  "(\<And>w r w'. call w = (r, w') \<Longrightarrow> same_files w w') \<Longrightarrow> retry call w = (r, w') \<Longrightarrow> same_files w w'"
proof (induction call w arbitrary: r w' rule: retry.induct)
  case (1 c w)
  obtain s u where call: "c w = (s, u)" by force
  then have same: "same_files w u" by (rule "1.prems"(1))
  show ?case
  proof (cases "interrupted s \<and> length (script u) < length (script w)")
    case True
    with "1.prems"(2) have "retry c u = (r, w')" using call by (subst (asm) retry.simps) simp
    then have "same_files u w'" using "1.IH" [OF call [symmetric] True] "1.prems"(1) by blast
    with same show ?thesis by (rule same_files_trans)
  next
    case False
    then show ?thesis using "1.prems"(2) call same by (subst (asm) retry.simps) (auto split: if_splits)
  qed
qed

lemma reads_only_file_size [reading]: "reads_only (timelite_file_size f s)"
proof (rule reads_onlyI)
  fix w r w' assume "timelite_file_size f s w = (r, w')"
  moreover have "same_files u v" if "retry (sys_fstat d) u = (q, v)" for d u q v
    using that by (rule retry_same [rotated])
      (auto simp: sys_fstat_def dest: same_files_pop split: prod.splits option.splits outcome.splits)
  ultimately show "same_files w w'"
    by (auto simp: timelite_file_size_def Let_def split: option.splits if_splits prod.splits sum.splits)
qed

lemma reads_only_pair_header [reading]: "reads_only (pair_header f magic)"
  unfolding pair_header_def Let_def by (intro reading)

lemma reads_only_read_segment [reading]: "reads_only (read_segment f off end)"
  unfolding read_segment_def Let_def by (intro reading)

lemma reads_only_read_frame [reading]: "reads_only (read_frame f off end seq)"
  unfolding read_frame_def Let_def by (intro reading)

lemma scan_frames_same:
  "(\<And>b l r p a. reads_only (step b l r p a)) \<Longrightarrow>
     scan_frames step tail_ok f end pos seq acc w = (r, w') \<Longrightarrow> same_files w w'"
proof (induction step tail_ok f "end" pos seq acc w arbitrary: r w' rule: scan_frames.induct)
  case (1 step t f e p q a w)
  show ?case
  proof (cases "p < e")
    case False
    then show ?thesis using "1.prems" by (subst (asm) scan_frames.simps) simp
  next
    case True
    obtain x u where rf: "read_frame f p e q w = (x, u)" by force
    note wu = reads_onlyD [OF reads_only_read_frame rf]
    show ?thesis
    proof (cases x)
      case (Inl err)
      then show ?thesis using "1.prems"(2) True rf wu by (subst (asm) scan_frames.simps) (simp split: if_splits)
    next
      case (Inr y)
      obtain bytes len n where y: "y = (bytes, len, n)" by (cases y)
      obtain z v where st: "step bytes len n p a u = (z, v)" by force
      have wv: "same_files w v" using same_files_trans [OF wu reads_onlyD [OF "1.prems"(1) st]] .
      show ?thesis
      proof (cases z)
        case (Inl err)
        then show ?thesis
          using "1.prems"(2) True rf Inr y st wv by (subst (asm) scan_frames.simps) simp
      next
        case fine: (Inr acc)
        then have "scan_frames step t f e (p + of_nat len) (q + 1) acc v = (r, w')"
          using "1.prems"(2) True rf Inr y st by (subst (asm) scan_frames.simps) simp
        then have "same_files v w'"
          using "1.IH" [OF True rf [symmetric] Inr y [symmetric] refl st [symmetric] fine] "1.prems"(1) by blast
        with wv show ?thesis by (rule same_files_trans)
      qed
    qed
  qed
qed

lemma reads_only_scan_frames [reading]:
  "(\<And>b l r p a. reads_only (step b l r p a)) \<Longrightarrow> reads_only (scan_frames step t f e p q a)"
  by (rule reads_onlyI) (rule scan_frames_same)

end
