(* ===== verification/TL_Frames.thy ===== *)
theory TL_Frames
  imports TL_Store
begin

text \<open>
  Runs of frames: what a WAL or a segment body holds after the batches \<open>bs\<close> were appended, and what
  \<open>read_frame\<close> and the frame loop of \<open>timelite.c\<close> find there.  With faults, whatever a successful read
  returns is what was written; without faults, the reads succeed.
\<close>

section \<open>Exact reads\<close>

lemma read_exact_ok:
  assumes "read_exact f off n w = (Inr bs, w')" "is_opened w f"
  shows "bs = block (unat off) n (fdata w f)" "unat off + n \<le> length (fdata w f) \<or> n = 0"
proof -
  have r: "posix_read f off n w = ((None, bs), w')" and len: "length bs = n"
    using assms(1) by (auto simp: read_exact_def posix_read_def split: prod.splits option.splits if_splits)
  show b: "bs = block (unat off) n (fdata w f)" using posix.rd_ok [OF assms(2) r] .
  then show "unat off + n \<le> length (fdata w f) \<or> n = 0" using len by (auto simp: length_block min_def split: if_splits)
qed

lemma read_exact_quiet:
  assumes "script w = []" "is_opened w f" "in_off_t off n" "unat off + n \<le> length (fdata w f)"
  shows "read_exact f off n w = (Inr (block (unat off) n (fdata w f)), w)"
  using posix_live.rd_quiet [OF assms(1-3)] assms(4)
  by (simp add: read_exact_def posix_read_def length_block)

lemma same_files_script_eq: "same_files w w' \<Longrightarrow> script w = [] \<Longrightarrow> script w' = [] \<Longrightarrow> w' = w"
  by (metis os.surjective os.update_convs(11) same_files_def)

section \<open>Runs of frames\<close>

definition valid_batch :: "timelite_record list \<Rightarrow> bool" where
  "valid_batch rs \<longleftrightarrow> rs \<noteq> [] \<and> length rs \<le> TIMELITE_MAX_RECORDS \<and> list_all record_in_range rs"

fun encode_frames :: "u64 \<Rightarrow> timelite_record list list \<Rightarrow> bytes" where
  "encode_frames next [] = []"
| "encode_frames next (rs # bs) = encode_frame next rs @ encode_frames (next + 1) bs"

lemma encode_frames_append:
  "encode_frames next (as @ bs) = encode_frames next as @ encode_frames (next + of_nat (length as)) bs"
  by (induction as arbitrary: "next") (simp_all add: add.assoc)

lemma encode_frames_snoc:
  "encode_frames next (as @ [rs]) = encode_frames next as @ encode_frame (next + of_nat (length as)) rs"
  by (simp add: encode_frames_append)

lemma length_encode_frames_ge: "64 * length bs \<le> length (encode_frames next bs)"
  by (induction bs arbitrary: "next") (auto intro: trans_le_add2)

lemma take_32_encode_frame: "take 32 (encode_frame n rs) = frame_header n (length rs)"
  by (simp add: encode_frame_def frame_body_def)

section \<open>Reading one frame\<close>

text \<open>The two reads of \<open>read_frame\<close> on a block that starts with an encoded frame.\<close>

lemma block_prefix:
  "block off n p = q \<Longrightarrow> m \<le> n \<Longrightarrow> block off m p = take m q"
  by (auto simp: block_def min_def)

lemma block_suffix:
  "block off n p = q \<Longrightarrow> m \<le> n \<Longrightarrow> block (off + m) (n - m) p = drop m q"
  by (auto simp: block_def drop_take add.commute)

lemma frame_header_ok:
  assumes "valid_batch rs"
  shows "check_frame_header (frame_header seq (length rs))"
    "decode64 (drop 8 (frame_header seq (length rs))) = seq"
    "unat (decode32 (drop 16 (frame_header seq (length rs)))) = length rs"
    "unat (decode32 (drop 20 (frame_header seq (length rs)))) = 32 + length rs * 20"
  using assms frame_header_fields [of seq "length rs" "[]"] frame_counts [of "length rs"]
  by (auto simp: valid_batch_def check_frame_header_frame_header simp del: of_nat_add of_nat_mult)

lemma check_commit_header:
  assumes "valid_batch rs"
  shows "check_commit (encode_frame seq rs) seq (decode32 (drop 16 (frame_header seq (length rs))))
    (decode32 (drop 20 (frame_header seq (length rs))))"
  using assms frame_header_fields [of seq "length rs" "[]"]
  by (simp add: valid_batch_def check_commit_encode_frame del: of_nat_add of_nat_mult)

text \<open>Whatever the faults, a frame read from an encoded frame is that frame.\<close>

lemma read_frame_sound:
  assumes "read_frame f off end seq' w = (Inr (bytes, len, count), w')" "is_opened w f"
    and "block (unat off) (64 + length rs * 20) (fdata w f) = encode_frame seq rs" "valid_batch rs"
  shows "bytes = encode_frame seq rs" "len = 64 + length rs * 20" "count = length rs" "seq' = seq"
proof -
  from assms(1) obtain h u where h: "read_exact f off 32 w = (Inr h, u)" "decode64 (drop 8 h) = seq'"
    and rest: "\<exists>r v. read_exact f (off + 32) (unat (decode32 (drop 20 h))) u = (Inr r, v) \<and> bytes = h @ r"
    and c: "count = unat (decode32 (drop 16 h))" and len: "len = unat (decode32 (drop 20 h)) + 32"
    by (auto simp: read_frame_def io_bind_Inr Let_def split: if_splits)
  have "h = take 32 (encode_frame seq rs)"
    using read_exact_ok(1) [OF h(1) assms(2)] block_prefix [OF assms(3), of 32] by simp
  then have hh: "h = frame_header seq (length rs)" by (simp add: take_32_encode_frame)
  note fh = frame_header_ok [OF assms(4), of seq]
  show "count = length rs" "len = 64 + length rs * 20" "seq' = seq"
    using c len hh h(2) fh by simp_all
  from rest obtain r v where r: "read_exact f (off + 32) (32 + length rs * 20) u = (Inr r, v)" "bytes = h @ r"
    using hh fh by auto
  have same: "same_files w u" using reads_onlyD [OF reads_only_read_exact h(1)] .
  then have u: "is_opened u f" "fdata u f = fdata w f" using same_files_views [of w u] assms(2) by auto
  have o: "in_off_t off 32" using read_exact_InrD [OF h(1)] by simp
  then have "unat (off + 32) = unat off + 32" by (subst u64_add) (auto simp: in_off_t_def)
  then have "r = drop 32 (encode_frame seq rs)"
    using read_exact_ok(1) [OF r(1) u(1)] u(2) block_suffix [OF assms(3), of 32] by simp
  then show "bytes = encode_frame seq rs"
    using r(2) hh by (metis append_take_drop_id take_32_encode_frame)
qed

text \<open>Without faults, an encoded frame inside the end is read.\<close>

lemma read_frame_quiet:
  assumes "script w = []" "is_opened w f" "valid_batch rs"
    and "block (unat off) (64 + length rs * 20) (fdata w f) = encode_frame seq rs"
    and "unat off + (64 + length rs * 20) \<le> unat end" "in_off_t off (64 + length rs * 20)"
  shows "read_frame f off end seq w = (Inr (encode_frame seq rs, 64 + length rs * 20, length rs), w)"
proof -
  note fh = frame_header_ok [OF assms(3), of seq]
  have fits: "unat off + (64 + length rs * 20) \<le> length (fdata w f)"
    using arg_cong [OF assms(4), of length] by (simp add: length_block min_def split: if_splits)
  have gap: "unat (end - off) = unat end - unat off" using assms(5) by (simp add: u64_arith)
  have h: "read_exact f off 32 w = (Inr (frame_header seq (length rs)), w)"
    using read_exact_quiet [OF assms(1,2), of off 32] assms(6) fits block_prefix [OF assms(4), of 32]
    by (simp add: in_off_t_def take_32_encode_frame)
  have o: "unat (off + 32) = unat off + 32"
    using assms(6) by (subst u64_add) (auto simp: in_off_t_def)
  have r: "read_exact f (off + 32) (32 + length rs * 20) w = (Inr (drop 32 (encode_frame seq rs)), w)"
    using read_exact_quiet [OF assms(1,2), of "off + 32" "32 + length rs * 20"] assms(6) fits
      block_suffix [OF assms(4), of 32] by (simp add: in_off_t_def o)
  have e: "frame_header seq (length rs) @ drop 32 (encode_frame seq rs) = encode_frame seq rs"
    by (metis append_take_drop_id take_32_encode_frame)
  have "\<not> end - off < 32" "\<not> of_nat (64 + length rs * 20) > end - off"
    using assms(3,5) gap by (auto simp: word_less_nat_alt u64_of_nat valid_batch_def simp del: of_nat_add of_nat_mult)
  then show ?thesis
    using h r fh e check_commit_header [OF assms(3), of seq]
    by (simp add: read_frame_def io_bind_def Let_def add.commute add.left_commute del: of_nat_add of_nat_mult)
qed

text \<open>A validated header whose frame passes the end: the incomplete last frame.\<close>

lemma read_frame_torn:
  assumes "script w = []" "is_opened w f" "valid_batch rs"
    and "block (unat off) 32 (fdata w f) = frame_header seq (length rs)"
    and "unat off + 32 \<le> unat end" "unat end < unat off + (64 + length rs * 20)" "in_off_t off 32"
  shows "read_frame f off end seq w = (Inl END, w)"
proof -
  note fh = frame_header_ok [OF assms(3), of seq]
  have fits: "unat off + 32 \<le> length (fdata w f)"
    using arg_cong [OF assms(4), of length] by (simp add: length_block min_def split: if_splits)
  have gap: "unat (end - off) = unat end - unat off" using assms(5) by (simp add: u64_arith)
  have h: "read_exact f off 32 w = (Inr (frame_header seq (length rs)), w)"
    using read_exact_quiet [OF assms(1,2,7)] fits assms(4) by simp
  have "\<not> end - off < 32" "of_nat (64 + length rs * 20) > end - off"
    using assms(3,5,6) gap by (auto simp: word_less_nat_alt u64_of_nat valid_batch_def simp del: of_nat_add of_nat_mult)
  then show ?thesis
    using h fh by (simp add: read_frame_def io_bind_def Let_def add.commute add.left_commute del: of_nat_add of_nat_mult)
qed

text \<open>Fewer bytes than a header are never repaired.\<close>

lemma read_frame_short:
  "unat off \<le> unat end \<Longrightarrow> unat end < unat off + 32 \<Longrightarrow> read_frame f off end seq w = (Inl INVALID_DATABASE, w)"
  by (simp add: read_frame_def word_less_nat_alt u64_arith) linarith

section \<open>The frame loop on a run of frames\<close>

text \<open>What the loop accumulates over a run.\<close>

fun fold_frames ::
  "(bytes \<Rightarrow> nat \<Rightarrow> nat \<Rightarrow> u64 \<Rightarrow> 'a \<Rightarrow> 'a) \<Rightarrow> u64 \<Rightarrow> u64 \<Rightarrow> timelite_record list list \<Rightarrow> 'a \<Rightarrow> 'a" where
  "fold_frames g position sequence [] acc = acc"
| "fold_frames g position sequence (rs # bs) acc =
     fold_frames g (position + of_nat (64 + length rs * 20)) (sequence + 1) bs
       (g (encode_frame sequence rs) (64 + length rs * 20) (length rs) position acc)"

lemma block_append_split:
  "block off (m + n) p = q @ r \<Longrightarrow> length q = m \<Longrightarrow> block off m p = q \<and> block (off + m) n p = r"
  using block_prefix [of off "m + n" p "q @ r" m] block_suffix [of off "m + n" p "q @ r" m] by simp

lemma scan_frames_run:
  assumes "script w = []" "is_opened w f" "\<And>b l r p a. step b l r p a w = (Inr (g b l r p a), w)"
    and "unat end < 2 ^ 63"
  shows "list_all valid_batch bs \<Longrightarrow>
    block (unat pos) (length (encode_frames seq bs)) (fdata w f) = encode_frames seq bs \<Longrightarrow>
    unat pos + length (encode_frames seq bs) \<le> unat end \<Longrightarrow>
    scan_frames step t f end pos seq acc w =
    scan_frames step t f end (pos + of_nat (length (encode_frames seq bs))) (seq + of_nat (length bs))
      (fold_frames g pos seq bs acc) w"
proof (induction bs arbitrary: pos seq acc)
  case (Cons rs bs)
  let ?n = "64 + length rs * 20" and ?m = "length (encode_frames (seq + 1) bs)"
  have v: "valid_batch rs" "list_all valid_batch bs" using Cons.prems by simp_all
  have b: "block (unat pos) ?n (fdata w f) = encode_frame seq rs"
    "block (unat pos + ?n) ?m (fdata w f) = encode_frames (seq + 1) bs"
    using Cons.prems(2) block_append_split [of "unat pos" ?n ?m "fdata w f" "encode_frame seq rs"] by simp_all
  have e: "unat pos + (?n + ?m) \<le> unat end" using Cons.prems(3) by simp
  then have o: "unat (pos + of_nat ?n) = unat pos + ?n"
    using assms(4) by (intro u64_offset) simp
  have "read_frame f pos end seq w = (Inr (encode_frame seq rs, ?n, length rs), w)"
    using e assms(4) by (intro read_frame_quiet [OF assms(1,2) v(1) b(1)]) (simp_all add: in_off_t_def)
  moreover have "pos < end" using e by (simp add: word_less_nat_alt)
  ultimately have "scan_frames step t f end pos seq acc w =
      scan_frames step t f end (pos + of_nat ?n) (seq + 1) (g (encode_frame seq rs) ?n (length rs) pos acc) w"
    by (subst scan_frames.simps) (simp add: assms(3) del: of_nat_add)
  also have "\<dots> = scan_frames step t f end (pos + of_nat ?n + of_nat ?m) (seq + 1 + of_nat (length bs))
      (fold_frames g pos seq (rs # bs) acc) w"
    using b(2) e o v(2) by (subst Cons.IH) (simp_all del: of_nat_add)
  also have "pos + of_nat ?n + of_nat ?m = pos + of_nat (length (encode_frames seq (rs # bs)))"
    by (simp add: add.assoc)
  finally show ?case by (simp add: add.assoc)
qed simp

lemma scan_frames_end: "scan_frames step t f end end seq acc w = (Inr (end, seq, acc), w)"
  by (subst scan_frames.simps) simp

text \<open>A run, and after it a torn frame or a piece of a header.\<close>

lemma scan_frames_torn:
  assumes "script w = []" "is_opened w f" "valid_batch rs" "in_off_t off 32"
    and "block (unat off) 32 (fdata w f) = frame_header seq (length rs)"
    and "unat off + 32 \<le> unat end" "unat end < unat off + (64 + length rs * 20)"
  shows "scan_frames step t f end off seq acc w =
    (if t then Inr (off, seq, acc) else Inl INVALID_DATABASE, w)"
  using read_frame_torn [OF assms(1-3,5-7,4)] assms(6)
  by (subst scan_frames.simps) (simp add: word_less_nat_alt)

lemma scan_frames_short:
  assumes "unat off < unat end" "unat end < unat off + 32"
  shows "scan_frames step t f end off seq acc w = (Inl INVALID_DATABASE, w)"
  using read_frame_short [of off "end" f seq w] assms
  by (subst scan_frames.simps) (simp add: word_less_nat_alt)

section \<open>A sample pair\<close>

text \<open>An operating system with a pair open at descriptors 3 and 4, and a fresh handle on it.\<close>

definition sample_os :: "bytes \<Rightarrow> bytes \<Rightarrow> os" where
  "sample_os database wal =
     \<lparr>entries = [(''.'', ''db'') \<mapsto> Entry 0, (''.'', ''wal'') \<mapsto> Entry 1],
      synced_entries = (\<lambda>_. None), directories = (\<lambda>p. p = ''.''),
      inodes = (\<lambda>i. let bs = (if i = 0 then database else wal)
                    in \<lparr>i_data = bs, i_synced = bs, i_regular = True, i_fs = 0xef53\<rparr>),
      fds = [3 \<mapsto> 0, 4 \<mapsto> 1], lock_owner = [0 \<mapsto> 3], entropy = replicate 16 7,
      default_fs = 0xef53, fresh_inode = 2, fresh_fd = 5, script = []\<rparr>"

definition sample_handle :: timelite_batches where
  "sample_handle =
     (case timelite_batches_init (Some \<lparr>private_database = 0, private_wal = 0, private_end = 0,
        private_sequence = 0, private_cursor = 0, private_read_sequence = 0, private_data_end = 0,
        private_installed = 0, private_generation = 0, private_revision = 0, private_live_batches = 0,
        private_retention = False, private_segment_end = 0, private_last_time = 0,
        private_installed_time = 0, private_wal_first_time = 0, private_wal_minimum = 0,
        private_wal_maximum = 0, private_last_segment = 0, private_span_start = 0,
        private_wal_ordered = False, private_in_wal = False, private_legacy = False,
        private_failed = True\<rparr>) of
        (_, Some h) \<Rightarrow> h\<lparr>private_database := 3, private_wal := 4\<rparr>)"

definition sample_record :: timelite_record where
  "sample_record = \<lparr>series = 7, timestamp_us = 1000, value_i64 = -5\<rparr>"

lemma sample_handle_eq:
  "sample_handle = \<lparr>private_database = 3, private_wal = 4, private_end = 32,
     private_sequence = 0, private_cursor = 160, private_read_sequence = 1, private_data_end = 160,
     private_installed = 0, private_generation = 0, private_revision = 0, private_live_batches = 0,
     private_retention = False, private_segment_end = 160, private_last_time = 0,
     private_installed_time = 0, private_wal_first_time = 0, private_wal_minimum = 0,
     private_wal_maximum = 0, private_last_segment = 0, private_span_start = 1,
     private_wal_ordered = True, private_in_wal = False, private_legacy = False, private_failed = False\<rparr>"
  by (simp add: sample_handle_def timelite_batches_init_def batch_set_file_def reset_cursor_def
      TIMELITE_FILE_INIT_def)

lemma sample_handle_simps [simp]:
  "private_end sample_handle = 32" "private_sequence sample_handle = 0" "private_cursor sample_handle = 160"
  "private_read_sequence sample_handle = 1" "private_data_end sample_handle = 160"
  "private_installed sample_handle = 0" "private_generation sample_handle = 0"
  "private_revision sample_handle = 0" "private_live_batches sample_handle = 0"
  "\<not> private_retention sample_handle" "private_segment_end sample_handle = 160"
  "private_last_time sample_handle = 0" "private_span_start sample_handle = 1"
  "private_wal_ordered sample_handle" "\<not> private_in_wal sample_handle"
  "\<not> private_legacy sample_handle" "\<not> private_failed sample_handle"
  by (simp_all add: sample_handle_eq)

lemma sample_os_views [simp]:
  "is_opened (sample_os d l) \<lparr>fd = 3\<rparr>" "is_opened (sample_os d l) \<lparr>fd = 4\<rparr>"
  "fdata (sample_os d l) \<lparr>fd = 3\<rparr> = d" "fdata (sample_os d l) \<lparr>fd = 4\<rparr> = l"
  "fsynced (sample_os d l) \<lparr>fd = 3\<rparr> = d" "fsynced (sample_os d l) \<lparr>fd = 4\<rparr> = l"
  "script (sample_os d l) = []"
  by (simp_all add: sample_os_def is_opened_def fdata_def fsynced_def Let_def)

lemma sample_handle_files [simp]:
  "batch_file sample_handle False = \<lparr>fd = 3\<rparr>" "batch_file sample_handle True = \<lparr>fd = 4\<rparr>"
  by (simp_all add: sample_handle_eq batch_file_def)

lemma sample_record_valid [simp]:
  "valid_batch [sample_record]" "record_in_range sample_record"
  by (simp_all add: valid_batch_def record_in_range_def sample_record_def)

end
