(* ===== verification/TL_FileSafety.thy ===== *)
theory TL_FileSafety
  imports TL_Frames
begin

text \<open>
  Properties of the file layer for its callers: transfers are exact or report an error, interrupted
  calls never surface, a lock has one owner, and a provisioned file is durable under its name.
\<close>

section \<open>Interruptions\<close>

lemma retry_final: "consumes call \<Longrightarrow> retry call w = (r, w') \<Longrightarrow> \<not> interrupted r"
proof (induction call w arbitrary: r w' rule: retry.induct)
  case (1 call w)
  obtain s u where c: "call w = (s, u)" by force
  show ?case
  proof (cases "interrupted s")
    case True
    moreover from this have "length (script u) < length (script w)"
      using "1.prems"(1) c by (auto simp: consumes_def)
    ultimately show ?thesis
      using "1.IH" [OF c [symmetric] _ "1.prems"(1)] "1.prems"(2) c by (subst (asm) retry.simps) simp
  next
    case False
    then show ?thesis using "1.prems"(2) c by (subst (asm) retry.simps) simp
  qed
qed

lemma retry_final_Inl: "consumes call \<Longrightarrow> retry call w = (Inl e, w') \<Longrightarrow> e \<noteq> EINTR"
  using retry_final [of call w "Inl e" w'] by (auto simp: interrupted_def)

lemma read_loop_final: "read_loop d off n acc w = ((Some e, bs), w') \<Longrightarrow> e \<noteq> EINTR"
proof (induction d off n acc w rule: read_loop.induct)
  case (1 d off n acc w)
  show ?case
  proof (cases "length acc < n")
    case False
    then show ?thesis using "1.prems" by (subst (asm) read_loop.simps) simp
  next
    case True
    obtain s u where call: "sys_pread d (min (n - length acc) SSIZE_MAX) (unat (off + of_nat (length acc))) w = (s, u)"
      by force
    show ?thesis
      using "1.prems" True call "1.IH"(1) [OF True refl call [symmetric]] "1.IH"(2) [OF True refl call [symmetric]]
      by (subst (asm) read_loop.simps) (auto simp: Let_def split: sum.splits if_splits)
  qed
qed

lemma write_loop_final: "write_loop d off bs k w = ((Some e, m), w') \<Longrightarrow> e \<noteq> EINTR"
proof (induction d off bs k w rule: write_loop.induct)
  case (1 d off bs k w)
  show ?case
  proof (cases "k < length bs")
    case False
    then show ?thesis using "1.prems" by (subst (asm) write_loop.simps) simp
  next
    case True
    obtain s u where call: "sys_pwrite d (block k (min (length bs - k) SSIZE_MAX) bs) (unat (off + of_nat k)) w = (s, u)"
      by force
    show ?thesis
      using "1.prems" True call "1.IH"(1) [OF True refl call [symmetric]] "1.IH"(2) [OF True refl call [symmetric]]
      by (subst (asm) write_loop.simps) (auto simp: Let_def split: sum.splits if_splits)
  qed
qed

text \<open>
  The same run without the interruptions: a call that an interruption hits before its effect is made
  again, so removing the interruption from the script changes neither a result nor the state.
\<close>

definition uninterrupted :: "os \<Rightarrow> os" where
  "uninterrupted w = w\<lparr>script := filter (\<lambda>oc. oc \<noteq> Fail EINTR) (script w)\<rparr>"

definition transparent :: "(os \<Rightarrow> 'r \<times> os) \<Rightarrow> os \<Rightarrow> bool" where
  "transparent m w \<longleftrightarrow> (case m w of (r, w') \<Rightarrow> m (uninterrupted w) = (r, uninterrupted w'))"

text \<open>A call on descriptor \<open>d\<close> that an interruption leaves undone and that nothing else depends on.\<close>

definition skips :: "int \<Rightarrow> (os \<Rightarrow> (error + 'a) \<times> os) \<Rightarrow> bool" where
  "skips d call \<longleftrightarrow>
     (\<forall>w s. fds w d \<noteq> None \<longrightarrow> script w = Fail EINTR # s \<longrightarrow> call w = (Inl EINTR, w\<lparr>script := s\<rparr>)) \<and>
     (\<forall>w r v. fds w d \<noteq> None \<longrightarrow> (\<forall>s. script w \<noteq> Fail EINTR # s) \<longrightarrow> call w = (r, v) \<longrightarrow>
       call (uninterrupted w) = (r, uninterrupted v) \<and> fds v = fds w)"

lemma uninterrupted_fields [simp]:
  "fds (uninterrupted w) = fds w" "inodes (uninterrupted w) = inodes w"
  "script w = Fail EINTR # s \<Longrightarrow> uninterrupted w = uninterrupted (w\<lparr>script := s\<rparr>)"
  by (simp_all add: uninterrupted_def)

lemma uninterrupted_modify: "modify_inode i f (uninterrupted w) = uninterrupted (modify_inode i f w)"
  by (simp add: uninterrupted_def modify_inode_def)

lemma pop_uninterrupted:
  "pop w = (oc, u) \<Longrightarrow> \<forall>s. script w \<noteq> Fail EINTR # s \<Longrightarrow> pop (uninterrupted w) = (oc, uninterrupted u)"
  by (auto simp: pop_def uninterrupted_def split: list.splits)

lemma skips_interrupted:
  "skips d call \<Longrightarrow> fds w d \<noteq> None \<Longrightarrow> script w = Fail EINTR # s \<Longrightarrow> call w = (Inl EINTR, w\<lparr>script := s\<rparr>)"
  unfolding skips_def by blast

lemma skips_other:
  assumes "skips d call" "fds w d \<noteq> None" "\<forall>s. script w \<noteq> Fail EINTR # s" "call w = (r, v)"
  shows "call (uninterrupted w) = (r, uninterrupted v)" "fds v = fds w"
  using assms unfolding skips_def by blast+

lemma skips_calls:
  "skips d (sys_fstat d)" "skips d (sys_ftruncate d n)" "skips d (sys_fdatasync d)"
  "skips d (sys_pread d k p)" "skips d (sys_pwrite d bs p)"
proof -
  note defs = sys_fstat_def sys_ftruncate_def sys_fdatasync_def sys_pread_def sys_pwrite_def
    Let_def uninterrupted_modify
  have fds: "fds (modify_inode i f u) = fds u" for i f u by (simp add: modify_inode_def)
  have skip: "skips d call"
    if "\<And>w s. fds w d \<noteq> None \<Longrightarrow> script w = Fail EINTR # s \<Longrightarrow> call w = (Inl EINTR, w\<lparr>script := s\<rparr>)"
      "\<And>w oc u r v. fds w d \<noteq> None \<Longrightarrow> pop w = (oc, u) \<Longrightarrow> pop (uninterrupted w) = (oc, uninterrupted u) \<Longrightarrow>
        fds u = fds w \<Longrightarrow> call w = (r, v) \<Longrightarrow> call (uninterrupted w) = (r, uninterrupted v) \<and> fds v = fds w"
    for call :: "os \<Rightarrow> (error + 'b) \<times> os"
    unfolding skips_def
  proof (intro conjI allI impI)
    fix w r v assume a: "fds w d \<noteq> None" "\<forall>s. script w \<noteq> Fail EINTR # s" "call w = (r, v)"
    obtain oc u where p: "pop w = (oc, u)" by force
    have "fds u = fds w" using p by (auto simp: pop_def split: list.splits)
    from that(2) [OF a(1) p pop_uninterrupted [OF p a(2)] this a(3)]
    show "call (uninterrupted w) = (r, uninterrupted v)" "fds v = fds w" by simp_all
  qed (use that(1) in blast)
  show "skips d (sys_fstat d)"
    by (rule skip) (auto simp: defs pop_def, auto simp: defs split: outcome.splits)
  show "skips d (sys_ftruncate d n)"
    by (rule skip) (auto simp: defs pop_def, auto simp: defs fds split: outcome.splits)
  show "skips d (sys_fdatasync d)"
    by (rule skip) (auto simp: defs pop_def, auto simp: defs fds split: outcome.splits)
  show "skips d (sys_pread d k p)"
    by (rule skip) (auto simp: defs pop_def, auto simp: defs split: outcome.splits)
  show "skips d (sys_pwrite d bs p)"
    by (rule skip) (auto simp: defs pop_def, auto simp: defs fds split: outcome.splits)
qed

lemma retry_transparent:
  "consumes call \<Longrightarrow> skips d call \<Longrightarrow> fds w d \<noteq> None \<Longrightarrow> retry call w = (r, w') \<Longrightarrow>
     retry call (uninterrupted w) = (r, uninterrupted w')"
proof (induction call w arbitrary: r w' rule: retry.induct)
  case (1 call w)
  obtain s u where c: "call w = (s, u)" by force
  have r: "(if interrupted s then retry call u else (s, u)) = (r, w')"
    using "1.prems"(4) c retry_unfold [OF "1.prems"(1), of w] by simp
  show ?case
  proof (cases "\<exists>s'. script w = Fail EINTR # s'")
    case True
    then obtain s' where s': "script w = Fail EINTR # s'" by blast
    with c have u: "s = Inl EINTR" "u = w\<lparr>script := s'\<rparr>"
      using skips_interrupted [OF "1.prems"(2,3)] by auto
    then have "retry call (uninterrupted u) = (r, uninterrupted w')"
      using r s' "1.prems" by (intro "1.IH" [OF c [symmetric]]) (simp_all add: interrupted_def)
    then show ?thesis using u(2) uninterrupted_fields(3) [OF s'] by simp
  next
    case False
    then have o: "call (uninterrupted w) = (s, uninterrupted u)" "fds u = fds w"
      using skips_other [OF "1.prems"(2,3) _ c] by auto
    show ?thesis
    proof (cases "interrupted s")
      case True
      then have "length (script u) < length (script w)" using "1.prems"(1) c by (auto simp: consumes_def)
      then have "retry call (uninterrupted u) = (r, uninterrupted w')"
        using r True o(2) "1.prems" by (intro "1.IH" [OF c [symmetric]]) simp_all
      then show ?thesis using True o(1) retry_unfold [OF "1.prems"(1), of "uninterrupted w"] by simp
    next
      case no: False
      then show ?thesis using r o(1) retry_unfold [OF "1.prems"(1), of "uninterrupted w"] by simp
    qed
  qed
qed

lemma read_loop_transparent:
  "fds w d \<noteq> None \<Longrightarrow> read_loop d off n acc w = (r, w') \<Longrightarrow>
     read_loop d off n acc (uninterrupted w) = (r, uninterrupted w')"
proof (induction d off n acc w arbitrary: r w' rule: read_loop.induct)
  case (1 d off n acc w)
  show ?case
  proof (cases "length acc < n")
    case False
    then show ?thesis using "1.prems" by (simp add: read_loop.simps [of d off n acc])
  next
    case True
    define k p where "k = min (n - length acc) SSIZE_MAX" and "p = unat (off + of_nat (length acc))"
    obtain s u where c: "sys_pread d k p w = (s, u)" by force
    note IH = "1.IH" [OF True refl c [unfolded k_def p_def, symmetric]]
    have unfold: "read_loop d off n acc x =
      (case sys_pread d k p x of
         (Inl e, x') \<Rightarrow> if e = EINTR then read_loop d off n acc x' else ((Some e, acc), x')
       | (Inr bs, x') \<Rightarrow> if bs = [] then ((None, acc), x') else read_loop d off n (acc @ bs) x')" for x
      using True by (subst read_loop.simps) (simp add: k_def p_def Let_def)
    show ?thesis
    proof (cases "\<exists>s'. script w = Fail EINTR # s'")
      case True
      then obtain s' where s': "script w = Fail EINTR # s'" by blast
      with c have u: "s = Inl EINTR" "u = w\<lparr>script := s'\<rparr>"
        using skips_interrupted [OF skips_calls(4) "1.prems"(1)] by auto
      then have "read_loop d off n acc (uninterrupted u) = (r, uninterrupted w')"
        using "1.prems" c unfold [of w] by (intro IH(1)) simp_all
      then show ?thesis using u(2) uninterrupted_fields(3) [OF s'] by simp
    next
      case False
      then have o: "sys_pread d k p (uninterrupted w) = (s, uninterrupted u)" "fds u = fds w"
        using skips_other [OF skips_calls(4) "1.prems"(1) _ c] by auto
      show ?thesis
        using "1.prems" c o IH unfolding unfold [of w] unfold [of "uninterrupted w"]
        by (auto split: sum.splits if_splits)
    qed
  qed
qed

lemma write_loop_transparent:
  "fds w d \<noteq> None \<Longrightarrow> write_loop d off bs m w = (r, w') \<Longrightarrow>
     write_loop d off bs m (uninterrupted w) = (r, uninterrupted w')"
proof (induction d off bs m w arbitrary: r w' rule: write_loop.induct)
  case (1 d off bs m w)
  show ?case
  proof (cases "m < length bs")
    case False
    then show ?thesis using "1.prems" by (simp add: write_loop.simps [of d off bs m])
  next
    case True
    define b p where "b = block m (min (length bs - m) SSIZE_MAX) bs" and "p = unat (off + of_nat m)"
    obtain s u where c: "sys_pwrite d b p w = (s, u)" by force
    note IH = "1.IH" [OF True refl c [unfolded b_def p_def, symmetric]]
    have unfold: "write_loop d off bs m x =
      (case sys_pwrite d b p x of
         (Inl e, x') \<Rightarrow> if e = EINTR then write_loop d off bs m x' else ((Some e, m), x')
       | (Inr n, x') \<Rightarrow> if n = 0 then ((Some EIO, m), x') else write_loop d off bs (m + n) x')" for x
      using True by (subst write_loop.simps) (simp add: b_def p_def Let_def)
    show ?thesis
    proof (cases "\<exists>s'. script w = Fail EINTR # s'")
      case True
      then obtain s' where s': "script w = Fail EINTR # s'" by blast
      with c have u: "s = Inl EINTR" "u = w\<lparr>script := s'\<rparr>"
        using skips_interrupted [OF skips_calls(5) "1.prems"(1)] by auto
      then have "write_loop d off bs m (uninterrupted u) = (r, uninterrupted w')"
        using "1.prems" c unfold [of w] by (intro IH(1)) simp_all
      then show ?thesis using u(2) uninterrupted_fields(3) [OF s'] by simp
    next
      case False
      then have o: "sys_pwrite d b p (uninterrupted w) = (s, uninterrupted u)" "fds u = fds w"
        using skips_other [OF skips_calls(5) "1.prems"(1) _ c] by auto
      show ?thesis
        using "1.prems" c o IH unfolding unfold [of w] unfold [of "uninterrupted w"]
        by (auto split: sum.splits if_splits)
    qed
  qed
qed

lemma transfers_transparent:
  assumes "fds w (fd f) \<noteq> None"
  shows "transparent (timelite_file_read (Some f) off (Some ()) n (Some ())) w"
    "transparent (timelite_file_write (Some f) off (Some bs) n (Some ())) w"
  using read_loop_transparent [OF assms, of off n "[]"] write_loop_transparent [OF assms, of off "take n bs" 0]
  by (auto simp: transparent_def timelite_file_read_def timelite_file_write_def split: option.splits prod.splits)

lemma retries_transparent:
  assumes "fds w (fd f) \<noteq> None"
  shows "transparent (timelite_file_truncate (Some f) sz) w" "transparent (timelite_file_sync (Some f)) w"
    "transparent (timelite_file_size (Some f) (Some ())) w"
  using retry_transparent [OF sys_consumes(3) skips_calls(2) assms, of "unat sz"]
    retry_transparent [OF sys_consumes(4) skips_calls(3) assms]
    retry_transparent [OF sys_consumes(2) skips_calls(1) assms]
  by (auto simp: transparent_def timelite_file_truncate_def timelite_file_sync_def timelite_file_size_def Let_def
      split: option.splits prod.splits sum.splits)

lemma transfers_not_EINTR:
  assumes "fd f \<ge> 0"
  shows "fst (fst (timelite_file_read (Some f) off (Some ()) n (Some ()) w)) \<noteq> Some EINTR"
    "fst (fst (timelite_file_write (Some f) off (Some bs) n (Some ()) w)) \<noteq> Some EINTR"
proof -
  show "fst (fst (timelite_file_read (Some f) off (Some ()) n (Some ()) w)) \<noteq> Some EINTR"
    using assms read_loop_final [of "fd f" off n "[]" w EINTR]
    by (cases "read_loop (fd f) off n [] w")
      (auto simp: timelite_file_read_def check_transfer_def check_file_def split: option.splits)
  show "fst (fst (timelite_file_write (Some f) off (Some bs) n (Some ()) w)) \<noteq> Some EINTR"
    using assms write_loop_final [of "fd f" off "take n bs" 0 w EINTR]
    by (cases "write_loop (fd f) off (take n bs) 0 w")
      (auto simp: timelite_file_write_def check_transfer_def check_file_def split: option.splits)
qed

lemma retries_not_EINTR:
  assumes "fd f \<ge> 0"
  shows "fst (timelite_file_truncate (Some f) sz w) \<noteq> Some EINTR" "fst (timelite_file_sync (Some f) w) \<noteq> Some EINTR"
    "fst (timelite_file_size (Some f) (Some ()) w) \<noteq> Inl EINTR"
proof -
  show "fst (timelite_file_truncate (Some f) sz w) \<noteq> Some EINTR"
    using assms retry_final_Inl [OF sys_consumes(3), of "fd f" "unat sz" w]
    by (auto simp: timelite_file_truncate_def check_file_def split: prod.splits sum.splits)
  show "fst (timelite_file_sync (Some f) w) \<noteq> Some EINTR"
    using assms retry_final_Inl [OF sys_consumes(4), of "fd f" w]
    by (auto simp: timelite_file_sync_def check_file_def split: prod.splits sum.splits)
  show "fst (timelite_file_size (Some f) (Some ()) w) \<noteq> Inl EINTR"
    using assms retry_final_Inl [OF sys_consumes(2), of "fd f" w]
    by (auto simp: timelite_file_size_def check_file_def Let_def split: prod.splits sum.splits)
qed

section \<open>Provisioning\<close>

text \<open>What the checks of provisioning keep: the entries, the descriptors and the inodes' identities.\<close>

definition same_names :: "os \<Rightarrow> os \<Rightarrow> bool" where
  "same_names w w' \<longleftrightarrow> entries w' = entries w \<and> fds w' = fds w \<and> inodes w' = inodes w"

lemma same_files_names: "same_files w w' \<Longrightarrow> same_names w w' \<and> synced_entries w' = synced_entries w"
  by (auto simp: same_names_def dest: same_files_fields)

lemma sys_fstatat_ok:
  assumes "sys_fstatat dir name w = (Inr (True, i), w')"
  shows "same_files w w'" "entries w (dir, name) = Some (Entry i)"
proof -
  obtain oc u where pop: "pop w = (oc, u)" by force
  have same: "same_files w u" using pop by (rule same_files_pop)
  show "same_files w w'" "entries w (dir, name) = Some (Entry i)"
    using assms pop same same_files_fields [OF same]
    by (auto simp: sys_fstatat_def split: outcome.splits option.splits dirent.splits)
qed

lemma retry_fsync_dir_ok:
  assumes "retry (sys_fsync_dir dir) w = (Inr (), w')"
  shows "same_names w w'" "synced_entries w' (dir, name) = entries w (dir, name)"
proof -
  have step: "same_names u v" if "sys_fsync_dir dir u = (r, v)" for u v r
    using that same_files_fields [OF same_files_pop [of u]]
    by (auto simp: sys_fsync_dir_def same_names_def Let_def split: prod.splits outcome.splits)
  have "\<exists>u. same_names w u \<and> sys_fsync_dir dir u = (Inr (), w')"
  proof (rule retry_last [OF assms])
    show "same_names w w" by (simp add: same_names_def)
    fix u v assume "same_names w u" "sys_fsync_dir dir u = (Inl EINTR, v)"
    then show "same_names w v" using step by (auto simp: same_names_def)
  qed
  then obtain u where u: "same_names w u" "sys_fsync_dir dir u = (Inr (), w')" by blast
  from step [OF u(2)] u(1) show "same_names w w'" by (simp add: same_names_def)
  show "synced_entries w' (dir, name) = entries w (dir, name)"
    using u same_files_fields [OF same_files_pop [of u]]
    by (auto simp: sys_fsync_dir_def same_names_def Let_def split: prod.splits outcome.splits)
qed

lemma provision_identify_ok:
  assumes "provision_identify d dir name w = ((None, n), w')" "fds w d = Some i"
  shows "n = i" "same_files w w'" "entries w (dir, name) = Some (Entry i)"
    "i_fs (inodes w i) \<in> {0xef53, 0x58465342, 0x9123683e}"
proof -
  from assms(1) obtain info u v where a: "sys_fstat d w = (Inr (n, info), u)"
      "sys_fstatat dir name u = (Inr (True, n), v)" "\<exists>t. sys_fstatfs d v = (Inr t, w') \<and>
       (t = 0xef53 \<or> t = 0x58465342 \<or> t = 0x9123683e)"
    by (auto simp: provision_identify_def split: prod.splits sum.splits if_splits)
  from sys_fstat_effect [OF a(1) assms(2)] have n: "n = i" and wu: "same_files w u" by auto
  note b = sys_fstatat_ok [OF a(2)]
  have wv: "same_files w v" using wu b(1) by (rule same_files_trans)
  show "n = i" by fact
  show "entries w (dir, name) = Some (Entry i)" using b(2) n same_files_fields [OF wu] by simp
  from a(3) obtain t where t: "sys_fstatfs d v = (Inr t, w')" "t \<in> {0xef53, 0x58465342, 0x9123683e}" by auto
  obtain oc x where pop: "pop v = (oc, x)" by force
  have vx: "same_files v x" using pop by (rule same_files_pop)
  have "fds x d = Some i" "inodes x = inodes w"
    using same_files_fields [OF wv] same_files_fields [OF vx] assms(2) by simp_all
  then have "w' = x" "t = i_fs (inodes w i)"
    using t(1) pop by (auto simp: sys_fstatfs_def split: outcome.splits)
  then show "same_files w w'" using same_files_trans [OF wv vx] by simp
  note \<open>t = i_fs (inodes w i)\<close>
  with t(2) show "i_fs (inodes w i) \<in> {0xef53, 0x58465342, 0x9123683e}" by simp
qed

lemma provision_steps:
  assumes "timelite_file_provision (Some f) (Some p) w = (None, w')"
  obtains u0 u1 u2 u3 u4 n where "sys_opendir (fst (split_path p)) w = (Inr (fst (split_path p)), u0)"
    "provision_identify (fd f) (fst (split_path p)) (snd (split_path p)) u0 = ((None, n), u1)"
    "timelite_file_sync (Some f) u1 = (None, u2)"
    "retry (sys_fsync_dir (fst (split_path p))) u2 = (Inr (), u3)"
    "provision_recheck n (fst (split_path p)) (snd (split_path p)) u3 = (None, u4)"
    "errno_of (sys_closedir (fst (split_path p)) u4) = (None, w')"
  using assms
  by (auto simp: timelite_file_provision_def Let_def unless_error_def errno_of_def sys_opendir_def
      split: prod.splits option.splits sum.splits if_splits outcome.splits)

lemma provision_ok:
  assumes "timelite_file_provision (Some f) (Some p) w = (None, w')" "opened w f i"
  shows "entries w' (split_path p) = Some (Entry i)" "synced_entries w' (split_path p) = Some (Entry i)"
    "i_synced (inodes w' i) = i_data (inodes w' i)" "i_data (inodes w' i) = i_data (inodes w i)"
    "i_fs (inodes w' i) \<in> {0xef53, 0x58465342, 0x9123683e}"
proof -
  from assms(1) obtain u0 u1 u2 u3 u4 n where s:
    "sys_opendir (fst (split_path p)) w = (Inr (fst (split_path p)), u0)"
    "provision_identify (fd f) (fst (split_path p)) (snd (split_path p)) u0 = ((None, n), u1)"
    "timelite_file_sync (Some f) u1 = (None, u2)"
    "retry (sys_fsync_dir (fst (split_path p))) u2 = (Inr (), u3)"
    "provision_recheck n (fst (split_path p)) (snd (split_path p)) u3 = (None, u4)"
    "errno_of (sys_closedir (fst (split_path p)) u4) = (None, w')"
    by (rule provision_steps)
  have k: "(fst (split_path p), snd (split_path p)) = split_path p" by simp
  have 0: "same_files w u0"
    using s(1) same_files_pop [of w] by (auto simp: sys_opendir_def split: prod.splits outcome.splits if_splits)
  have fd: "fds u0 (fd f) = Some i" using same_files_fields [OF 0] assms(2) by (simp add: opened_def)
  note 1 = provision_identify_ok [OF s(2) fd]
  have w1: "same_files w u1" using 0 1(2) by (rule same_files_trans)
  have o1: "opened u1 f i" using same_files_fields [OF w1] assms(2) by (simp add: opened_def)
  have 2: "changed i (\<lambda>x. x\<lparr>i_synced := i_data x\<rparr>) u1 u2"
    using timelite_file_sync_effect [OF s(3) o1] by simp
  note c2 = changed_fields [OF 2] and 3 = retry_fsync_dir_ok [OF s(4)]
  obtain m where m: "sys_fstatat (fst (split_path p)) (snd (split_path p)) u3 = (Inr (True, n), m)" "m = u4"
    using s(5) by (auto simp: provision_recheck_def split: prod.splits sum.splits if_splits)
  note 4 = sys_fstatat_ok [OF m(1)]
  have 5: "same_files u4 w'"
    using s(6) same_files_pop [of u4]
    by (auto simp: errno_of_def sys_closedir_def split: prod.splits outcome.splits)
  have w5: "same_files u3 w'" using 4(1) 5 m(2) same_files_trans by blast
  note f5 = same_files_fields [OF w5] and f1 = same_files_fields [OF w1]
  show "entries w' (split_path p) = Some (Entry i)" using 4(2) f5 1(1) by (simp add: k)
  show "synced_entries w' (split_path p) = Some (Entry i)"
    using 3(2) [of "snd (split_path p)"] f5 c2 f1 1(1,3) same_files_fields [OF 0] by (simp add: k)
  have "inodes w' = inodes u2" using f5 3(1) by (simp add: same_names_def)
  then show "i_synced (inodes w' i) = i_data (inodes w' i)" "i_data (inodes w' i) = i_data (inodes w i)"
    "i_fs (inodes w' i) \<in> {0xef53, 0x58465342, 0x9123683e}"
    using c2 f1 1(4) same_files_fields [OF 0] by simp_all
qed

section \<open>Locks\<close>

lemma lock_cases:
  assumes "timelite_file_lock (Some f) w = (e, w')" "opened w f i"
  shows "(e = None \<and> lock_owner w' i = Some (fd f) \<and> (lock_owner w i = None \<or> lock_owner w i = Some (fd f)) \<and>
      (\<forall>j. j \<noteq> i \<longrightarrow> lock_owner w' j = lock_owner w j)) \<or>
    (e \<noteq> None \<and> lock_owner w' = lock_owner w)"
proof -
  obtain oc u where pop: "pop w = (oc, u)" by force
  have same: "same_files w u" using pop by (rule same_files_pop)
  show ?thesis
    using assms pop same_files_fields [OF same]
    by (auto simp: timelite_file_lock_def check_file_def opened_def sys_flock_def split: outcome.splits if_splits)
qed

section \<open>Properties\<close>

text \<open>
  C25. A read that succeeds returned exactly the bytes of the file at its offset, as many as the file
  has up to the length asked for, however the operating system split the transfer; no read, failed or
  not, changes a file.
\<close>

theorem file_read_exact:
  assumes "timelite_file_read (Some f) off (Some ()) n (Some ()) w = ((e, bs), w')" "is_opened w f"
  shows "fdata w' = fdata w \<and> fsynced w' = fsynced w \<and>
    (e = None \<longrightarrow> bs = block (unat off) n (fdata w f) \<and> unat off + n < 2 ^ 63)"
proof -
  obtain i where "opened w f i" using assms(2) by (auto simp: is_opened_iff)
  from timelite_file_read_effect [OF assms(1) this] show ?thesis
    using same_files_views [of w w'] by (auto simp: in_off_t_def)
qed

theorem file_read_exact_witness:
  "\<exists>e w'. timelite_file_read (Some \<lparr>fd = 4\<rparr>) 1 (Some ()) 2 (Some ())
     ((sample_os [] [5, 6, 7, 8])\<lparr>script := [Fail EINTR, Short 1]\<rparr>) = ((None, [6, 7]), w')"
proof -
  let ?w = "(sample_os [] [5, 6, 7, 8])\<lparr>script := [Fail EINTR, Short 1]\<rparr>"
  obtain e bs w' where r: "timelite_file_read (Some \<lparr>fd = 4\<rparr>) 1 (Some ()) 2 (Some ()) ?w = ((e, bs), w')"
    by (metis surj_pair)
  moreover have o: "is_opened ?w \<lparr>fd = 4\<rparr>" "fdata ?w \<lparr>fd = 4\<rparr> = [5, 6, 7, 8]"
    by (simp_all add: is_opened_def fdata_def sample_os_def Let_def)
  moreover have "e = None"
    using r by (simp add: timelite_file_read_def check_transfer_def check_file_def read_loop.simps
        sys_pread_def pop_def sample_os_def block_def word_less_nat_alt Let_def)
  ultimately show ?thesis
    using file_read_exact [OF r o(1)] by (simp add: block_def)
qed

text \<open>
  C26. A write that succeeds stored every byte at its offset and reported their number; a write that
  fails stored a prefix of them; neither makes anything durable, and no other file changes.
\<close>

theorem file_write_prefix:
  assumes "timelite_file_write (Some f) off (Some bs) (length bs) (Some ()) w = ((e, k), w')" "is_opened w f"
  shows "fsynced w' = fsynced w \<and> (\<forall>g. \<not> posix_alias w f g \<longrightarrow> fdata w' g = fdata w g) \<and>
    (\<exists>n \<le> length bs. fdata w' f = overwrite (unat off) (take n bs) (fdata w f) \<and>
       (e = None \<longrightarrow> n = length bs \<and> k = length bs))"
  using posix_write_views [of f off bs w e k w'] assms by (simp add: posix_write_def)

theorem file_write_prefix_witness:
  "\<exists>w'. timelite_file_write (Some \<lparr>fd = 4\<rparr>) 5 (Some [1, 2]) (length [1, 2 :: byte]) (Some ())
     ((sample_os [] [5, 6, 7, 8])\<lparr>script := [Short 1, Fail EINTR]\<rparr>) = ((None, 2), w') \<and>
     fdata w' \<lparr>fd = 4\<rparr> = [5, 6, 7, 8, 0, 1, 2] \<and> fsynced w' \<lparr>fd = 4\<rparr> = [5, 6, 7, 8]"
proof -
  let ?w = "(sample_os [] [5, 6, 7, 8])\<lparr>script := [Short 1, Fail EINTR]\<rparr>"
  obtain e k w' where r: "timelite_file_write (Some \<lparr>fd = 4\<rparr>) 5 (Some [1, 2]) (length [1, 2 :: byte]) (Some ()) ?w =
      ((e, k), w')" by (metis surj_pair)
  have o: "is_opened ?w \<lparr>fd = 4\<rparr>" "fdata ?w \<lparr>fd = 4\<rparr> = [5, 6, 7, 8]" "fsynced ?w \<lparr>fd = 4\<rparr> = [5, 6, 7, 8]"
    by (simp_all add: is_opened_def fdata_def fsynced_def sample_os_def Let_def)
  have "e = None"
    using r by (simp add: timelite_file_write_def check_transfer_def check_file_def write_loop.simps
        sys_pwrite_def pop_def sample_os_def block_def word_less_nat_alt modify_inode_def Let_def)
  then show ?thesis
    using file_write_prefix [OF r o(1)] r o by (auto simp: overwrite_def)
qed

text \<open>
  C27. Interrupted reads, writes, truncations, syncs and size queries are made again.  Removing from the
  script every interruption that hits a system call before its effect leaves result and state as they
  were, for any number of interruptions at any places; and no interruption, also none after the effect,
  ever surfaces as \<open>EINTR\<close>.  (The lock and the close are single calls without a loop.)
\<close>

theorem interruptions_hidden:
  assumes "opened w f i"
  shows "transparent (timelite_file_read (Some f) off (Some ()) n (Some ())) w \<and>
    transparent (timelite_file_write (Some f) off (Some bs) n (Some ())) w \<and>
    transparent (timelite_file_truncate (Some f) sz) w \<and>
    transparent (timelite_file_sync (Some f)) w \<and>
    transparent (timelite_file_size (Some f) (Some ())) w \<and>
    fst (fst (timelite_file_read (Some f) off (Some ()) n (Some ()) w)) \<noteq> Some EINTR \<and>
    fst (fst (timelite_file_write (Some f) off (Some bs) n (Some ()) w)) \<noteq> Some EINTR \<and>
    fst (timelite_file_truncate (Some f) sz w) \<noteq> Some EINTR \<and>
    fst (timelite_file_sync (Some f) w) \<noteq> Some EINTR \<and>
    fst (timelite_file_size (Some f) (Some ()) w) \<noteq> Inl EINTR"
proof -
  have "fds w (fd f) \<noteq> None" "fd f \<ge> 0" using assms by (simp_all add: opened_def)
  then show ?thesis
    by (intro conjI transfers_transparent retries_transparent transfers_not_EINTR retries_not_EINTR)
qed

theorem interruptions_hidden_witness:
  "timelite_file_write (Some \<lparr>fd = 4\<rparr>) 0 (Some [1, 2, 3]) 3 (Some ())
      (uninterrupted ((sample_os [] [])\<lparr>script := [Fail EINTR, Short 1, Fail EINTR, Fail EINTR]\<rparr>)) =
    map_prod id uninterrupted (timelite_file_write (Some \<lparr>fd = 4\<rparr>) 0 (Some [1, 2, 3]) 3 (Some ())
      ((sample_os [] [])\<lparr>script := [Fail EINTR, Short 1, Fail EINTR, Fail EINTR]\<rparr>)) \<and>
   uninterrupted ((sample_os [] [])\<lparr>script := [Fail EINTR, Short 1, Fail EINTR, Fail EINTR]\<rparr>) =
     (sample_os [] [])\<lparr>script := [Short 1]\<rparr>"
proof -
  let ?w = "(sample_os [] [])\<lparr>script := [Fail EINTR, Short 1, Fail EINTR, Fail EINTR]\<rparr>"
  have "opened ?w \<lparr>fd = 4\<rparr> 1" by (simp add: opened_def sample_os_def)
  from interruptions_hidden [OF this, of 0 3 "[1, 2, 3]" 0]
  show ?thesis by (auto simp: transparent_def uninterrupted_def split: prod.splits)
qed

text \<open>
  C28. A lock has one owner: while another open file description holds the lock of a file, the
  non-blocking lock never succeeds and changes no lock (without faults it reports \<open>EBUSY\<close>).
\<close>

theorem lock_exclusive:
  assumes "opened w f i" "lock_owner w i = Some d" "d \<noteq> fd f"
  shows "fst (timelite_file_lock (Some f) w) \<noteq> None \<and>
    lock_owner (snd (timelite_file_lock (Some f) w)) = lock_owner w \<and>
    (script w = [] \<longrightarrow> timelite_file_lock (Some f) w = (Some EBUSY, w))"
proof -
  have "timelite_file_lock (Some f) w = (Some EBUSY, w)" if "script w = []"
    using assms that by (simp add: timelite_file_lock_def check_file_def opened_def sys_flock_def)
  moreover obtain e w' where l: "timelite_file_lock (Some f) w = (e, w')" by force
  ultimately show ?thesis using lock_cases [OF l assms(1)] assms(2,3) by auto
qed

theorem lock_exclusive_witness:
  "timelite_file_lock (Some \<lparr>fd = 6\<rparr>) ((sample_os [] [])\<lparr>fds := [3 \<mapsto> 0, 6 \<mapsto> 0]\<rparr>) =
     (Some EBUSY, (sample_os [] [])\<lparr>fds := [3 \<mapsto> 0, 6 \<mapsto> 0]\<rparr>)"
  using lock_exclusive [of "(sample_os [] [])\<lparr>fds := [3 \<mapsto> 0, 6 \<mapsto> 0]\<rparr>" "\<lparr>fd = 6\<rparr>" 0 3]
  by (simp add: opened_def sample_os_def)

text \<open>
  C32. A provisioned file is durable under its name: when provisioning succeeds, the directory entry of
  the path is the opened inode itself, a regular file reached without a symbolic link; the entry and
  the file's bytes are synced, its bytes are unchanged, and it lies on a supported filesystem.
\<close>

theorem provision_durable:
  assumes "timelite_file_provision (Some f) (Some p) w = (None, w')" "opened w f i"
  shows "entries w' (split_path p) = Some (Entry i) \<and> synced_entries w' (split_path p) = Some (Entry i) \<and>
    i_synced (inodes w' i) = i_data (inodes w' i) \<and> i_data (inodes w' i) = i_data (inodes w i) \<and>
    i_fs (inodes w' i) \<in> {0xef53, 0x58465342, 0x9123683e}"
  using provision_ok [OF assms] by simp

theorem provision_durable_witness:
  "\<exists>w'. timelite_file_provision (Some \<lparr>fd = 4\<rparr>) (Some ''wal'') (sample_os [] [1]) = (None, w') \<and>
     synced_entries w' (''.'', ''wal'') = Some (Entry 1)"
proof -
  have k: "split_path ''wal'' = (''.'', ''wal'')" by (simp add: split_path_def)
  have "\<exists>w'. timelite_file_provision (Some \<lparr>fd = 4\<rparr>) (Some ''wal'') (sample_os [] [1]) = (None, w')"
    by (simp add: timelite_file_provision_def k check_file_def sys_opendir_def provision_identify_def
        sys_fstat_def sys_fstatat_def sys_fstatfs_def unless_error_def timelite_file_sync_def sys_fdatasync_def
        retry_uninterrupted interrupted_def sys_fsync_dir_def provision_recheck_def errno_of_def
        sys_closedir_def sample_os_def modify_inode_def Let_def)
  then obtain w' where p: "timelite_file_provision (Some \<lparr>fd = 4\<rparr>) (Some ''wal'') (sample_os [] [1]) = (None, w')"
    by blast
  have "opened (sample_os [] [1]) \<lparr>fd = 4\<rparr> 1" by (simp add: opened_def sample_os_def)
  from provision_durable [OF p this] p show ?thesis by (auto simp: k)
qed

end
