(* ===== verification/TL_Segments.thy ===== *)
theory TL_Segments
  imports TL_Frames
begin

text \<open>
  The chain of installed segments in \<open>timelite.c\<close>: the skip links (\<open>low_bit\<close>, \<open>segment_at\<close>), the
  choice of the newest manifest (\<open>read_manifests\<close>), the validation of the whole chain
  (\<open>check_segments\<close>), and the copying that retention does (\<open>segment_expires\<close>, \<open>copy_segments\<close>,
  \<open>finish_retention\<close>).
\<close>

section \<open>The lowest set bit\<close>

text \<open>\<open>for (bit = 0; (UINT64_C(1) << bit) != low_bit(n); bit++)\<close>\<close>

definition link_bit :: "u64 \<Rightarrow> nat" where
  "link_bit n = length (takeWhile (\<lambda>b. push_bit b 1 \<noteq> low_bit n) [0..<64])"

lemma odd_and_minus: 
  fixes m :: u64
  assumes "odd m" shows "m AND - m = 1"
proof -
  have "m - 1 = push_bit 1 (drop_bit 1 m)"
  proof -
    have "m = 2 * (m div 2) + 1" using mult_div_mod_eq [of 2 m] assms by (simp add: odd_iff_mod_2_eq_one)
    then have "m - 1 = 2 * (m div 2)" by (metis add_diff_cancel_right')
    also have "\<dots> = push_bit 1 (drop_bit 1 m)" by (simp add: push_bit_eq_mult drop_bit_eq_div)
    finally show ?thesis .
  qed
  then have "- m = NOT (push_bit 1 (drop_bit 1 m))"
    by (metis minus_eq_not_minus_1)
  then show ?thesis
  proof -
    assume neg: "- m = NOT (push_bit 1 (drop_bit 1 m))"
    have "bit m 0" using assms by (simp add: bit_0)
    then have "bit (m AND - m) i = bit (1 :: u64) i" if "i < 64" for i
      using that by (cases i) (simp_all add: neg bit_and_iff bit_not_iff bit_push_bit_iff bit_drop_bit_eq bit_1_iff del: push_bit_of_1 push_bit_Suc)
    then show ?thesis by (intro bit_word_eqI) simp
  qed
qed

lemma low_bit_push: "odd m \<Longrightarrow> k < 64 \<Longrightarrow> low_bit (push_bit k m) = push_bit k 1"
proof -
  assume m: "odd m"
  have "NOT (push_bit k m) + 1 = push_bit k (- m)"
    by (metis minus_eq_not_plus_1 mult_minus_left push_bit_eq_mult)
  then have "low_bit (push_bit k m) = push_bit k (m AND - m)"
    by (simp add: low_bit_def push_bit_and)
  then show ?thesis using odd_and_minus [OF m] by simp
qed

lemma trailing_zeros:
  fixes n :: u64
  assumes "n \<noteq> 0" 
  shows "\<exists>k<64. \<exists>m. odd m \<and> n = push_bit k m"
proof -
  from assms obtain j where "bit n j" by (auto simp: bit_eq_iff)
  define k where "k = (LEAST j. bit n j)"
  have b: "bit n k" unfolding k_def using \<open>bit n j\<close> by (rule LeastI)
  have l: "\<not> bit n i" if "i < k" for i using that unfolding k_def by (rule not_less_Least)
  have "odd (drop_bit k n)" using b by (simp add: bit_iff_odd_drop_bit)
  moreover have "n = push_bit k (drop_bit k n)"
  proof (rule bit_word_eqI)
    fix i assume "i < LENGTH(64)"
    then show "bit n i = bit (push_bit k (drop_bit k n)) i"
      using l by (cases "i < k") (auto simp: bit_simps not_less)
  qed
  moreover have "k < 64" using b bit_imp_le_length by fastforce
  ultimately show ?thesis by blast
qed


lemma power_of_two_eq: "k < 64 \<Longrightarrow> (2 :: u64) ^ j = 2 ^ k \<longleftrightarrow> j = k"
proof
  assume k: "k < 64" and eq: "(2 :: u64) ^ j = 2 ^ k"
  have "bit ((2 :: u64) ^ k) k" using k by (simp add: bit_exp_iff)
  then have "bit ((2 :: u64) ^ j) k" unfolding eq .
  then show "j = k" by (simp add: bit_exp_iff)
qed simp

lemma link_bit_push: "odd m \<Longrightarrow> k < 64 \<Longrightarrow> link_bit (push_bit k m) = k"
proof -
  assume m: "odd m" "k < 64"
  have "[0..<64] = [0..<k] @ k # [Suc k..<64]"
    using m(2) upt_add_eq_append [of 0 k "64 - k"] by (simp add: upt_conv_Cons del: upt.simps)
  then show ?thesis
    using m by (simp add: link_bit_def low_bit_push takeWhile_append power_of_two_eq del: upt.simps)
qed

lemma low_bit_props:
  assumes "n \<noteq> 0"
  shows "low_bit n \<noteq> 0" "low_bit n \<le> n" "push_bit (link_bit n) 1 = low_bit n" "link_bit n < 64"
    "2 ^ link_bit n \<le> unat n"
proof -
  obtain k m where n: "n = push_bit k m" and m: "odd m" "k < 64"
    using trailing_zeros [OF assms] by blast
  show b: "push_bit (link_bit n) 1 = low_bit n" "link_bit n < 64"
    using n m by (simp_all add: link_bit_push low_bit_push)
  show "low_bit n \<le> n" by (simp add: low_bit_def word_and_le2)
  have u: "unat (low_bit n) = 2 ^ link_bit n"
  proof -
    have "low_bit n = of_nat (2 ^ link_bit n)" using b(1) by (simp add: push_bit_eq_mult)
    moreover have "(2 :: nat) ^ link_bit n < 2 ^ 64" using b(2) by (intro power_strict_increasing) simp_all
    ultimately show ?thesis by (simp only: unat_of_nat take_bit_nat_eq_self len_bit0 len_num1) simp
  qed
  then show "low_bit n \<noteq> 0" by (metis power_not_zero unat_0 zero_neq_numeral)
  show "2 ^ link_bit n \<le> unat n" 
    using \<open>low_bit n \<le> n\<close> u by (simp add: word_le_nat_alt)
qed

section \<open>Finding a segment by its ordinal\<close>

text \<open>The walk from the first segment that files with old headers, which carry no links, need.\<close>

function segment_walk ::
  "timelite_file \<Rightarrow> u64 \<Rightarrow> u64 \<Rightarrow> u64 \<Rightarrow> u64 \<Rightarrow> os \<Rightarrow> (error + u64 \<times> segment_info) \<times> os" where
  "segment_walk file end target n current w =
     (case read_segment file current end w of
        (Inl e, w') \<Rightarrow> (Inl e, w')
      | (Inr segment, w') \<Rightarrow>
          if n < target then segment_walk file end target (n + 1) (current + segment_extent segment) w'
          else (Inr (current, segment), w'))"
  by pat_completeness auto
termination
proof (relation "measure (\<lambda>(file, end, target, n, current, w). unat target - unat n)", simp, goal_cases)
  case (1 f e target n current w r w' segment)
  then have "unat n < unat target" by (simp add: word_less_nat_alt)
  moreover have "unat (n + 1) = unat n + 1"
    using calculation u64_bound [of target] by (subst u64_add) simp_all
  ultimately show ?case by simp
qed

declare segment_walk.simps [simp del]

function segment_at ::
  "timelite_file \<Rightarrow> u64 \<Rightarrow> u64 \<Rightarrow> u64 \<Rightarrow> u64 \<Rightarrow> os \<Rightarrow> (error + u64 \<times> segment_info) \<times> os" where
  "segment_at file end n current target w =
     (if n = 0 then (Inl INVALID_DATABASE, w)
      else
        (case read_segment file current end w of
           (Inl e, w') \<Rightarrow> (Inl e, w')
         | (Inr segment, w') \<Rightarrow>
             if n = target then (Inr (current, segment), w')
             else if seg_header_size segment = 32
             then segment_walk file end target 1 TIMELITE_DATA_START w'
             else if n - low_bit n \<ge> target
             then segment_at file end (n - low_bit n) (seg_skip segment) target w'
             else segment_at file end (n - 1) (seg_previous segment) target w'))"
  by pat_completeness auto
termination
proof (relation "measure (\<lambda>(file, end, n, current, target, w). unat n)", simp, goal_cases)
  case (1 f e n current target w r w' segment)
  then show ?case
    using low_bit_props(1,2) [of n] by (simp add: u64_arith word_le_nat_alt unat_eq_0 unat_gt_0)
next
  case (2 f e n current target w r w' segment)
  then have "0 < unat n" by (simp add: unat_gt_0)
  then show ?case by (simp add: u64_arith)
qed

declare segment_at.simps [simp del]

section \<open>The newest manifest\<close>

record manifest_view =
  mv_legacy :: bool
  mv_generation :: u64
  mv_data_end :: u64
  mv_last :: u64
  mv_last_time :: u64
  mv_tail :: u64
  mv_has_time :: bool
  mv_state :: retention_state

definition empty_view :: "u64 \<Rightarrow> manifest_view" where
  "empty_view file_size =
     \<lparr>mv_legacy = (file_size = 32), mv_generation = 0, mv_data_end = TIMELITE_DATA_START, mv_last = 0,
      mv_last_time = 0, mv_tail = 0, mv_has_time = False,
      mv_state = \<lparr>rs_revision = 0, rs_root = 160, rs_phase = 0, rs_enabled = False\<rparr>\<rparr>"

text \<open>Generation, data end and last sequence of a slot that passes one of the two checks.\<close>

definition slot_fields :: "bytes \<Rightarrow> u64 \<Rightarrow> (u64 \<times> u64 \<times> u64) option" where
  "slot_fields slot file_size =
     (if retention_manifest slot file_size
      then Some (ucast (decode32 (drop 52 slot)), decode64 (drop 16 slot), decode64 (drop 24 slot))
      else check_manifest slot file_size)"

text \<open>One round of the loop over the two slots, after the read.\<close>

definition consider_slot :: "nat \<Rightarrow> bytes \<Rightarrow> u64 \<Rightarrow> bool \<times> manifest_view \<Rightarrow> bool \<times> manifest_view" where
  "consider_slot index slot file_size fv =
     (case fv of (found, v) \<Rightarrow>
        (let revision = decode64 (drop 8 slot)
         in if length slot \<noteq> 64 then (found, v)
            else if revision AND 1 \<noteq> of_nat index then (found, v)
            else (case slot_fields slot file_size of
                    None \<Rightarrow> (found, v)
                  | Some (g, d, l) \<Rightarrow>
                      if \<not> found \<or> revision > rs_revision (mv_state v) then
                        (let enabled = has_magic slot ''TLRETAIN''
                         in (True, v\<lparr>mv_generation := g, mv_data_end := d, mv_last := l,
                                     mv_last_time := decode64 (drop 32 slot),
                                     mv_tail := (if enabled then ucast (decode32 (drop 40 slot))
                                                 else decode64 (drop 40 slot)),
                                     mv_has_time := (enabled \<or> decode32 (drop 48 slot) = 7),
                                     mv_state := \<lparr>rs_revision = revision,
                                       rs_root = (if enabled then ucast (decode32 (drop 44 slot)) else 160),
                                       rs_phase = (if enabled then decode32 (drop 56 slot) else 0),
                                       rs_enabled = enabled\<rparr>\<rparr>))
                      else (True, v))))"

definition read_slot :: "timelite_file \<Rightarrow> nat \<Rightarrow> os \<Rightarrow> (error + bytes) \<times> os" where
  "read_slot file index w =
     (case timelite_file_read (Some file) (32 + 64 * of_nat index) (Some ()) 64 (Some ()) w of
        ((Some e, _), w) \<Rightarrow> (Inl e, w)
      | ((None, slot), w) \<Rightarrow> (Inr slot, w))"

definition read_manifests :: "timelite_file \<Rightarrow> u64 \<Rightarrow> os \<Rightarrow> (error + manifest_view) \<times> os" where
  "read_manifests database file_size w =
     (if file_size = 32 then (Inr (empty_view file_size), w)
      else io_bind (read_slot database 0) (\<lambda>slot0.
             io_bind (read_slot database 1) (\<lambda>slot1 w.
               (let (found, v) = consider_slot 1 slot1 file_size
                                   (consider_slot 0 slot0 file_size (False, empty_view file_size))
                in if \<not> found \<and> file_size > TIMELITE_DATA_START then (Inl INVALID_DATABASE, w)
                   else (Inr v, w)))) w)"

section \<open>Validation of the chain\<close>

record chain =
  ch_offset :: u64
  ch_previous :: u64
  ch_sequence :: u64
  ch_prior_max :: u64
  ch_span_start :: u64
  ch_live :: u64
  ch_offsets :: "u64 list"
  ch_segment :: "segment_info option"

definition chain_start :: "u64 \<Rightarrow> chain" where
  "chain_start root =
     \<lparr>ch_offset = root, ch_previous = 0, ch_sequence = 0, ch_prior_max = 0, ch_span_start = 1,
      ch_live = 0, ch_offsets = replicate 24 0, ch_segment = None\<rparr>"

text \<open>\<open>for (j = 0; j <= bit; j++) offsets[j] = offset;\<close>\<close>

definition link_offsets :: "nat \<Rightarrow> u64 \<Rightarrow> u64 list \<Rightarrow> u64 list" where
  "link_offsets b offset offsets = replicate (b + 1) offset @ drop (b + 1) offsets"

text \<open>The body of the loop of \<open>check_segments\<close> after the header of segment \<open>n\<close> is read.\<close>

definition check_link :: "bool \<Rightarrow> u64 \<Rightarrow> segment_info \<Rightarrow> chain \<Rightarrow> error + chain" where
  "check_link enabled n segment c =
     (if ch_sequence c = UINT64_MAX \<or> seg_first segment \<le> ch_sequence c \<or>
         (\<not> enabled \<and> seg_first segment \<noteq> ch_sequence c + 1)
      then Inl INVALID_DATABASE
      else if seg_header_size segment = 64 \<and>
              (seg_previous segment \<noteq> ch_previous c \<or> seg_skip segment \<noteq> ch_offsets c ! link_bit n)
      then Inl INVALID_DATABASE
      else Inr (c\<lparr>ch_span_start :=
                    (if seg_header_size segment = 64 then
                       (if \<not> seg_ordered segment then n + 1
                        else if seg_minimum segment < ch_prior_max c then n
                        else ch_span_start c)
                     else n + 1),
                  ch_prior_max := (if seg_header_size segment = 64 then seg_maximum segment else 0),
                  ch_offsets := link_offsets (link_bit n) (ch_offset c) (ch_offsets c),
                  ch_previous := ch_offset c,
                  ch_live := ch_live c + (seg_last segment - seg_first segment + 1),
                  ch_sequence := seg_last segment,
                  ch_offset := ch_offset c + segment_extent segment,
                  ch_segment := Some segment\<rparr>))"

function check_links ::
  "timelite_file \<Rightarrow> u64 \<Rightarrow> bool \<Rightarrow> u64 \<Rightarrow> u64 \<Rightarrow> chain \<Rightarrow> os \<Rightarrow> (error + chain) \<times> os" where
  "check_links database data_end enabled generation n c w =
     (if n \<le> generation then
        (case read_segment database (ch_offset c) data_end w of
           (Inl e, w') \<Rightarrow> (Inl e, w')
         | (Inr segment, w') \<Rightarrow>
             (case check_link enabled n segment c of
                Inl e \<Rightarrow> (Inl e, w')
              | Inr c' \<Rightarrow> check_links database data_end enabled generation (n + 1) c' w'))
      else (Inr c, w))"
  by pat_completeness auto

lemma check_link_InrD:
  assumes "check_link enabled n s c = Inr c'"
  shows "ch_offset c' = ch_offset c + segment_extent s" "ch_sequence c' = seg_last s"
    "ch_segment c' = Some s" "ch_sequence c < seg_first s"
    "ch_offsets c' = link_offsets (link_bit n) (ch_offset c) (ch_offsets c)"
    "ch_previous c' = ch_offset c" "\<not> enabled \<Longrightarrow> seg_first s = ch_sequence c + 1"
    "ch_live c' = ch_live c + (seg_last s - seg_first s + 1)"
    "seg_header_size s = 64 \<Longrightarrow> seg_previous s = ch_previous c \<and> seg_skip s = ch_offsets c ! link_bit n"
  using assms by (auto simp: check_link_def not_le split: if_splits)

lemma read_segment_advance:
  assumes "read_segment f off end w = (Inr s, w')"
  shows "unat (off + segment_extent s) = unat off + unat (segment_extent s)"
    "unat off + unat (segment_extent s) \<le> unat end" "unat off < unat off + unat (segment_extent s)"
proof -
  note r = read_segment_InrD [OF assms]
  show "unat off + unat (segment_extent s) \<le> unat end" by (fact r(3))
  then show "unat (off + segment_extent s) = unat off + unat (segment_extent s)"
    using u64_bound [of "end"] by (intro u64_add) simp
  show "unat off < unat off + unat (segment_extent s)" using r(4) by simp
qed

termination check_links
proof (relation "measure (\<lambda>(database, data_end, enabled, generation, n, c, w).
      unat data_end - unat (ch_offset c))", simp, goal_cases)
  case (1 f e enabled generation n c w r w' segment c')
  then have "read_segment f (ch_offset c) e w = (Inr segment, w')" by simp
  note a = read_segment_advance [OF this]
  have "ch_offset c' = ch_offset c + segment_extent segment"
    using 1 check_link_InrD(1) by simp
  then show ?case using a by simp
qed

declare check_links.simps [simp del]

text \<open>The timestamp of record \<open>i\<close> of the frame in the scratch buffer.\<close>

definition frame_time :: "bytes \<Rightarrow> nat \<Rightarrow> u64" where
  "frame_time bytes i = decode64 (drop (36 + i * 20) bytes)"

text \<open>
  \<open>check_segments\<close>: the tail, the last timestamp, the first segment of the ordered suffix and the
  number of live batches.
\<close>

definition check_segments ::
  "timelite_file \<Rightarrow> u64 \<Rightarrow> u64 \<Rightarrow> u64 \<Rightarrow> u64 \<Rightarrow> u64 \<Rightarrow> bool \<Rightarrow> retention_state \<Rightarrow> os
     \<Rightarrow> (error + u64 \<times> u64 \<times> u64 \<times> u64) \<times> os" where
  "check_segments database generation data_end last_seq tail last_time has_time state =
     io_bind (check_links database data_end (rs_enabled state) generation 1 (chain_start (rs_root state)))
       (\<lambda>c w.
         if ch_offset c \<noteq> data_end \<or> ch_sequence c > last_seq \<or>
            (\<not> rs_enabled state \<and> ch_sequence c \<noteq> last_seq) \<or> (has_time \<and> tail \<noteq> ch_previous c)
         then (Inl INVALID_DATABASE, w)
         else
           (case ch_segment c of
              None \<Rightarrow> (Inr (ch_previous c, last_time, ch_span_start c, ch_live c), w)
            | Some segment \<Rightarrow>
                if seg_ordered segment \<and> \<not> rs_enabled state then
                  (if has_time \<and> last_time \<noteq> seg_maximum segment then (Inl INVALID_DATABASE, w)
                   else (Inr (ch_previous c, seg_maximum segment, ch_span_start c, ch_live c), w))
                else if \<not> has_time then
                  io_bind (scan_frames (\<lambda>bytes len records position time w.
                               (Inr (frame_time bytes (records - 1)), w)) False database data_end
                             (ch_previous c + of_nat (seg_header_size segment)) (seg_first segment) last_time)
                    (\<lambda>(position, sequence, time) w.
                       (Inr (ch_previous c, time, ch_span_start c, ch_live c), w)) w
                else (Inr (ch_previous c, last_time, ch_span_start c, ch_live c), w)))"

section \<open>Copying for retention\<close>

definition segment_expires ::
  "timelite_file \<Rightarrow> u64 \<Rightarrow> segment_info \<Rightarrow> u64 \<Rightarrow> os \<Rightarrow> (error + bool) \<times> os" where
  "segment_expires file offset segment cutoff w =
     (let position = offset + of_nat (seg_header_size segment);
          end = position + ucast (seg_body segment)
      in if seg_header_size segment = 64 \<or> cutoff = 0 then (Inr (seg_maximum segment < cutoff), w)
         else io_bind (scan_frames (\<lambda>bytes len records position expires w.
                           (Inr (expires \<and> (\<forall>i \<in> set [0..<records]. \<not> frame_time bytes i \<ge> cutoff)), w))
                         False file end position (seg_first segment) True)
                (\<lambda>(position, sequence, expires) w.
                   (if sequence - 1 = seg_last segment then Inr expires else Inl INVALID_DATABASE, w)) w)"

record copying =
  cp_destination :: u64
  cp_previous :: u64
  cp_count :: u64
  cp_offsets :: "u64 list"

text \<open>The links of a copied header; an old header is copied as it is.\<close>

definition relink_header :: "nat \<Rightarrow> u64 \<Rightarrow> u64 \<Rightarrow> bytes \<Rightarrow> bytes" where
  "relink_header header_size previous skip header =
     (if header_size = 64 then
        (let header = put 44 (encode64 previous) header;
             header = put 52 (encode64 skip) header
         in put 60 (encode32 (checksum header 60)) header)
      else header)"

text \<open>The body of the loop of \<open>copy_segments\<close> for a segment that is kept.\<close>

definition copy_segment ::
  "timelite_file \<Rightarrow> u64 \<Rightarrow> segment_info \<Rightarrow> copying \<Rightarrow> os \<Rightarrow> (error + copying) \<times> os" where
  "copy_segment file offset segment c =
     (let n = cp_count c + 1; size = seg_header_size segment;
          position = offset + of_nat size; bound = position + ucast (seg_body segment)
      in io_bind (read_exact file offset size) (\<lambda>header.
           io_seq (write_exact file (cp_destination c)
                     (relink_header size (cp_previous c) (cp_offsets c ! link_bit n) header))
             (io_bind (scan_frames (\<lambda>bytes len records position destination.
                           io_seq (write_exact file destination bytes) (\<lambda>w.
                             (Inr (destination + of_nat len), w)))
                         False file bound position (seg_first segment) (cp_destination c + of_nat size))
               (\<lambda>(position, sequence, destination) w.
                  if sequence - 1 \<noteq> seg_last segment then (Inl INVALID_DATABASE, w)
                  else (Inr \<lparr>cp_destination = destination, cp_previous = cp_destination c, cp_count = n,
                             cp_offsets = link_offsets (link_bit n) (cp_destination c) (cp_offsets c)\<rparr>, w)))))"

function copy_loop ::
  "timelite_file \<Rightarrow> u64 \<Rightarrow> bool \<Rightarrow> u64 \<Rightarrow> u64 \<Rightarrow> copying \<Rightarrow> os \<Rightarrow> (error + copying) \<times> os" where
  "copy_loop file end filtering cutoff offset c w =
     (if offset < end then
        (case read_segment file offset end w of
           (Inl e, w') \<Rightarrow> (Inl e, w')
         | (Inr segment, w') \<Rightarrow>
             (case (if filtering then segment_expires file offset segment cutoff w' else (Inr False, w')) of
                (Inl e, w'') \<Rightarrow> (Inl e, w'')
              | (Inr expires, w'') \<Rightarrow>
                  (case (if expires then (Inr c, w'') else copy_segment file offset segment c w'') of
                     (Inl e, w''') \<Rightarrow> (Inl e, w''')
                   | (Inr c', w''') \<Rightarrow>
                       copy_loop file end filtering cutoff (offset + segment_extent segment) c' w''')))
      else (Inr c, w))"
  by pat_completeness auto
termination
proof (relation "measure (\<lambda>(file, end, filtering, cutoff, offset, c, w). unat end - unat offset)", simp, goal_cases)
  case (1 f e filtering cutoff offset c w r w' segment)
  then have "read_segment f offset e w = (Inr segment, w')" by simp
  from read_segment_advance [OF this] show ?case by simp
qed

declare copy_loop.simps [simp del]

definition copy_segments ::
  "timelite_file \<Rightarrow> u64 \<Rightarrow> u64 \<Rightarrow> u64 \<Rightarrow> bool \<Rightarrow> u64 \<Rightarrow> os \<Rightarrow> (error + u64 \<times> u64) \<times> os" where
  "copy_segments file root end destination filtering cutoff =
     io_bind (copy_loop file end filtering cutoff root
                \<lparr>cp_destination = destination, cp_previous = 0, cp_count = 0, cp_offsets = replicate 24 0\<rparr>)
       (\<lambda>c. io_seq (timelite_file_sync (Some file)) (\<lambda>w. (Inr (cp_destination c, cp_previous c), w)))"

text \<open>\<open>finish_retention\<close> from the phase the state records; the new state, data end and tail.\<close>

definition finish_retention ::
  "timelite_file \<Rightarrow> retention_state \<Rightarrow> u64 \<Rightarrow> u64 \<Rightarrow> u64 \<Rightarrow> u64 \<Rightarrow> u64 \<Rightarrow> os
     \<Rightarrow> (error + retention_state \<times> u64 \<times> u64) \<times> os" where
  "finish_retention file state count end last_seq time tail w =
     (if rs_revision state > UINT64_MAX - 2 then (Inl EOVERFLOW, w)
      else
        io_bind (\<lambda>w. if rs_phase state = 2 then
                   io_bind (copy_segments file (rs_root state) end 160 False 0) (\<lambda>(new_end, new_tail).
                     io_bind (publish_retention file state count new_end last_seq time new_tail 160 3)
                       (\<lambda>state w. (Inr (state, new_end, new_tail), w))) w
                 else (Inr (state, end, tail), w))
          (\<lambda>(state, end, tail).
             io_seq (timelite_file_truncate (Some file) (if end = 160 then 161 else end))
               (io_seq (timelite_file_sync (Some file))
                 (io_bind (publish_retention file state count end last_seq time tail 160 0)
                   (\<lambda>state w. (Inr (state, end, tail), w))))) w)"

section \<open>Validation reads only\<close>

lemma reads_only_check_links [reading]: "reads_only (check_links f e en g n c)"
proof (rule reads_onlyI)
  fix w r w' assume "check_links f e en g n c w = (r, w')"
  then show "same_files w w'"
  proof (induction f e en g n c w arbitrary: r w' rule: check_links.induct)
    case (1 f e en g n c w)
    show ?case
    proof (cases "n \<le> g")
      case False
      then show ?thesis using "1.prems" by (subst (asm) check_links.simps) simp
    next
      case True
      obtain x u where rs: "read_segment f (ch_offset c) e w = (x, u)" by force
      note wu = reads_onlyD [OF reads_only_read_segment rs]
      show ?thesis
      proof (cases "\<exists>s c'. x = Inr s \<and> check_link en n s c = Inr c'")
        case False
        then show ?thesis
          using "1.prems" True rs wu by (subst (asm) check_links.simps) (auto split: sum.splits)
      next
        case ok: True
        then obtain s c' where s: "x = Inr s" "check_link en n s c = Inr c'" by blast
        then have "check_links f e en g (n + 1) c' u = (r, w')"
          using "1.prems" True rs by (subst (asm) check_links.simps) simp
        from "1.IH" [OF True rs [symmetric] s this] wu show ?thesis using same_files_trans by blast
      qed
    qed
  qed
qed

lemma reads_only_read_slot [reading]: "reads_only (read_slot f i)"
  by (rule reads_onlyI)
    (auto simp: read_slot_def dest: reads_onlyD [OF reads_only_file_read] split: prod.splits option.splits)

lemma reads_only_read_manifests [reading]: "reads_only (read_manifests f n)"
  unfolding read_manifests_def Let_def case_prod_beta by (intro reading)

lemma reads_only_split [reading]: "(\<And>a b. reads_only (f a b)) \<Longrightarrow> reads_only (case p of (a, b) \<Rightarrow> f a b)"
  by (cases p) simp

lemma reads_only_option [reading]:
  "reads_only m \<Longrightarrow> (\<And>x. reads_only (f x)) \<Longrightarrow> reads_only (\<lambda>w. case p of None \<Rightarrow> m w | Some x \<Rightarrow> f x w)"
  by (cases p) simp_all

lemma reads_only_check_segments [reading]: "reads_only (check_segments f g d l t lt ht st)"
  unfolding check_segments_def by (intro reading)

lemma reads_only_segment_expires [reading]: "reads_only (segment_expires f off s c)"
  unfolding segment_expires_def Let_def by (intro reading)

lemma reads_only_segment_walk [reading]: "reads_only (segment_walk f e t n c)"
proof (rule reads_onlyI)
  fix w r w' assume "segment_walk f e t n c w = (r, w')"
  then show "same_files w w'"
  proof (induction f e t n c w arbitrary: r w' rule: segment_walk.induct)
    case (1 f e t n c w)
    obtain x u where rs: "read_segment f c e w = (x, u)" by force
    note wu = reads_onlyD [OF reads_only_read_segment rs]
    show ?case
      using "1.prems" rs wu "1.IH" [OF rs [symmetric]]
      by (subst (asm) segment_walk.simps) (auto split: sum.splits if_splits intro: same_files_trans)
  qed
qed

lemma reads_only_segment_at [reading]: "reads_only (segment_at f e n c t)"
proof (rule reads_onlyI)
  fix w r w' assume "segment_at f e n c t w = (r, w')"
  then show "same_files w w'"
  proof (induction f e n c t w arbitrary: r w' rule: segment_at.induct)
    case (1 f e n c t w)
    show ?case
    proof (cases "n = 0")
      case True
      then show ?thesis using "1.prems" by (simp add: segment_at.simps)
    next
      case False
      obtain x u where rs: "read_segment f c e w = (x, u)" by force
      note wu = reads_onlyD [OF reads_only_read_segment rs]
      show ?thesis
        using "1.prems" False rs wu "1.IH" [OF False rs [symmetric]]
        by (subst (asm) segment_at.simps)
          (auto split: sum.splits if_splits intro: same_files_trans
            dest: reads_onlyD [OF reads_only_segment_walk])
    qed
  qed
qed

end
