(* ===== verification/TL_Open.thy ===== *)
theory TL_Open
  imports TL_Segments
begin

text \<open>
  Opening and closing a database and WAL pair: \<open>timelite_batches_close\<close> and
  \<open>timelite_batches_open\<close> with its phases, from the argument checks over the creation or validation
  of the pair and the recovery scan of the WAL to the repair and the filled handle.
\<close>

section \<open>Close\<close>

definition close_unless_closed :: "timelite_file \<Rightarrow> os \<Rightarrow> error option \<times> os" where
  "close_unless_closed file w =
     (if is_closed file then (None, w)
      else (case timelite_file_close (Some file) w of ((e, _), w) \<Rightarrow> (e, w)))"

definition timelite_batches_close ::
  "timelite_batches option \<Rightarrow> os \<Rightarrow> (error option \<times> timelite_batches option) \<times> os" where
  "timelite_batches_close db w =
     (case db of
        None \<Rightarrow> ((Some EINVAL, None), w)
      | Some h \<Rightarrow>
          if is_closed (batch_file h False) \<and> is_closed (batch_file h True) then ((Some EBADF, db), w)
          else
            (let (error, w) = close_unless_closed (batch_file h True) w;
                 (second, w) = close_unless_closed (batch_file h False) w
             in ((case error of None \<Rightarrow> second | Some e \<Rightarrow> Some e, snd (timelite_batches_init db)), w)))"

section \<open>Open: acquiring the pair\<close>

text \<open>The label \<open>fail\<close>: the WAL is closed before the database; results of the closes are ignored.\<close>

definition open_fail :: "timelite_file \<Rightarrow> timelite_file \<Rightarrow> os \<Rightarrow> os" where
  "open_fail database wal w =
     (let (_, w) = close_unless_closed wal w;
          (_, w) = close_unless_closed database w
      in w)"

text \<open>
  The branch that creates a pair.  It returns both handles, which \<open>fail\<close> has to close, the error, and
  whether the pair is still one that this call created (a lost race falls back to validation).
\<close>

definition create_pair ::
  "string \<Rightarrow> string \<Rightarrow> timelite_open_mode \<Rightarrow> os
     \<Rightarrow> (error option \<times> timelite_file \<times> timelite_file \<times> bool) \<times> os" where
  "create_pair database_path wal_path mode w =
     (let none = TIMELITE_FILE_INIT
      in case timelite_file_open (Some none) (Some wal_path) w of
           (Inr wal, w) \<Rightarrow> ((Some PAIR_MISMATCH, none, wal, True), w)
         | (Inl e, w) \<Rightarrow>
             if e \<noteq> ENOENT then ((Some e, none, none, True), w)
             else
               (case timelite_file_identity w of
                  (Inl e, w) \<Rightarrow> ((Some e, none, none, True), w)
                | (Inr identity, w) \<Rightarrow>
                    (case timelite_file_create (Some none) (Some database_path) w of
                       (Inl e, w) \<Rightarrow>
                         if e = EEXIST \<and> mode = OPEN_OR_CREATE then
                           (case timelite_file_open (Some none) (Some database_path) w of
                              (Inl e, w) \<Rightarrow> ((Some e, none, none, False), w)
                            | (Inr database, w) \<Rightarrow> ((None, database, none, False), w))
                         else ((Some e, none, none, True), w)
                     | (Inr database, w) \<Rightarrow>
                         (case timelite_file_lock (Some database) w of
                            (Some e, w) \<Rightarrow> ((Some e, database, none, True), w)
                          | (None, w) \<Rightarrow>
                              (case timelite_file_create (Some none) (Some wal_path) w of
                                 (Inl e, w) \<Rightarrow> ((Some e, database, none, True), w)
                               | (Inr wal, w) \<Rightarrow>
                                   (case create_header database ''TIMELITE'' identity True w of
                                      (Some e, w) \<Rightarrow> ((Some e, database, wal, True), w)
                                    | (None, w) \<Rightarrow>
                                        (case create_header wal ''TIMEWAL!'' identity False w of
                                           (error, w) \<Rightarrow> ((error, database, wal, True), w))))))))"

definition acquire_pair ::
  "string \<Rightarrow> string \<Rightarrow> timelite_open_mode \<Rightarrow> os
     \<Rightarrow> (error option \<times> timelite_file \<times> timelite_file \<times> bool) \<times> os" where
  "acquire_pair database_path wal_path mode w =
     (let none = TIMELITE_FILE_INIT
      in if mode = CREATE_NEW then create_pair database_path wal_path mode w
         else (case timelite_file_open (Some none) (Some database_path) w of
                 (Inr database, w) \<Rightarrow> ((None, database, none, False), w)
               | (Inl e, w) \<Rightarrow>
                   if e = ENOENT \<and> mode = OPEN_OR_CREATE then create_pair database_path wal_path mode w
                   else ((Some e, none, none, False), w)))"

text \<open>Locking and the first validation of a database that existed before.\<close>

definition claim_existing :: "timelite_file \<Rightarrow> string \<Rightarrow> os \<Rightarrow> (error + timelite_file) \<times> os" where
  "claim_existing database wal_path =
     io_seq (timelite_file_lock (Some database))
       (io_bind (pair_header database ''TIMELITE'') (\<lambda>header.
          timelite_file_open (Some TIMELITE_FILE_INIT) (Some wal_path)))"

section \<open>Open: validation\<close>

record pair_state =
  op_database_size :: u64
  op_view :: manifest_view
  op_tail :: u64
  op_last_time :: u64
  op_span_start :: u64
  op_live :: u64
  op_wal_size :: u64

definition validate_pair :: "timelite_file \<Rightarrow> timelite_file \<Rightarrow> os \<Rightarrow> (error + pair_state) \<times> os" where
  "validate_pair database wal =
     io_bind (pair_header database ''TIMELITE'') (\<lambda>header.
     io_bind (pair_header wal ''TIMEWAL!'') (\<lambda>wal_header w.
       if block 12 16 header \<noteq> block 12 16 wal_header then (Inl PAIR_MISMATCH, w)
       else
         io_bind (timelite_file_size (Some database) (Some ())) (\<lambda>database_size.
         io_bind (read_manifests database database_size) (\<lambda>v.
         io_bind (check_segments database (mv_generation v) (mv_data_end v) (mv_last v) (mv_tail v)
                    (mv_last_time v) (mv_has_time v) (mv_state v)) (\<lambda>(tail, last_time, span_start, live).
         io_bind (timelite_file_size (Some wal) (Some ())) (\<lambda>wal_size w.
           if wal_size < 32 \<or> wal_size > TIMELITE_WAL_CAPACITY then (Inl INVALID_DATABASE, w)
           else (Inr \<lparr>op_database_size = database_size, op_view = v, op_tail = tail,
                      op_last_time = last_time, op_span_start = span_start, op_live = live,
                      op_wal_size = wal_size\<rparr>, w))))) w))"

section \<open>Open: the recovery scan\<close>

record wal_summary =
  ws_first :: u64
  ws_last :: u64
  ws_minimum :: u64
  ws_maximum :: u64
  ws_ordered :: bool

definition wal_empty :: wal_summary where
  "wal_empty = \<lparr>ws_first = 0, ws_last = 0, ws_minimum = 0, ws_maximum = 0, ws_ordered = True\<rparr>"

text \<open>The body of the loop over the records of a recovered frame.\<close>

definition wal_record :: "bool \<Rightarrow> u64 \<Rightarrow> wal_summary \<Rightarrow> wal_summary" where
  "wal_record first time s =
     (let s = (if first then s\<lparr>ws_first := time, ws_minimum := time, ws_maximum := time\<rparr>
               else if time < ws_last s then s\<lparr>ws_ordered := False\<rparr> else s);
          s = (if time < ws_minimum s then s\<lparr>ws_minimum := time\<rparr> else s);
          s = (if time > ws_maximum s then s\<lparr>ws_maximum := time\<rparr> else s)
      in s\<lparr>ws_last := time\<rparr>)"

definition wal_frame :: "bytes \<Rightarrow> nat \<Rightarrow> nat \<Rightarrow> u64 \<Rightarrow> wal_summary \<Rightarrow> os \<Rightarrow> (error + wal_summary) \<times> os" where
  "wal_frame bytes len records position s w =
     (Inr (foldl (\<lambda>s i. wal_record (position = 32 \<and> i = 0) (frame_time bytes i) s) s [0..<records]), w)"

text \<open>Whether the WAL is stale, and the sequence before its first frame.\<close>

definition wal_start :: "timelite_file \<Rightarrow> u64 \<Rightarrow> u64 \<Rightarrow> os \<Rightarrow> (error + bool \<times> u64) \<times> os" where
  "wal_start wal wal_size installed w =
     (if wal_size > 32 then
        io_bind (read_exact wal 32 32) (\<lambda>header w.
          if \<not> check_frame_header header then (Inl INVALID_DATABASE, w)
          else (let first = decode64 (drop 8 header)
                in if first \<noteq> 0 \<and> first \<le> installed then (Inr (True, first - 1), w)
                   else (Inr (False, installed), w))) w
      else (Inr (False, installed), w))"

text \<open>The end of the last complete frame, its sequence, the summary of the times, and whether stale.\<close>

definition recover_wal ::
  "timelite_file \<Rightarrow> u64 \<Rightarrow> u64 \<Rightarrow> os \<Rightarrow> (error + u64 \<times> u64 \<times> wal_summary \<times> bool) \<times> os" where
  "recover_wal wal wal_size installed =
     io_bind (wal_start wal wal_size installed) (\<lambda>(stale, sequence).
       io_bind (scan_frames wal_frame (\<not> stale) wal wal_size 32 (sequence + 1) wal_empty)
         (\<lambda>(offset, next, s) w.
            if stale \<and> next - 1 \<noteq> installed then (Inl INVALID_DATABASE, w)
            else (Inr (offset, next - 1, s, stale), w)))"

section \<open>Open: repair and the handle\<close>

text \<open>Bytes past the data end that no interrupted install explains.\<close>

definition unexplained_tail :: "pair_state \<Rightarrow> u64 \<Rightarrow> bool \<Rightarrow> bool" where
  "unexplained_tail p sequence stale \<longleftrightarrow>
     (let v = op_view p; state = mv_state v
      in op_database_size p > mv_data_end v \<and> rs_phase state = 0 \<and>
         \<not> (rs_enabled state \<and> mv_generation v = 0 \<and> op_database_size p = 161) \<and>
         (stale \<or> sequence = mv_last v))"

text \<open>Provisioning, the end of an interrupted retention, and the cut of a torn or stale WAL.\<close>

definition repair_pair ::
  "timelite_file \<Rightarrow> timelite_file \<Rightarrow> string \<Rightarrow> string \<Rightarrow> pair_state \<Rightarrow> u64 \<Rightarrow> os
     \<Rightarrow> (error + retention_state \<times> u64 \<times> u64) \<times> os" where
  "repair_pair database wal database_path wal_path p offset =
     (let v = op_view p
      in io_seq (timelite_file_provision (Some database) (Some database_path))
           (io_seq (timelite_file_provision (Some wal) (Some wal_path))
             (io_bind (\<lambda>w. if rs_phase (mv_state v) \<noteq> 0
                        then finish_retention database (mv_state v) (mv_generation v) (mv_data_end v)
                               (mv_last v) (op_last_time p) (op_tail p) w
                        else (Inr (mv_state v, mv_data_end v, op_tail p), w))
               (\<lambda>(state, data_end, tail) w.
                  if offset < op_wal_size p then
                    io_seq (timelite_file_truncate (Some wal) offset)
                      (io_seq (timelite_file_sync (Some wal)) (\<lambda>w. (Inr (state, data_end, tail), w))) w
                  else (Inr (state, data_end, tail), w)))))"

definition opened_handle ::
  "timelite_batches \<Rightarrow> timelite_file \<Rightarrow> timelite_file \<Rightarrow> pair_state \<Rightarrow> u64 \<Rightarrow> u64 \<Rightarrow> wal_summary \<Rightarrow> bool
     \<Rightarrow> retention_state \<times> u64 \<times> u64 \<Rightarrow> timelite_batches" where
  "opened_handle db database wal p offset sequence s stale repaired =
     (case repaired of (state, data_end, tail) \<Rightarrow>
        (let v = op_view p;
             db = batch_set_file db database False;
             db = batch_set_file db wal True
         in reset_cursor
              (db\<lparr>private_end := offset, private_sequence := sequence, private_data_end := data_end,
                  private_installed := mv_last v, private_generation := mv_generation v,
                  private_revision := rs_revision state, private_retention := rs_enabled state,
                  private_live_batches := op_live p,
                  private_last_time := (if \<not> stale \<and> sequence > mv_last v then ws_last s else op_last_time p),
                  private_installed_time := op_last_time p, private_last_segment := tail,
                  private_span_start := op_span_start p, private_wal_first_time := ws_first s,
                  private_wal_minimum := ws_minimum s, private_wal_maximum := ws_maximum s,
                  private_wal_ordered := (stale \<or> ws_ordered s), private_legacy := mv_legacy v,
                  private_failed := False\<rparr>)))"

text \<open>Everything between the acquired pair and the returned handle.\<close>

definition recover_pair ::
  "timelite_batches \<Rightarrow> timelite_file \<Rightarrow> timelite_file \<Rightarrow> string \<Rightarrow> string \<Rightarrow> os
     \<Rightarrow> (error + timelite_batches) \<times> os" where
  "recover_pair db database wal database_path wal_path =
     io_bind (validate_pair database wal) (\<lambda>p.
       io_bind (recover_wal wal (op_wal_size p) (mv_last (op_view p))) (\<lambda>(offset, sequence, s, stale) w.
         if unexplained_tail p sequence stale then (Inl INVALID_DATABASE, w)
         else (let offset = (if stale then 32 else offset)
               in io_bind (repair_pair database wal database_path wal_path p offset) (\<lambda>repaired w.
                    (Inr (opened_handle db database wal p offset sequence s stale repaired), w)) w)))"

definition timelite_batches_open ::
  "timelite_batches option \<Rightarrow> string option \<Rightarrow> string option \<Rightarrow> timelite_open_mode \<Rightarrow> unit option \<Rightarrow> nat
     \<Rightarrow> os \<Rightarrow> (error option \<times> timelite_batches option) \<times> os" where
  "timelite_batches_open db database_path wal_path mode scratch scratch_size w =
     (case (db, database_path, wal_path, scratch) of
        (Some h, Some dp, Some wp, Some ()) \<Rightarrow>
          if dp = [] \<or> wp = [] \<or> dp = wp \<or> \<not> valid_mode mode then ((Some EINVAL, db), w)
          else if \<not> is_closed (batch_file h False) \<or> \<not> is_closed (batch_file h True)
          then ((Some EINVAL, db), w)
          else if scratch_size < TIMELITE_BATCH_SCRATCH then ((Some BUFFER_TOO_SMALL, db), w)
          else
            (case acquire_pair dp wp mode w of
               ((Some e, database, wal, create), w) \<Rightarrow>
                 ((Some e, db), open_fail database wal w)
             | ((None, database, wal, create), w) \<Rightarrow>
                 (case (if create then (Inr wal, w) else claim_existing database wp w) of
                    (Inl e, w) \<Rightarrow> ((Some e, db), open_fail database wal w)
                  | (Inr wal, w) \<Rightarrow>
                      (case recover_pair h database wal dp wp w of
                         (Inl e, w) \<Rightarrow> ((Some e, db), open_fail database wal w)
                       | (Inr h', w) \<Rightarrow> ((None, Some h'), w))))
      | _ \<Rightarrow> ((Some EINVAL, db), w))"

section \<open>Validation reads only\<close>

lemma reads_only_validate_pair [reading]: "reads_only (validate_pair d l)"
  unfolding validate_pair_def by (intro reading)

lemma reads_only_wal_start [reading]: "reads_only (wal_start f n i)"
  unfolding wal_start_def Let_def by (intro reading)

lemma reads_only_wal_frame [reading]: "reads_only (wal_frame b l r p s)"
  by (simp add: reads_only_def wal_frame_def)

lemma reads_only_recover_wal [reading]: "reads_only (recover_wal f n i)"
  unfolding recover_wal_def by (intro reading)

section \<open>Recovery of a WAL\<close>

definition wal_scan :: "bytes \<Rightarrow> nat \<Rightarrow> nat \<Rightarrow> u64 \<Rightarrow> wal_summary \<Rightarrow> wal_summary" where
  "wal_scan bytes len records position s =
     foldl (\<lambda>s i. wal_record (position = 32 \<and> i = 0) (frame_time bytes i) s) s [0..<records]"

lemma wal_frame_scan: "wal_frame b l r p s w = (Inr (wal_scan b l r p s), w)"
  by (simp add: wal_frame_def wal_scan_def)

text \<open>
  The contents of a WAL whose last append may have been interrupted: a header, the frames of the
  committed batches, and the first \<open>k\<close> bytes of the frame of the next batch.
\<close>

definition torn_wal :: "bytes \<Rightarrow> u64 \<Rightarrow> timelite_record list list \<Rightarrow> timelite_record list \<Rightarrow> nat \<Rightarrow> bytes" where
  "torn_wal header installed bs rs k =
     header @ encode_frames (installed + 1) bs @ take k (encode_frame (installed + 1 + of_nat (length bs)) rs)"

lemma read_exact_quiet_short:
  assumes "script w = []" "is_opened w f" "in_off_t off n" "length (fdata w f) < unat off + n" "0 < n"
  shows "read_exact f off n w = (Inl INVALID_DATABASE, w)"
  using posix_live.rd_quiet [OF assms(1-3)] assms(4,5)
  by (auto simp: read_exact_def posix_read_def length_block)

lemma wal_start_current:
  assumes "script w = []" "is_opened w f" "unat installed + 1 < 2 ^ 64" "valid_batch rs"
    and "n = of_nat (length (fdata w f))" "64 \<le> length (fdata w f)" "length (fdata w f) < 2 ^ 32"
    and "block 32 32 (fdata w f) = frame_header (installed + 1) (length rs)"
  shows "wal_start f n installed w = (Inr (False, installed), w)"
proof -
  have n: "unat n = length (fdata w f)" using assms by (simp add: u64_of_nat)
  then have "n > 32" using assms(6) by (simp add: word_less_nat_alt)
  moreover have "read_exact f 32 32 w = (Inr (frame_header (installed + 1) (length rs)), w)"
    using read_exact_quiet [OF assms(1,2), of 32 32] assms(6,8) by (simp add: in_off_t_def)
  moreover have "installed + 1 \<noteq> 0" "\<not> installed + 1 \<le> installed"
    using assms(3) u64_add [of installed 1] by (auto simp: word_le_nat_alt)
  ultimately show ?thesis
    using frame_header_ok [OF assms(4), of "installed + 1"]
    by (simp add: wal_start_def io_bind_def Let_def)
qed

lemma recover_wal_torn:
  assumes "script w = []" "is_opened w f" "unat installed + length bs + 1 < 2 ^ 64"
    and "list_all valid_batch bs" "valid_batch rs" "k < 64 + length rs * 20" "length header = 32"
    and data: "fdata w f = torn_wal header installed bs rs k" and size: "length (fdata w f) < 2 ^ 32"
    and n: "n = of_nat (length (fdata w f))"
  shows "recover_wal f n installed w =
    (if 0 < k \<and> k < 32 then Inl INVALID_DATABASE
     else Inr (of_nat (32 + length (encode_frames (installed + 1) bs)), installed + of_nat (length bs),
               fold_frames wal_scan 32 (installed + 1) bs wal_empty, False), w)"
proof -
  let ?run = "encode_frames (installed + 1) bs" and ?next = "installed + 1 + of_nat (length bs)"
  let ?torn = "take k (encode_frame ?next rs)" and ?m = "32 + length (encode_frames (installed + 1) bs)"
  have len: "length (fdata w f) = ?m + k"
    using data assms(6,7) by (simp add: torn_wal_def)
  have un': "unat n = ?m + k" unfolding n len using size [unfolded len] by (intro u64_of_nat) simp
  have big: "unat n < 2 ^ 32" using un' size len by simp
  have um: "unat (of_nat ?m :: u64) = ?m" using un' big by (intro u64_of_nat) simp
  have run: "block 32 (length ?run) (fdata w f) = ?run"
    using data assms(7) by (simp add: torn_wal_def block_def)
  have torn: "drop ?m (fdata w f) = ?torn"
    using data assms(7) by (simp add: torn_wal_def)
  define scan where "scan = (\<lambda>seq. scan_frames wal_frame True f n 32 seq wal_empty w)"
  have scan: "scan (installed + 1) =
      scan_frames wal_frame True f n (of_nat ?m) ?next (fold_frames wal_scan 32 (installed + 1) bs wal_empty) w"
    unfolding scan_def using run un' big
    by (subst scan_frames_run [where step = wal_frame and g = wal_scan, OF assms(1,2) wal_frame_scan _ assms(4)]) simp_all
  have stop: "scan (installed + 1) =
      (if 0 < k \<and> k < 32 then Inl INVALID_DATABASE
       else Inr (of_nat ?m, ?next, fold_frames wal_scan 32 (installed + 1) bs wal_empty), w)"
  proof (cases "k = 0")
    case True
    then have eq: "of_nat ?m = n" using un' um by (simp only: word_unat_eq_iff)
    show ?thesis unfolding scan eq by (simp add: True scan_frames_end)
  next
    case False
    show ?thesis
    proof (cases "k < 32")
      case True
      then show ?thesis
        using False scan un' um by (simp add: scan_frames_short del: of_nat_add)
    next
      case ge: False
      then have "block ?m 32 (fdata w f) = frame_header ?next (length rs)"
        using torn by (simp add: block_def min_def flip: take_32_encode_frame)
      then show ?thesis
        using scan False ge un' um big assms(6)
        by (simp add: scan_frames_torn [OF assms(1,2,5)] in_off_t_def del: of_nat_add)
    qed
  qed
  show ?thesis
  proof (cases "?m + k < 64 \<and> 0 < k")
    case True
    then have "bs = []" by (cases bs) simp_all
    with True have k: "0 < k" "k < 32" by simp_all
    have "n > 32" using un' k by (simp add: word_less_nat_alt)
    moreover have "read_exact f 32 32 w = (Inl INVALID_DATABASE, w)"
      using un' n True size by (intro read_exact_quiet_short [OF assms(1,2)]) (simp_all add: in_off_t_def u64_of_nat)
    ultimately show ?thesis using k by (simp add: recover_wal_def wal_start_def io_bind_def)
  next
    case False
    have "wal_start f n installed w = (Inr (False, installed), w)"
    proof (cases "bs = [] \<and> k = 0")
      case True
      then show ?thesis using un' by (simp add: wal_start_def word_less_nat_alt)
    next
      case some: False
      obtain r where "valid_batch r" "block 32 32 (fdata w f) = frame_header (installed + 1) (length r)"
      proof (cases bs)
        case Nil
        then show thesis
          using some False assms(5) torn that [of rs]
          by (simp add: block_def min_def flip: take_32_encode_frame)
      next
        case (Cons b bs')
        then show thesis
          using assms(4) that [of b] run block_prefix [OF run, of 32]
          by (simp add: take_32_encode_frame)
      qed
      moreover have "64 \<le> length (fdata w f)"
        using some False un' n size by (cases bs) (simp_all add: u64_of_nat)
      ultimately show ?thesis
        using assms(3) n size by (intro wal_start_current [OF assms(1,2)]) auto
    qed
    moreover have "?next - 1 = installed + of_nat (length bs)" by simp
    ultimately show ?thesis
      using stop by (auto simp: recover_wal_def io_bind_def scan_def del: of_nat_add)
  qed
qed

end
