(* ===== verification/TL_Append.thy ===== *)
theory TL_Append
  imports TL_Open
begin

text \<open>
  The write path of an open pair: the readiness check that every operation starts with, the status
  report, and \<open>timelite_batches_append\<close>, which commits one batch at the end of the WAL.
\<close>

definition batch_ready :: "timelite_batches option \<Rightarrow> error option" where
  "batch_ready db =
     (case db of
        None \<Rightarrow> Some EINVAL
      | Some h \<Rightarrow>
          if is_closed (batch_file h True) then Some EBADF
          else if private_failed h then Some RECOVERY_REQUIRED else None)"

record timelite_batches_status =
  committed_batches :: u64
  installed_batches :: u64
  pending_batches :: u64
  installed_segments :: u64
  wal_bytes :: u64
  installed_bytes :: u64
  last_timestamp_us :: u64

definition timelite_batches_get_status ::
  "timelite_batches option \<Rightarrow> unit option \<Rightarrow> error + timelite_batches_status" where
  "timelite_batches_get_status db status =
     (if status = None then Inl EINVAL
      else (case batch_ready db of
              Some e \<Rightarrow> Inl e
            | None \<Rightarrow>
                (let h = the db
                 in Inr \<lparr>committed_batches = private_live_batches h + (private_sequence h - private_installed h),
                         installed_batches = private_live_batches h,
                         pending_batches = private_sequence h - private_installed h,
                         installed_segments = private_generation h,
                         wal_bytes = private_end h,
                         installed_bytes = private_data_end h - TIMELITE_DATA_START,
                         last_timestamp_us = private_last_time h\<rparr>)))"

section \<open>Append\<close>

text \<open>The loop that refuses a timestamp below its predecessor.\<close>

definition out_of_order :: "timelite_batches \<Rightarrow> timelite_record list \<Rightarrow> bool" where
  "out_of_order h records \<longleftrightarrow>
     (\<exists>i \<in> set [0..<length records].
        (i = 0 \<and> private_sequence h \<noteq> 0 \<and> timestamp_us (records ! i) < private_last_time h) \<or>
        (i \<noteq> 0 \<and> timestamp_us (records ! i) < timestamp_us (records ! (i - 1))))"

text \<open>
  The checks before the first effect.  The caller's array is the list of its \<open>count\<close> records
  (\<open>None\<close> for NULL); \<open>sequence\<close> is the output pointer.
\<close>

definition append_arguments ::
  "timelite_batches option \<Rightarrow> timelite_record list option \<Rightarrow> nat \<Rightarrow> unit option \<Rightarrow> nat \<Rightarrow> unit option
     \<Rightarrow> error option" where
  "append_arguments db records count scratch scratch_size sequence =
     (case batch_ready db of
        Some e \<Rightarrow> Some e
      | None \<Rightarrow>
          (let h = the db
           in if records = None \<or> count = 0 \<or> count > TIMELITE_MAX_RECORDS \<or> scratch = None \<or> sequence = None
              then Some EINVAL
              else if scratch_size < TIMELITE_BATCH_SCRATCH then Some BUFFER_TOO_SMALL
              else if out_of_order h (take count (the records)) then Some OUT_OF_ORDER
              else if of_nat (32 + count * 20 + 32) > TIMELITE_WAL_CAPACITY - private_end h then Some WAL_FULL
              else if private_sequence h = UINT64_MAX then Some EOVERFLOW
              else None))"

text \<open>Body, sync, commit, sync.\<close>

definition append_effects :: "timelite_file \<Rightarrow> u64 \<Rightarrow> bytes \<Rightarrow> bytes \<Rightarrow> os \<Rightarrow> error option \<times> os" where
  "append_effects wal end body commit w =
     (let (error, w) = write_exact wal end body w;
          (error, w) = unless_error error (timelite_file_sync (Some wal)) w;
          (error, w) = unless_error error (write_exact wal (end + of_nat (length body)) commit) w
      in unless_error error (timelite_file_sync (Some wal)) w)"

text \<open>The handle after the last sync.\<close>

definition append_commit :: "timelite_record list \<Rightarrow> u64 \<Rightarrow> timelite_batches \<Rightarrow> timelite_batches" where
  "append_commit rs next h =
     (let first = timestamp_us (hd rs); final = timestamp_us (rs ! (length rs - 1));
          h = h\<lparr>private_failed := False\<rparr>;
          h = (if private_end h = 32
               then h\<lparr>private_wal_first_time := first, private_wal_minimum := first,
                      private_wal_maximum := final\<rparr> else h);
          h = (if first < private_wal_minimum h then h\<lparr>private_wal_minimum := first\<rparr> else h);
          h = (if final > private_wal_maximum h then h\<lparr>private_wal_maximum := final\<rparr> else h)
      in h\<lparr>private_last_time := final,
           private_end := private_end h + of_nat (32 + length rs * 20 + 32),
           private_sequence := next\<rparr>)"

definition timelite_batches_append ::
  "timelite_batches option \<Rightarrow> timelite_record list option \<Rightarrow> nat \<Rightarrow> unit option \<Rightarrow> nat \<Rightarrow> unit option \<Rightarrow> os
     \<Rightarrow> ((error + u64) \<times> timelite_batches option) \<times> os" where
  "timelite_batches_append db records count scratch scratch_size sequence w =
     (case append_arguments db records count scratch scratch_size sequence of
        Some e \<Rightarrow> ((Inl e, db), w)
      | None \<Rightarrow>
          (let h = the db; rs = take count (the records); next = private_sequence h + 1;
               body = frame_body next rs; commit = frame_commit next count body;
               wal = batch_file h True; h = h\<lparr>private_failed := True\<rparr>
           in case append_effects wal (private_end h) body commit w of
                (Some e, w) \<Rightarrow> ((Inl e, Some h), w)
              | (None, w) \<Rightarrow> ((Inr next, Some (append_commit rs next h)), w)))"

section \<open>Rewind\<close>

definition timelite_batches_rewind ::
  "timelite_batches option \<Rightarrow> error option \<times> timelite_batches option" where
  "timelite_batches_rewind db =
     (case batch_ready db of
        Some e \<Rightarrow> (Some e, db)
      | None \<Rightarrow> (None, Some (reset_cursor (the db))))"

section \<open>Exact writes\<close>

lemma u64_eq_offset: "unat s = unat a + n \<Longrightarrow> s = a + of_nat n" for s a :: u64
  by (drule arg_cong [of _ _ "of_nat :: nat \<Rightarrow> u64"]) simp

lemma write_exact_ok:
  "write_exact f off bs w = (None, w') \<Longrightarrow> \<exists>k. posix_write f off bs w = ((None, k), w')"
  by (auto simp: write_exact_def posix_write_def split: prod.splits option.splits if_splits)

lemma write_exact_any: "write_exact f off bs w = (e, w') \<Longrightarrow> \<exists>r. posix_write f off bs w = (r, w')"
  by (auto simp: write_exact_def posix_write_def split: prod.splits option.splits if_splits)

lemma write_exact_quiet:
  assumes "script w = []" "is_opened w f" "in_off_t off (length bs)"
  shows "\<exists>w'. write_exact f off bs w = (None, w') \<and> script w' = []"
proof -
  obtain k u where u: "posix_write f off bs w = ((None, k), u)" "script u = []"
    using posix_live.wr_live [OF assms] by blast
  then show ?thesis using posix.wr_ok [OF assms(2) u(1)] by (simp add: write_exact_def posix_write_def)
qed

text \<open>Two adjacent writes of which the second may have stopped anywhere.\<close>

lemma overwrite_adjacent_take:
  "unat off' = unat off + length a \<Longrightarrow>
     overwrite (unat off') (take n b) (overwrite (unat off) a p) =
     overwrite (unat off) (take (length a + n) (a @ b)) p"
  by (simp add: overwrite_adjacent)

section \<open>The four effects of an append\<close>

lemma append_effects_ok:
  assumes "append_effects f end body commit w = (None, w')" "is_opened w f"
    and "unat end + length body < 2 ^ 64"
  shows "is_opened w' = is_opened w \<and> posix_alias w' = posix_alias w \<and>
    fdata w' f = overwrite (unat end) (body @ commit) (fdata w f) \<and> fsynced w' f = fdata w' f \<and>
    (\<forall>g. \<not> posix_alias w f g \<longrightarrow> fdata w' g = fdata w g \<and> fsynced w' g = fsynced w g)"
proof -
  from assms(1) obtain u v x where a: "write_exact f end body w = (None, u)"
      "timelite_file_sync (Some f) u = (None, v)"
      "write_exact f (end + of_nat (length body)) commit v = (None, x)"
      "timelite_file_sync (Some f) x = (None, w')"
    by (auto simp: append_effects_def unless_error_def split: prod.splits option.splits)
  obtain k l where k: "posix_write f end body w = ((None, k), u)"
    and l: "posix_write f (end + of_nat (length body)) commit v = ((None, l), x)"
    using write_exact_ok [OF a(1)] write_exact_ok [OF a(3)] by blast
  show ?thesis
    using posix.wr_sy_wr_sy [OF assms(2) k a(2) l a(4)] assms(3) by (simp add: u64_offset)
qed

lemma append_effects_quiet:
  assumes "script w = []" "is_opened w f" "in_off_t end (length body + length commit)"
  shows "\<exists>w'. append_effects f end body commit w = (None, w') \<and> script w' = []"
proof -
  have "in_off_t end (length body)" using assms(3) by (simp add: in_off_t_def)
  then obtain u where u: "write_exact f end body w = (None, u)" "script u = []"
    using write_exact_quiet [OF assms(1,2)] by blast
  obtain k where k: "posix_write f end body w = ((None, k), u)" using write_exact_ok [OF u(1)] by blast
  then have ou: "is_opened u f" using posix.wr_frame [OF assms(2) k] assms(2) by simp
  obtain v where v: "timelite_file_sync (Some f) u = (None, v)" "script v = []"
    using posix_live.sy_live [OF u(2) ou] by blast
  have ov: "is_opened v f" using posix.sy_frame [OF ou v(1)] ou by simp
  have "in_off_t (end + of_nat (length body)) (length commit)"
    using assms(3) by (simp add: in_off_t_def u64_offset)
  then obtain x where x: "write_exact f (end + of_nat (length body)) commit v = (None, x)" "script x = []"
    using write_exact_quiet [OF v(2) ov] by blast
  obtain l where l: "posix_write f (end + of_nat (length body)) commit v = ((None, l), x)"
    using write_exact_ok [OF x(1)] by blast
  then have ox: "is_opened x f" using posix.wr_frame [OF ov l] ov by simp
  obtain y where "timelite_file_sync (Some f) x = (None, y)" "script y = []"
    using posix_live.sy_live [OF x(2) ox] by blast
  then show ?thesis using u v x by (simp add: append_effects_def unless_error_def)
qed

text \<open>
  Whatever fails, and wherever: the file holds a prefix of the frame, and no byte of the commit record
  is written before the body is synced.
\<close>

lemma append_effects_any:
  assumes "append_effects f end body commit w = (e, w')" "is_opened w f"
    and "unat end + length body < 2 ^ 64"
  shows "is_opened w' = is_opened w \<and> posix_alias w' = posix_alias w \<and>
    (\<forall>g. \<not> posix_alias w f g \<longrightarrow> fdata w' g = fdata w g \<and> fsynced w' g = fsynced w g) \<and>
    (\<exists>n \<le> length (body @ commit). fdata w' f = overwrite (unat end) (take n (body @ commit)) (fdata w f) \<and>
       (n \<le> length body \<and> fsynced w' f = fsynced w f \<or>
        length body \<le> n \<and> fsynced w' f \<in> {overwrite (unat end) body (fdata w f),
                                            overwrite (unat end) (body @ commit) (fdata w f)}))"
proof -
  let ?off = "end + of_nat (length body)"
  have off: "unat ?off = unat end + length body" using assms(3) by (rule u64_offset)
  obtain e1 u where 1: "write_exact f end body w = (e1, u)" by force
  from write_exact_any [OF 1] obtain r1 where p1: "posix_write f end body w = (r1, u)" by blast
  note f1 = posix.wr_frame [OF assms(2) p1]
  obtain n1 where n1: "n1 \<le> length body" "fdata u f = overwrite (unat end) (take n1 body) (fdata w f)"
    using posix.wr_prefix [OF assms(2) p1] by blast
  show ?thesis
  proof (cases e1)
    case (Some x)
    then have "w' = u" using assms(1) 1 by (simp add: append_effects_def unless_error_def)
    then show ?thesis using f1 n1 by (auto intro!: exI [of _ n1])
  next
    case None
    with 1 obtain k where k: "posix_write f end body w = ((None, k), u)" using write_exact_ok by blast
    have full: "fdata u f = overwrite (unat end) body (fdata w f)" using posix.wr_ok [OF assms(2) k] by simp
    have ou: "is_opened u f" using f1 assms(2) by simp
    obtain e2 v where 2: "timelite_file_sync (Some f) u = (e2, v)" by force
    note f2 = posix.sy_frame [OF ou 2] and s2 = posix.sy_any [OF ou 2]
    show ?thesis
    proof (cases e2)
      case (Some x)
      then have "w' = v" using assms(1) 1 2 None by (simp add: append_effects_def unless_error_def)
      then show ?thesis
        using f1 f2 s2 full by (auto intro!: exI [of _ "length body"])
    next
      case sync: None
      have ov: "is_opened v f" using f2 ou by simp
      have d2: "fsynced v f = fdata u f" using 2 sync posix.sy_ok [OF ou] by simp
      obtain e3 x where 3: "write_exact f ?off commit v = (e3, x)" by force
      from write_exact_any [OF 3] obtain r3 where p3: "posix_write f ?off commit v = (r3, x)" by blast
      note f3 = posix.wr_frame [OF ov p3]
      obtain n3 where n3: "n3 \<le> length commit"
          "fdata x f = overwrite (unat end) (take (length body + n3) (body @ commit)) (fdata w f)"
        using posix.wr_prefix [OF ov p3] f2 full overwrite_adjacent_take [OF off, of _ commit "fdata w f"]
        by auto
      show ?thesis
      proof (cases e3)
        case (Some y)
        then have "w' = x" using assms(1) 1 2 3 None sync by (simp add: append_effects_def unless_error_def)
        then show ?thesis
          using f1 f2 f3 d2 full n3 by (auto intro!: exI [of _ "length body + n3"])
      next
        case wrote: None
        with 3 obtain l where l: "posix_write f ?off commit v = ((None, l), x)" using write_exact_ok by blast
        have whole: "fdata x f = overwrite (unat end) (body @ commit) (fdata w f)"
          using posix.wr_ok [OF ov l] f2 full off by (simp add: overwrite_adjacent)
        have ox: "is_opened x f" using f3 ov by simp
        have 4: "timelite_file_sync (Some f) x = (e, w')"
          using assms(1) 1 2 3 None sync wrote by (simp add: append_effects_def unless_error_def)
        note f4 = posix.sy_frame [OF ox 4] and s4 = posix.sy_any [OF ox 4]
        show ?thesis
          using f1 f2 f3 f4 d2 s4 full whole by (auto intro!: exI [of _ "length (body @ commit)"])
      qed
    qed
  qed
qed

text \<open>
  What the storage may hold after a power loss: the synced bytes, of which any byte may already have
  been replaced by the current one, and any part of a file that has grown or been cut since.
\<close>

definition may_persist :: "bytes \<Rightarrow> bytes \<Rightarrow> bytes \<Rightarrow> bool" where
  "may_persist synced current kept \<longleftrightarrow>
     min (length synced) (length current) \<le> length kept \<and>
     length kept \<le> max (length synced) (length current) \<and>
     (\<forall>i \<in> set [0..<length kept].
        kept ! i = (if i < length synced then synced ! i else 0) \<or> i < length current \<and> kept ! i = current ! i)"

lemma may_persist_prefix:
  assumes "may_persist s c kept" "take n s = p" "take n c = p" "length p = n"
  shows "take n kept = p"
proof (rule nth_equalityI)
  have n: "n \<le> length s" "n \<le> length c"
    using arg_cong [OF assms(2), of length] arg_cong [OF assms(3), of length] assms(4) by simp_all
  then show "length (take n kept) = length p" using assms(1,4) by (auto simp: may_persist_def)
  fix i assume "i < length (take n kept)"
  then have i: "i < n" "i < length kept" by simp_all
  then have "kept ! i = (if i < length s then s ! i else 0) \<or> kept ! i = c ! i"
    using assms(1) [unfolded may_persist_def, THEN conjunct2, THEN conjunct2, rule_format, of i] by auto
  then have "kept ! i = s ! i \<or> kept ! i = c ! i" using i n by simp
  moreover have "s ! i = p ! i" "c ! i = p ! i" using i(1) assms(2,3) nth_take by metis+
  ultimately show "take n kept ! i = p ! i" using i by simp
qed

lemma write_order:
  assumes "may_persist s c kept" "c = old @ take k frame" "frame = body @ commit"
    and "k \<le> length body \<and> s = old \<or> length body \<le> k \<and> s \<in> {old @ body, old @ frame}"
  shows "take (length old) kept = old \<and>
    (length (old @ body) < length kept \<longrightarrow> take (length (old @ body)) kept = old @ body)"
proof (cases "length body \<le> k \<and> s \<in> {old @ body, old @ frame}")
  case True
  then have "take (length (old @ body)) kept = old @ body"
    using assms(2,3) by (intro may_persist_prefix [OF assms(1)]) auto
  moreover from arg_cong [OF this, of "take (length old)"] have "take (length old) kept = old" by simp
  ultimately show ?thesis by simp
next
  case False
  then have k: "k \<le> length body" "s = old" using assms(4) by auto
  then have "take (length old) kept = old"
    using assms(2) by (intro may_persist_prefix [OF assms(1)]) auto
  moreover have "length kept \<le> length (old @ body)"
    using assms(1,2,3) k by (auto simp: may_persist_def)
  ultimately show ?thesis by simp
qed

section \<open>The WAL as a log of batches\<close>

text \<open>
  \<open>wal_view w h bs\<close>: the handle \<open>h\<close> is ready, and the WAL it names holds a header and exactly the
  frames of the committed batches \<open>bs\<close>, numbered from the sequence after the installed one.
\<close>

definition wal_view :: "os \<Rightarrow> timelite_batches \<Rightarrow> timelite_record list list \<Rightarrow> bool" where
  "wal_view w h bs \<longleftrightarrow>
     is_opened w (batch_file h True) \<and> \<not> private_failed h \<and> list_all valid_batch bs \<and>
     (\<exists>header. length header = 32 \<and>
        fdata w (batch_file h True) = header @ encode_frames (private_installed h + 1) bs) \<and>
     unat (private_end h) = length (fdata w (batch_file h True)) \<and>
     unat (private_end h) \<le> unat TIMELITE_WAL_CAPACITY \<and>
     unat (private_sequence h) = unat (private_installed h) + length bs"

lemma batch_file_update [simp]:
  "batch_file (h\<lparr>private_failed := x\<rparr>) b = batch_file h b"
  "batch_file (h\<lparr>private_end := y\<rparr>) b = batch_file h b"
  by (simp_all add: batch_file_def)

lemma append_commit_simps [simp]:
  "batch_file (append_commit rs s h) b = batch_file h b"
  "private_failed (append_commit rs s h) = False"
  "private_installed (append_commit rs s h) = private_installed h"
  "private_sequence (append_commit rs s h) = s"
  "private_end (append_commit rs s h) = private_end h + of_nat (64 + length rs * 20)"
  "private_last_time (append_commit rs s h) = timestamp_us (rs ! (length rs - 1))"
  "private_data_end (append_commit rs s h) = private_data_end h"
  "private_generation (append_commit rs s h) = private_generation h"
  "private_live_batches (append_commit rs s h) = private_live_batches h"
  "private_cursor (append_commit rs s h) = private_cursor h"
  "private_in_wal (append_commit rs s h) = private_in_wal h"
  "private_read_sequence (append_commit rs s h) = private_read_sequence h"
  by (simp_all add: append_commit_def Let_def batch_file_def algebra_simps)

lemma append_arguments_None:
  assumes "append_arguments (Some h) (Some rs) (length rs) scratch n out = None"
  shows "rs \<noteq> []" "length rs \<le> TIMELITE_MAX_RECORDS" "\<not> private_failed h"
    "of_nat (64 + length rs * 20) \<le> TIMELITE_WAL_CAPACITY - private_end h"
    "private_sequence h \<noteq> UINT64_MAX" "\<not> out_of_order h rs"
  using assms
  by (auto simp: append_arguments_def batch_ready_def Let_def not_less algebra_simps split: if_splits)

text \<open>Every call is a rejection without effect, a failure that poisons the handle, or a commit.\<close>

lemma append_cases:
  assumes "timelite_batches_append (Some h) (Some rs) (length rs) scratch n out w = ((r, db'), w')"
  obtains
    (rejected) e where "append_arguments (Some h) (Some rs) (length rs) scratch n out = Some e"
      "r = Inl e" "db' = Some h" "w' = w"
  | (failed) e where "append_arguments (Some h) (Some rs) (length rs) scratch n out = None"
      "append_effects (batch_file h True) (private_end h) (frame_body (private_sequence h + 1) rs)
         (frame_commit (private_sequence h + 1) (length rs) (frame_body (private_sequence h + 1) rs)) w = (Some e, w')"
      "r = Inl e" "db' = Some (h\<lparr>private_failed := True\<rparr>)"
  | (committed) "append_arguments (Some h) (Some rs) (length rs) scratch n out = None"
      "append_effects (batch_file h True) (private_end h) (frame_body (private_sequence h + 1) rs)
         (frame_commit (private_sequence h + 1) (length rs) (frame_body (private_sequence h + 1) rs)) w = (None, w')"
      "r = Inr (private_sequence h + 1)"
      "db' = Some (append_commit rs (private_sequence h + 1) (h\<lparr>private_failed := True\<rparr>))"
  using assms
  by (cases "append_arguments (Some h) (Some rs) (length rs) scratch n out")
    (auto simp: timelite_batches_append_def Let_def split: prod.splits option.splits)

lemma append_fits:
  assumes "append_arguments (Some h) (Some rs) (length rs) scratch n out = None"
    and "unat (private_end h) \<le> unat TIMELITE_WAL_CAPACITY"
  shows "unat (private_end h) + (64 + length rs * 20) \<le> unat TIMELITE_WAL_CAPACITY"
    "unat (private_sequence h + 1) = unat (private_sequence h) + 1"
proof -
  note a = append_arguments_None [OF assms(1)]
  have "unat (of_nat (64 + length rs * 20) :: u64) = 64 + length rs * 20"
    using a(2) by (intro u64_of_nat) simp
  moreover have "unat (TIMELITE_WAL_CAPACITY - private_end h) = unat TIMELITE_WAL_CAPACITY - unat (private_end h)"
    using assms(2) by (simp add: u64_arith)
  ultimately show "unat (private_end h) + (64 + length rs * 20) \<le> unat TIMELITE_WAL_CAPACITY"
    using a(4) assms(2) unfolding word_le_nat_alt by simp
  have "unat (private_sequence h) \<noteq> unat UINT64_MAX"
    using a(5) by (metis word_unat_eq_iff)
  then show "unat (private_sequence h + 1) = unat (private_sequence h) + 1"
    using u64_bound [of "private_sequence h"] by (subst u64_add) simp_all
qed

lemma append_committed_view:
  assumes "wal_view w h bs" "list_all record_in_range rs"
    and "timelite_batches_append (Some h) (Some rs) (length rs) scratch n out w = ((Inr s, Some h'), w')"
  shows "wal_view w' h' (bs @ [rs])" "unat s = unat (private_installed h) + length bs + 1"
    "fsynced w' (batch_file h True) = fdata w' (batch_file h True)" "private_installed h' = private_installed h"
    "fdata w' (batch_file h True) = fdata w (batch_file h True) @ encode_frame s rs"
    "batch_file h' = batch_file h" "private_end h' = private_end h + of_nat (64 + length rs * 20)"
    "\<forall>g. \<not> posix_alias w (batch_file h True) g \<longrightarrow> fdata w' g = fdata w g \<and> fsynced w' g = fsynced w g"
proof -
  note v = assms(1) [unfolded wal_view_def]
  from assms(3) have c: "append_arguments (Some h) (Some rs) (length rs) scratch n out = None"
    "append_effects (batch_file h True) (private_end h) (frame_body s rs)
       (frame_commit s (length rs) (frame_body s rs)) w = (None, w')"
    "s = private_sequence h + 1" "h' = append_commit rs s (h\<lparr>private_failed := True\<rparr>)"
    by (auto elim!: append_cases)
  note a = append_arguments_None [OF c(1)]
  have fit: "unat (private_end h) + (64 + length rs * 20) \<le> unat TIMELITE_WAL_CAPACITY"
    and sq: "unat s = unat (private_sequence h) + 1" using append_fits [OF c(1)] v c(3) by simp_all
  then show s: "unat s = unat (private_installed h) + length bs + 1" using v by simp
  have "unat (private_end h) + length (frame_body s rs) < 2 ^ 64" using fit by simp
  note e = append_effects_ok [OF c(2) _ this]
  have o: "is_opened w (batch_file h True)" using v by simp
  show f: "fdata w' (batch_file h True) = fdata w (batch_file h True) @ encode_frame s rs"
    using e [OF o] v by (simp add: overwrite_end encode_frame_def)
  show "fsynced w' (batch_file h True) = fdata w' (batch_file h True)" using e [OF o] by simp
  show "\<forall>g. \<not> posix_alias w (batch_file h True) g \<longrightarrow> fdata w' g = fdata w g \<and> fsynced w' g = fsynced w g"
    using e [OF o] by simp
  show h': "private_installed h' = private_installed h" "batch_file h' = batch_file h"
    "private_end h' = private_end h + of_nat (64 + length rs * 20)"
    using c(4) by (simp_all add: fun_eq_iff)
  obtain header where header: "length header = 32"
      "fdata w (batch_file h True) = header @ encode_frames (private_installed h + 1) bs" using v by blast
  have "s = private_installed h + 1 + of_nat (length bs)"
    using u64_eq_offset [of s "private_installed h" "1 + length bs"] s by (simp add: add.assoc)
  then have "fdata w' (batch_file h' True) = header @ encode_frames (private_installed h' + 1) (bs @ [rs])"
    using f header h' by (simp add: encode_frames_snoc)
  moreover have "unat (private_end h') = unat (private_end h) + (64 + length rs * 20)"
    unfolding h' using fit by (intro u64_offset) simp
  moreover have "length (fdata w' (batch_file h' True)) = unat (private_end h) + (64 + length rs * 20)"
    unfolding h' f using v by simp
  moreover have "valid_batch rs" using a assms(2) by (simp add: valid_batch_def)
  moreover have "is_opened w' (batch_file h' True)" using e [OF o] o h' by simp
  moreover have "unat (private_sequence h') = unat (private_installed h') + length (bs @ [rs])" "\<not> private_failed h'"
    using s c(4) h' by simp_all
  ultimately show "wal_view w' h' (bs @ [rs])"
    unfolding wal_view_def using v header(1) fit by auto
qed

section \<open>Acceptance\<close>

lemma out_of_order_iff:
  assumes "rs \<noteq> []"
  shows "out_of_order h rs \<longleftrightarrow>
    \<not> sorted (map timestamp_us rs) \<or>
    private_sequence h \<noteq> 0 \<and> timestamp_us (hd rs) < private_last_time h"
proof -
  have "sorted (map timestamp_us rs) \<longleftrightarrow>
      (\<forall>i \<in> set [0..<length rs]. i \<noteq> 0 \<longrightarrow> \<not> timestamp_us (rs ! i) < timestamp_us (rs ! (i - 1)))"
  proof
    assume s: "sorted (map timestamp_us rs)"
    show "\<forall>i \<in> set [0..<length rs]. i \<noteq> 0 \<longrightarrow> \<not> timestamp_us (rs ! i) < timestamp_us (rs ! (i - 1))"
    proof (intro ballI impI)
      fix i assume "i \<in> set [0..<length rs]" "i \<noteq> 0"
      then show "\<not> timestamp_us (rs ! i) < timestamp_us (rs ! (i - 1))"
        using sorted_nth_mono [OF s, of "i - 1" i] by simp
    qed
  next
    assume "\<forall>i \<in> set [0..<length rs]. i \<noteq> 0 \<longrightarrow> \<not> timestamp_us (rs ! i) < timestamp_us (rs ! (i - 1))"
    then show "sorted (map timestamp_us rs)"
      by (fastforce simp: sorted_iff_nth_Suc not_less)
  qed
  moreover have "hd rs = rs ! 0" using assms by (rule hd_conv_nth)
  ultimately show ?thesis
    using assms by (auto simp: out_of_order_def)
qed

lemma append_arguments_ok:
  assumes "batch_ready (Some h) = None" "rs \<noteq> []" "length rs \<le> TIMELITE_MAX_RECORDS"
    and "sorted (map timestamp_us rs)"
    and "private_sequence h = 0 \<or> private_last_time h \<le> timestamp_us (hd rs)"
    and "unat (private_end h) + (64 + length rs * 20) \<le> unat TIMELITE_WAL_CAPACITY"
    and "private_sequence h \<noteq> UINT64_MAX" "TIMELITE_BATCH_SCRATCH \<le> n"
  shows "append_arguments (Some h) (Some rs) (length rs) (Some ()) n (Some ()) = None"
proof -
  have "\<not> out_of_order h rs" using assms(2,4,5) by (auto simp: out_of_order_iff not_less)
  moreover have "of_nat (64 + length rs * 20) \<le> TIMELITE_WAL_CAPACITY - private_end h"
  proof -
    have "unat (of_nat (64 + length rs * 20) :: u64) = 64 + length rs * 20"
      using assms(3) by (intro u64_of_nat) simp
    moreover have "unat (TIMELITE_WAL_CAPACITY - private_end h) = unat TIMELITE_WAL_CAPACITY - unat (private_end h)"
      using assms(6) by (simp add: u64_arith)
    ultimately show ?thesis using assms(6) unfolding word_le_nat_alt by simp
  qed
  ultimately show ?thesis
    using assms by (simp add: append_arguments_def Let_def not_less algebra_simps)
qed

lemma wal_view_ready: "wal_view w h bs \<Longrightarrow> batch_ready (Some h) = None"
  by (simp add: batch_ready_def wal_view_def is_closed_def is_opened_def)

lemma append_live:
  assumes "script w = []" "wal_view w h bs"
    and "append_arguments (Some h) (Some rs) (length rs) (Some ()) n (Some ()) = None"
  shows "\<exists>h' w'. timelite_batches_append (Some h) (Some rs) (length rs) (Some ()) n (Some ()) w =
    ((Inr (private_sequence h + 1), Some h'), w') \<and> script w' = []"
proof -
  let ?b = "frame_body (private_sequence h + 1) rs"
  have v: "is_opened w (batch_file h True)" "unat (private_end h) \<le> unat TIMELITE_WAL_CAPACITY"
    using assms(2) by (simp_all add: wal_view_def)
  have "unat (private_end h) + (64 + length rs * 20) \<le> unat TIMELITE_WAL_CAPACITY"
    using append_fits(1) [OF assms(3) v(2)] .
  then have "in_off_t (private_end h) (length ?b + length (frame_commit (private_sequence h + 1) (length rs) ?b))"
    by (simp add: in_off_t_def)
  from append_effects_quiet [OF assms(1) v(1) this] assms(3) show ?thesis
    by (auto simp: timelite_batches_append_def Let_def)
qed

lemma frame_body_nonempty [simp]: "frame_body s rs \<noteq> []"
  using length_frame_body [of s rs] by (metis add_is_0 list.size(3) zero_neq_numeral)

lemma sample_view: "wal_view (sample_os (replicate 160 0) (replicate 32 0)) sample_handle []"
  unfolding wal_view_def by simp

lemma sample_arguments:
  "append_arguments (Some sample_handle) (Some [sample_record]) (length [sample_record]) (Some ())
     TIMELITE_BATCH_SCRATCH (Some ()) = None"
  by (rule append_arguments_ok)
    (use wal_view_ready [OF sample_view] in \<open>simp_all add: sample_record_def\<close>)

text \<open>An append to the sample pair whose last sync fails without effect.\<close>

lemma sample_sync_fails:
  obtains w' where
    "wal_view ((sample_os (replicate 160 0) (replicate 32 0))\<lparr>script := [Done, Done, Done, Fail EIO]\<rparr>) sample_handle []"
    "fsynced ((sample_os (replicate 160 0) (replicate 32 0))\<lparr>script := [Done, Done, Done, Fail EIO]\<rparr>) \<lparr>fd = 4\<rparr> =
       fdata ((sample_os (replicate 160 0) (replicate 32 0))\<lparr>script := [Done, Done, Done, Fail EIO]\<rparr>) \<lparr>fd = 4\<rparr>"
    "fdata ((sample_os (replicate 160 0) (replicate 32 0))\<lparr>script := [Done, Done, Done, Fail EIO]\<rparr>) \<lparr>fd = 4\<rparr> = replicate 32 0"
    "timelite_batches_append (Some sample_handle) (Some [sample_record]) (length [sample_record])
      (Some ()) TIMELITE_BATCH_SCRATCH (Some ())
      ((sample_os (replicate 160 0) (replicate 32 0))\<lparr>script := [Done, Done, Done, Fail EIO]\<rparr>) =
      ((Inl EIO, Some (sample_handle\<lparr>private_failed := True\<rparr>)), w')"
    "fsynced w' \<lparr>fd = 4\<rparr> = replicate 32 0 @ frame_body 1 [sample_record]"
    "fdata w' \<lparr>fd = 4\<rparr> = replicate 32 0 @ encode_frame 1 [sample_record]"
proof -
  let ?w = "(sample_os (replicate 160 0) (replicate 32 0))\<lparr>script := [Done, Done, Done, Fail EIO]\<rparr>" and ?f = "\<lparr>fd = 4\<rparr>"
  have v: "wal_view ?w sample_handle []"
    using sample_view wal_view_def same_files_views [OF same_files_script] by simp
  have writes: "\<exists>v. write_exact ?f off bs u = (None, v) \<and> script v = s \<and> is_opened v ?f"
    if a: "script u = Done # s" "is_opened u ?f" "unat off < 1000" "0 < length bs" "length bs < 100" for off bs u s
  proof -
    obtain i where i: "fds u 4 = Some i" using a(2) by (auto simp: is_opened_def)
    have "fst (write_exact ?f off bs u) = None \<and> script (snd (write_exact ?f off bs u)) = s"
      using a i by (simp add: write_exact_def timelite_file_write_def check_transfer_def check_file_def
          write_loop.simps [of 4 off bs 0] write_loop.simps [of 4 off bs "length bs"] sys_pwrite_def pop_def Let_def
          modify_inode_def word_less_nat_alt word_le_nat_alt u64_arith block_def)
    then obtain v where v: "write_exact ?f off bs u = (None, v)" "script v = s" by (metis prod.collapse)
    moreover have "is_opened v ?f"
      using write_exact_ok [OF v(1)] posix.wr_frame [OF a(2)] a(2) by fastforce
    ultimately show ?thesis by blast
  qed
  have sync: "\<exists>v. timelite_file_sync (Some ?f) u = (case oc of Fail e \<Rightarrow> Some e | _ \<Rightarrow> None, v) \<and> script v = s \<and> is_opened v ?f
      \<and> (oc = Fail EIO \<longrightarrow> v = u\<lparr>script := s\<rparr>)"
    if "script u = oc # s" "is_opened u ?f" "oc = Done \<or> oc = Fail EIO" for u oc s
    using that by (auto simp: timelite_file_sync_def check_file_def retry.simps [of "sys_fdatasync 4"] sys_fdatasync_def
        pop_def is_opened_def modify_inode_def interrupted_def)
  have o: "is_opened ?w ?f" using v by (simp add: wal_view_def sample_handle_eq batch_file_def)
  let ?b = "frame_body 1 [sample_record]" and ?c = "frame_commit 1 1 (frame_body 1 [sample_record])"
  obtain v1 where 1: "write_exact ?f 32 ?b ?w = (None, v1)" "script v1 = [Done, Done, Fail EIO]" "is_opened v1 ?f"
    using writes [OF _ o, of _ 32 ?b] by auto
  obtain v2 where 2: "timelite_file_sync (Some ?f) v1 = (None, v2)" "script v2 = [Done, Fail EIO]" "is_opened v2 ?f"
    using sync [OF 1(2,3)] by auto
  obtain v3 where 3: "write_exact ?f (32 + of_nat (length ?b)) ?c v2 = (None, v3)" "script v3 = [Fail EIO]" "is_opened v3 ?f"
    using writes [OF 2(2,3), of "32 + of_nat (length ?b)" ?c] by auto
  obtain v4 where 4: "timelite_file_sync (Some ?f) v3 = (Some EIO, v4)" "v4 = v3\<lparr>script := []\<rparr>"
    using sync [OF 3(2,3)] by auto
  have "append_effects ?f 32 ?b ?c ?w = (Some EIO, v4)"
    using 1(1) 2(1) 3(1) 4(1) by (simp add: append_effects_def unless_error_def)
  then have a: "timelite_batches_append (Some sample_handle) (Some [sample_record]) (length [sample_record])
      (Some ()) TIMELITE_BATCH_SCRATCH (Some ()) ?w = ((Inl EIO, Some (sample_handle\<lparr>private_failed := True\<rparr>)), v4)"
    using sample_arguments by (simp add: timelite_batches_append_def Let_def)
  have z: "fdata ?w ?f = replicate 32 0" "fsynced ?w ?f = fdata ?w ?f"
    by (simp_all add: fdata_def fsynced_def sample_os_def Let_def)
  obtain k l where k: "posix_write ?f 32 ?b ?w = ((None, k), v1)"
    and l: "posix_write ?f (32 + of_nat (length ?b)) ?c v2 = ((None, l), v3)"
    using write_exact_ok [OF 1(1)] write_exact_ok [OF 3(1)] by blast
  have b: "fdata v2 ?f = replicate 32 0 @ ?b" "fsynced v2 ?f = replicate 32 0 @ ?b"
    using posix.wr_sy [OF o k 2(1)] z overwrite_end [of "replicate 32 0" ?b] by simp_all
  have "fdata v3 ?f = replicate 32 0 @ encode_frame 1 [sample_record]" "fsynced v3 ?f = replicate 32 0 @ ?b"
    using posix.wr_ok [OF 2(3) l] posix.wr_frame [OF 2(3) l] b overwrite_end [of "replicate 32 0 @ ?b" ?c]
    by (simp_all add: encode_frame_def u64_offset)
  moreover have "fdata v4 ?f = fdata v3 ?f" "fsynced v4 ?f = fsynced v3 ?f"
    unfolding 4(2) by (simp_all add: fdata_def fsynced_def split: option.split)
  ultimately show thesis using that [OF v z(2,1) a] by simp
qed

section \<open>Properties\<close>

text \<open>
  C7. An append that reports success has made the batch part of the log: the WAL holds the frames of
  the old batches followed by the frame of the new one, all of it synced; the sequence returned is
  the next one; and no file but the WAL changed.  This holds whatever short transfers and interrupted
  calls the operating system produced on the way.
\<close>

theorem append_commits:
  assumes "wal_view w h bs" "list_all record_in_range rs"
    and "timelite_batches_append (Some h) (Some rs) (length rs) (Some ()) n (Some ()) w =
      ((Inr s, Some h'), w')"
  shows "wal_view w' h' (bs @ [rs]) \<and> unat s = unat (private_installed h) + length bs + 1 \<and>
    fdata w' (batch_file h True) = fdata w (batch_file h True) @ encode_frame s rs \<and>
    fsynced w' (batch_file h True) = fdata w' (batch_file h True) \<and>
    (\<forall>g. \<not> posix_alias w (batch_file h True) g \<longrightarrow> fdata w' g = fdata w g \<and> fsynced w' g = fsynced w g)"
  using append_committed_view [OF assms] by blast

theorem append_commits_witness:
  "\<exists>h' w'. wal_view w' h' [[sample_record]] \<and>
    fsynced w' (batch_file sample_handle True) = replicate 32 0 @ encode_frame 1 [sample_record]"
proof -
  obtain h' w' where a: "timelite_batches_append (Some sample_handle) (Some [sample_record])
      (length [sample_record]) (Some ()) TIMELITE_BATCH_SCRATCH (Some ())
      (sample_os (replicate 160 0) (replicate 32 0)) = ((Inr (private_sequence sample_handle + 1), Some h'), w')"
    using append_live [OF _ sample_view sample_arguments] by auto
  show ?thesis
    using append_commits [OF sample_view _ a] by (intro exI [of _ h'] exI [of _ w']) simp
qed

text \<open>
  C15. Without faults an append of a well-formed batch succeeds: between 1 and 64 records in
  nondecreasing time order that do not start before the last committed timestamp, room in the WAL,
  a sequence number left, and a scratch buffer of the documented size.
\<close>

theorem append_accepts:
  assumes "script w = []" "wal_view w h bs" "rs \<noteq> []" "length rs \<le> TIMELITE_MAX_RECORDS"
    and "sorted (map timestamp_us rs)"
    and "private_sequence h = 0 \<or> private_last_time h \<le> timestamp_us (hd rs)"
    and "unat (private_end h) + (64 + length rs * 20) \<le> unat TIMELITE_WAL_CAPACITY"
    and "private_sequence h \<noteq> UINT64_MAX" "TIMELITE_BATCH_SCRATCH \<le> n"
  shows "\<exists>h' w'. timelite_batches_append (Some h) (Some rs) (length rs) (Some ()) n (Some ()) w =
    ((Inr (private_sequence h + 1), Some h'), w')"
  using append_live [OF assms(1,2) append_arguments_ok [OF wal_view_ready [OF assms(2)] assms(3-9)]] by blast

theorem append_accepts_witness:
  "\<exists>h' w'. timelite_batches_append (Some sample_handle) (Some [sample_record]) (length [sample_record])
    (Some ()) TIMELITE_BATCH_SCRATCH (Some ()) (sample_os (replicate 160 0) (replicate 32 0)) =
    ((Inr (private_sequence sample_handle + 1), Some h'), w')"
  by (rule append_accepts [OF _ sample_view]) (simp_all add: sample_record_def)

text \<open>
  C19. A batch whose timestamps go backwards, or start before the last committed timestamp, is refused
  with \<open>TIMELITE_OUT_OF_ORDER\<close>: the operating system state and the handle are the ones before, and no
  system call was made.
\<close>

theorem append_rejects_disorder:
  assumes "batch_ready (Some h) = None" "rs \<noteq> []" "length rs \<le> TIMELITE_MAX_RECORDS"
    "TIMELITE_BATCH_SCRATCH \<le> n"
    and "\<not> sorted (map timestamp_us rs) \<or> private_sequence h \<noteq> 0 \<and> timestamp_us (hd rs) < private_last_time h"
  shows "timelite_batches_append (Some h) (Some rs) (length rs) (Some ()) n (Some ()) w =
    ((Inl OUT_OF_ORDER, Some h), w)"
proof -
  have "out_of_order h rs" using assms(2,5) by (simp add: out_of_order_iff)
  then have "append_arguments (Some h) (Some rs) (length rs) (Some ()) n (Some ()) = Some OUT_OF_ORDER"
    using assms by (simp add: append_arguments_def Let_def)
  then show ?thesis by (simp add: timelite_batches_append_def)
qed

theorem append_rejects_disorder_witness:
  "timelite_batches_append (Some sample_handle) (Some [sample_record, sample_record\<lparr>timestamp_us := 999\<rparr>])
     (length [sample_record, sample_record\<lparr>timestamp_us := 999\<rparr>]) (Some ()) TIMELITE_BATCH_SCRATCH (Some ())
     (sample_os [] []) = ((Inl OUT_OF_ORDER, Some sample_handle), sample_os [] [])"
  by (rule append_rejects_disorder)
    (use wal_view_ready [OF sample_view] in \<open>simp_all add: sample_record_def\<close>)

text \<open>
  C14. A failed append is either a rejection that changed nothing, or leaves a handle that every later
  operation refuses with \<open>TIMELITE_RECOVERY_REQUIRED\<close>.  In the second case the WAL holds the old
  bytes and some prefix of the new frame, and no other file changed.  If the WAL was durable before, a
  power loss at any point of the append, with the storage free to have written back any part of what
  was not yet synced, leaves the old bytes in place, and leaves bytes beyond the body only together with
  the complete body: the commit record never becomes durable before the body.
\<close>

theorem append_failure:
  assumes "wal_view w h bs"
    and "timelite_batches_append (Some h) (Some rs) (length rs) scratch n out w = ((Inl e, db'), w')"
  shows "(db' = Some h \<and> w' = w) \<or>
    (\<exists>h'. db' = Some h' \<and> batch_ready (Some h') = Some RECOVERY_REQUIRED \<and>
      (let wal = batch_file h True; old = fdata w wal;
           frame = encode_frame (private_sequence h + 1) rs; body = frame_body (private_sequence h + 1) rs
       in (\<exists>k \<le> length frame. fdata w' wal = old @ take k frame) \<and>
          (fsynced w wal = old \<longrightarrow>
            (\<forall>kept. may_persist (fsynced w' wal) (fdata w' wal) kept \<longrightarrow>
               take (length old) kept = old \<and>
               (length (old @ body) < length kept \<longrightarrow> take (length (old @ body)) kept = old @ body))) \<and>
          (\<forall>g. \<not> posix_alias w wal g \<longrightarrow> fdata w' g = fdata w g \<and> fsynced w' g = fsynced w g)))"
  using assms(2)
proof (cases rule: append_cases)
  case (failed e)
  let ?wal = "batch_file h True" and ?s = "private_sequence h + 1"
  have v: "is_opened w ?wal" "unat (private_end h) = length (fdata w ?wal)"
    "unat (private_end h) \<le> unat TIMELITE_WAL_CAPACITY"
    using assms(1) by (simp_all add: wal_view_def)
  have "unat (private_end h) + length (frame_body ?s rs) < 2 ^ 64"
    using append_fits(1) [OF failed(1) v(3)] by simp
  note a = append_effects_any [OF failed(2) v(1) this]
  have o: "overwrite (unat (private_end h)) xs (fdata w ?wal) = fdata w ?wal @ xs" for xs
    using v(2) by (simp add: overwrite_end)
  have "batch_ready (Some (h\<lparr>private_failed := True\<rparr>)) = Some RECOVERY_REQUIRED"
    using v(1) by (simp add: batch_ready_def is_closed_def is_opened_def)
  moreover obtain k where k: "k \<le> length (encode_frame ?s rs)" "fdata w' ?wal = fdata w ?wal @ take k (encode_frame ?s rs)"
    "k \<le> length (frame_body ?s rs) \<and> fsynced w' ?wal = fsynced w ?wal \<or>
     length (frame_body ?s rs) \<le> k \<and> fsynced w' ?wal \<in> {fdata w ?wal @ frame_body ?s rs, fdata w ?wal @ encode_frame ?s rs}"
    using a unfolding o encode_frame_def by blast
  moreover have "take (length (fdata w ?wal)) kept = fdata w ?wal \<and>
      (length (fdata w ?wal @ frame_body ?s rs) < length kept \<longrightarrow>
       take (length (fdata w ?wal @ frame_body ?s rs)) kept = fdata w ?wal @ frame_body ?s rs)"
    if "fsynced w ?wal = fdata w ?wal" "may_persist (fsynced w' ?wal) (fdata w' ?wal) kept" for kept
    using write_order [OF that(2) k(2) _ k(3) [unfolded that(1)]] by (simp add: encode_frame_def)
  ultimately show ?thesis
    using a failed(4) unfolding Let_def by blast
qed simp_all

text \<open>The last sync of this append fails: the commit record may be lost, the body not.\<close>

theorem append_failure_witness:
  "\<exists>h' w'. timelite_batches_append (Some sample_handle) (Some [sample_record]) (length [sample_record])
      (Some ()) TIMELITE_BATCH_SCRATCH (Some ())
      ((sample_os (replicate 160 0) (replicate 32 0))\<lparr>script := [Done, Done, Done, Fail EIO]\<rparr>) = ((Inl EIO, Some h'), w') \<and>
    batch_ready (Some h') = Some RECOVERY_REQUIRED \<and>
    (\<forall>kept. may_persist (fsynced w' \<lparr>fd = 4\<rparr>) (fdata w' \<lparr>fd = 4\<rparr>) kept \<longrightarrow> 84 < length kept \<longrightarrow>
       take 84 kept = replicate 32 0 @ frame_body 1 [sample_record])"
proof (rule sample_sync_fails)
  let ?w = "(sample_os (replicate 160 0) (replicate 32 0))\<lparr>script := [Done, Done, Done, Fail EIO]\<rparr>" and ?f = "\<lparr>fd = 4\<rparr>"
  fix w' assume v: "wal_view ?w sample_handle []" and s: "fsynced ?w ?f = fdata ?w ?f" "fdata ?w ?f = replicate 32 0"
    and a: "timelite_batches_append (Some sample_handle) (Some [sample_record]) (length [sample_record])
      (Some ()) TIMELITE_BATCH_SCRATCH (Some ()) ?w = ((Inl EIO, Some (sample_handle\<lparr>private_failed := True\<rparr>)), w')"
  have "sample_handle\<lparr>private_failed := True\<rparr> \<noteq> sample_handle" by (simp add: sample_handle_eq)
  then show ?thesis using append_failure [OF v a] a s by (simp add: Let_def)
qed

end
