(* ===== verification/TL_Log.thy ===== *)
theory TL_Log
  imports TL_Prelude
begin

text \<open>
  The contract the batch engine offers its callers, as an interface: a log of batches that grows at
  one end and is read in order by a cursor.  \<open>at w h bs i\<close> says that the state holds the committed
  batches \<open>bs\<close> and that the cursor stands before batch \<open>i\<close>; an operation that fails returns \<open>None\<close>.
  A log that can also be moved to its permanent place, as a checkpoint does, extends the interface.
  What follows from the contract for arbitrary sequences of calls is proved here once.
\<close>

datatype 'b operation = Push 'b | Pull | Flush

text \<open>The specification: what a sequence of operations does to a list and a position in it.\<close>

fun spec_run :: "'b operation list \<Rightarrow> 'b list \<Rightarrow> nat \<Rightarrow> 'b list \<times> 'b list \<times> nat" where
  "spec_run [] bs i = ([], bs, i)"
| "spec_run (Push b # ops) bs i = spec_run ops (bs @ [b]) i"
| "spec_run (Pull # ops) bs i = (case spec_run ops bs (Suc i) of (out, r) \<Rightarrow> (bs ! i # out, r))"
| "spec_run (Flush # ops) bs i = spec_run ops bs i"

text \<open>The implementation: the same operations on a handle and a world, until one fails.\<close>

fun impl_run ::
  "('b \<Rightarrow> 'h \<Rightarrow> 'w \<Rightarrow> ('h \<times> 'w) option) \<Rightarrow> ('h \<Rightarrow> 'w \<Rightarrow> ('b \<times> 'h \<times> 'w) option) \<Rightarrow>
     ('h \<Rightarrow> 'w \<Rightarrow> ('h \<times> 'w) option) \<Rightarrow> 'b operation list \<Rightarrow> 'h \<Rightarrow> 'w \<Rightarrow> ('b list \<times> 'h \<times> 'w) option" where
  "impl_run push pull flush [] h w = Some ([], h, w)"
| "impl_run push pull flush (Push b # ops) h w =
     (case push b h w of None \<Rightarrow> None | Some (h, w) \<Rightarrow> impl_run push pull flush ops h w)"
| "impl_run push pull flush (Pull # ops) h w =
     (case pull h w of
        None \<Rightarrow> None
      | Some (b, h, w) \<Rightarrow>
          (case impl_run push pull flush ops h w of None \<Rightarrow> None | Some (out, r) \<Rightarrow> Some (b # out, r)))"
| "impl_run push pull flush (Flush # ops) h w =
     (case flush h w of None \<Rightarrow> None | Some (h, w) \<Rightarrow> impl_run push pull flush ops h w)"

locale batch_log =
  fixes ok :: "'b \<Rightarrow> bool"
    and at :: "'w \<Rightarrow> 'h \<Rightarrow> 'b list \<Rightarrow> nat \<Rightarrow> bool"
    and push :: "'b \<Rightarrow> 'h \<Rightarrow> 'w \<Rightarrow> ('h \<times> 'w) option"
    and pull :: "'h \<Rightarrow> 'w \<Rightarrow> ('b \<times> 'h \<times> 'w) option"
  assumes push_at: "ok b \<Longrightarrow> at w h bs i \<Longrightarrow> push b h w = Some (h', w') \<Longrightarrow> at w' h' (bs @ [b]) i"
    and pull_at: "at w h bs i \<Longrightarrow> pull h w = Some (b, h', w') \<Longrightarrow> at w' h' bs (Suc i)"
    and pull_nth: "at w h bs i \<Longrightarrow> pull h w = Some (b, h', w') \<Longrightarrow> i < length bs \<and> b = bs ! i"
begin

text \<open>First in, first out: batches appended at the cursor come back in their order.\<close>

lemma push_run:
  "list_all ok cs \<Longrightarrow> at w h bs i \<Longrightarrow> impl_run push pull flush (map Push cs) h w = Some (out, h', w') \<Longrightarrow>
     at w' h' (bs @ cs) i"
proof (induction cs arbitrary: h w bs)
  case (Cons c cs)
  then obtain h1 w1 where p: "push c h w = Some (h1, w1)" "impl_run push pull flush (map Push cs) h1 w1 = Some (out, h', w')"
    by (auto split: option.splits)
  then have "at w1 h1 (bs @ [c]) i" using Cons.prems by (auto intro: push_at)
  from Cons.IH [OF _ this p(2)] Cons.prems show ?case by simp
qed simp

lemma pull_run:
  "at w h bs i \<Longrightarrow> impl_run push pull flush (replicate n Pull) h w = Some (out, h', w') \<Longrightarrow>
     out = take n (drop i bs) \<and> at w' h' bs (i + n)"
proof (induction n arbitrary: h w i out)
  case (Suc n)
  then obtain b h1 w1 ys where p: "pull h w = Some (b, h1, w1)"
      "impl_run push pull flush (replicate n Pull) h1 w1 = Some (ys, h', w')" "out = b # ys"
    by (auto split: option.splits)
  note n = pull_nth [OF Suc.prems(1) p(1)]
  from Suc.IH [OF pull_at [OF Suc.prems(1) p(1)] p(2)] n p(3)
  show ?case by (auto simp: Cons_nth_drop_Suc [symmetric])
qed simp

end

locale installing_log = batch_log ok at push pull
  for ok :: "'b \<Rightarrow> bool" and at :: "'w \<Rightarrow> 'h \<Rightarrow> 'b list \<Rightarrow> nat \<Rightarrow> bool" and push pull +
  fixes flush :: "'h \<Rightarrow> 'w \<Rightarrow> ('h \<times> 'w) option"
  assumes flush_at: "at w h bs i \<Longrightarrow> flush h w = Some (h', w') \<Longrightarrow> at w' h' bs i"
begin

text \<open>
  Simulation: whatever the interleaving of operations, a run that succeeds returns what the
  specification returns and ends in the state the specification ends in.
\<close>

lemma simulates:
  "list_all (\<lambda>op. case op of Push b \<Rightarrow> ok b | _ \<Rightarrow> True) ops \<Longrightarrow> at w h bs i \<Longrightarrow>
     impl_run push pull flush ops h w = Some (out, h', w') \<Longrightarrow>
     case spec_run ops bs i of (out', bs', i') \<Rightarrow> out = out' \<and> at w' h' bs' i'"
proof (induction ops arbitrary: h w bs i out)
  case Nil
  then show ?case by simp
next
  case (Cons op ops)
  show ?case
  proof (cases op)
    case (Push b)
    then obtain h1 w1 where p: "push b h w = Some (h1, w1)" "impl_run push pull flush ops h1 w1 = Some (out, h', w')"
      using Cons.prems by (auto split: option.splits)
    have "at w1 h1 (bs @ [b]) i" using Cons.prems Push p(1) by (auto intro: push_at)
    from Cons.IH [OF _ this p(2)] Cons.prems(1) Push show ?thesis by simp
  next
    case Pull
    then obtain b h1 w1 ys where p: "pull h w = Some (b, h1, w1)" "impl_run push pull flush ops h1 w1 = Some (ys, h', w')"
        "out = b # ys"
      using Cons.prems by (auto split: option.splits)
    from Cons.IH [OF _ pull_at [OF Cons.prems(2) p(1)] p(2)] pull_nth [OF Cons.prems(2) p(1)] Cons.prems(1) Pull p(3)
    show ?thesis by (auto split: prod.splits)
  next
    case Flush
    then obtain h1 w1 where p: "flush h w = Some (h1, w1)" "impl_run push pull flush ops h1 w1 = Some (out, h', w')"
      using Cons.prems by (auto split: option.splits)
    from Cons.IH [OF _ flush_at [OF Cons.prems(2) p(1)] p(2)] Cons.prems(1) Flush show ?thesis by simp
  qed
qed

end

end
