(* ===== verification/TL_Cursor.thy ===== *)
theory TL_Cursor
  imports TL_Append TL_Log
begin

text \<open>
  The read cursor: \<open>read_cursor\<close>, which moves over installed segments and then over the WAL, and
  \<open>timelite_batches_next\<close>.  A cursor is the four cursor fields of the batch handle; the code works on
  a borrowed copy of the handle and copies those fields back on success.
\<close>

text \<open>
  The frame in the scratch buffer with its record count and sequence, and the moved cursor.
  The cursor's fields change only together with a frame.
\<close>

definition read_cursor ::
  "timelite_batches \<Rightarrow> os \<Rightarrow> (error + bytes \<times> nat \<times> u64 \<times> timelite_batches) \<times> os" where
  "read_cursor db =
     (let at_wal = (\<not> private_in_wal db \<and> private_cursor db = private_data_end db);
          in_wal = (private_in_wal db \<or> at_wal);
          cursor = (if at_wal then 32 else private_cursor db);
          expected = (if at_wal then private_installed db + 1 else private_read_sequence db);
          arrive = (\<lambda>cursor segment_end expected (bytes, len, found) w.
                      (Inr (bytes, found, expected,
                            db\<lparr>private_in_wal := in_wal, private_cursor := cursor + of_nat len,
                               private_segment_end := segment_end,
                               private_read_sequence := expected + 1\<rparr>), w))
      in if in_wal then
           (if cursor = private_end db then (\<lambda>w. (Inl END, w))
            else io_bind (read_frame (batch_file db True) cursor (private_end db) expected)
                   (arrive cursor (private_segment_end db) expected))
         else
           io_bind (\<lambda>w. if cursor = private_segment_end db then
                      io_bind (read_segment (batch_file db False) cursor (private_data_end db)) (\<lambda>segment w.
                        if seg_first segment \<noteq> expected \<and>
                           (\<not> private_retention db \<or> seg_first segment < expected)
                        then (Inl INVALID_DATABASE, w)
                        else (let cursor = cursor + of_nat (seg_header_size segment)
                              in (Inr (cursor, cursor + ucast (seg_body segment), seg_first segment), w))) w
                    else (Inr (cursor, private_segment_end db, expected), w))
             (\<lambda>(cursor, segment_end, expected) w.
                (case read_frame (batch_file db False) cursor segment_end expected w of
                   (Inl e, w) \<Rightarrow> (Inl (if e = END then INVALID_DATABASE else e), w)
                 | (Inr frame, w) \<Rightarrow> arrive cursor segment_end expected frame w)))"

definition read_arguments :: "timelite_batches option \<Rightarrow> unit option \<Rightarrow> nat \<Rightarrow> error option" where
  "read_arguments db scratch scratch_size =
     (case batch_ready db of
        Some e \<Rightarrow> Some e
      | None \<Rightarrow>
          if scratch = None then Some EINVAL
          else if scratch_size < TIMELITE_BATCH_SCRATCH then Some BUFFER_TOO_SMALL else None)"

definition copy_cursor :: "timelite_batches \<Rightarrow> timelite_batches \<Rightarrow> timelite_batches" where
  "copy_cursor destination source =
     destination\<lparr>private_cursor := private_cursor source,
                 private_segment_end := private_segment_end source,
                 private_read_sequence := private_read_sequence source,
                 private_in_wal := private_in_wal source\<rparr>"

text \<open>Record \<open>i\<close> of the frame in the scratch buffer.\<close>

definition frame_record :: "bytes \<Rightarrow> nat \<Rightarrow> bytes" where
  "frame_record bytes i = drop (32 + i * 20) bytes"

text \<open>The caller's buffer for records is \<open>None\<close> for NULL; it receives the records returned.\<close>

definition timelite_batches_next ::
  "timelite_batches option \<Rightarrow> unit option \<Rightarrow> nat \<Rightarrow> unit option \<Rightarrow> unit option \<Rightarrow> unit option \<Rightarrow> nat \<Rightarrow> os
     \<Rightarrow> ((error + timelite_record list \<times> u64) \<times> timelite_batches option) \<times> os" where
  "timelite_batches_next db records capacity count sequence scratch scratch_size w =
     (case batch_ready db of
        Some e \<Rightarrow> ((Inl e, db), w)
      | None \<Rightarrow>
          if (records = None \<and> capacity \<noteq> 0) \<or> count = None \<or> sequence = None \<or> scratch = None
          then ((Inl EINVAL, db), w)
          else (case read_arguments db scratch scratch_size of
                  Some e \<Rightarrow> ((Inl e, db), w)
                | None \<Rightarrow>
                    (case read_cursor (the db) w of
                       (Inl e, w) \<Rightarrow> ((Inl e, db), w)
                     | (Inr (bytes, found, batch, cursor), w) \<Rightarrow>
                         if capacity < found then ((Inl BUFFER_TOO_SMALL, db), w)
                         else ((Inr (map (\<lambda>i. decode_record (frame_record bytes i)) [0..<found], batch),
                                Some (copy_cursor (the db) cursor)), w))))"

section \<open>What a successful step of the cursor says\<close>

lemma copy_cursor_simps [simp]:
  "private_cursor (copy_cursor d s) = private_cursor s"
  "private_segment_end (copy_cursor d s) = private_segment_end s"
  "private_read_sequence (copy_cursor d s) = private_read_sequence s"
  "private_in_wal (copy_cursor d s) = private_in_wal s"
  by (simp_all add: copy_cursor_def)

text \<open>The two ways a cursor moves: into the WAL, or forward in the file it is in.\<close>

definition cursor_moved :: "timelite_batches \<Rightarrow> timelite_batches \<Rightarrow> bool" where
  "cursor_moved c c' \<longleftrightarrow>
     (\<not> private_in_wal c \<and> private_in_wal c') \<or>
     (private_in_wal c = private_in_wal c' \<and> unat (private_cursor c) < unat (private_cursor c') \<and>
      unat (private_cursor c') < 2 ^ 63)"

text \<open>The three places a frame can come from.\<close>

lemma read_cursor_cases:
  assumes "read_cursor db w = (Inr (bytes, found, batch, c), w')"
  obtains
    (wal) cursor len where "private_in_wal db \<or> private_cursor db = private_data_end db"
      "cursor = (if private_in_wal db then private_cursor db else 32)"
      "batch = (if private_in_wal db then private_read_sequence db else private_installed db + 1)"
      "cursor \<noteq> private_end db"
      "read_frame (batch_file db True) cursor (private_end db) batch w = (Inr (bytes, len, found), w')"
      "c = db\<lparr>private_in_wal := True, private_cursor := cursor + of_nat len,
             private_read_sequence := batch + 1\<rparr>"
  | (segment) s u cursor len where "\<not> private_in_wal db" "private_cursor db \<noteq> private_data_end db"
      "private_cursor db = private_segment_end db"
      "read_segment (batch_file db False) (private_cursor db) (private_data_end db) w = (Inr s, u)"
      "seg_first s = private_read_sequence db \<or>
         private_retention db \<and> private_read_sequence db \<le> seg_first s"
      "cursor = private_cursor db + of_nat (seg_header_size s)" "batch = seg_first s"
      "read_frame (batch_file db False) cursor (cursor + ucast (seg_body s)) batch u = (Inr (bytes, len, found), w')"
      "c = db\<lparr>private_cursor := cursor + of_nat len, private_segment_end := cursor + ucast (seg_body s),
             private_read_sequence := batch + 1\<rparr>"
  | (frame) len where "\<not> private_in_wal db" "private_cursor db \<noteq> private_data_end db"
      "private_cursor db \<noteq> private_segment_end db" "batch = private_read_sequence db"
      "read_frame (batch_file db False) (private_cursor db) (private_segment_end db) batch w =
         (Inr (bytes, len, found), w')"
      "c = db\<lparr>private_cursor := private_cursor db + of_nat len, private_read_sequence := batch + 1\<rparr>"
proof (cases "private_in_wal db \<or> private_cursor db = private_data_end db")
  case True
  define cursor where "cursor = (if private_in_wal db then private_cursor db else 32)"
  define expected where
    "expected = (if private_in_wal db then private_read_sequence db else private_installed db + 1)"
  have eq: "read_cursor db w =
    (if cursor = private_end db then (Inl END, w)
     else io_bind (read_frame (batch_file db True) cursor (private_end db) expected) (\<lambda>(bytes, len, found) w.
       (Inr (bytes, found, expected, db\<lparr>private_in_wal := True, private_cursor := cursor + of_nat len,
          private_read_sequence := expected + 1\<rparr>), w)) w)"
    using True by (auto simp: read_cursor_def cursor_def expected_def Let_def intro!: arg_cong2 [of _ _ _ _ io_bind])
  obtain len where "read_frame (batch_file db True) cursor (private_end db) expected w =
      (Inr (bytes, len, found), w')" "cursor \<noteq> private_end db" "batch = expected"
    "c = db\<lparr>private_in_wal := True, private_cursor := cursor + of_nat len,
          private_read_sequence := expected + 1\<rparr>"
    using assms [unfolded eq] by (auto simp: io_bind_Inr split: if_splits prod.splits)
  then show thesis
    using True by (intro wal) (auto simp: cursor_def expected_def)
next
  case False
  note no_wal = this
  show thesis
  proof (cases "private_cursor db = private_segment_end db")
    case True
    then obtain s u len where "read_segment (batch_file db False) (private_cursor db) (private_data_end db) w = (Inr s, u)"
      "seg_first s = private_read_sequence db \<or> private_retention db \<and> private_read_sequence db \<le> seg_first s"
      "batch = seg_first s"
      "read_frame (batch_file db False) (private_cursor db + of_nat (seg_header_size s))
         (private_cursor db + of_nat (seg_header_size s) + ucast (seg_body s)) batch u = (Inr (bytes, len, found), w')"
      "c = db\<lparr>private_cursor := private_cursor db + of_nat (seg_header_size s) + of_nat len,
              private_segment_end := private_cursor db + of_nat (seg_header_size s) + ucast (seg_body s),
              private_read_sequence := batch + 1\<rparr>"
      using assms no_wal
      by (auto simp: read_cursor_def Let_def io_bind_Inr not_less split: if_splits prod.splits sum.splits)
    then show thesis using no_wal True by (intro segment) auto
  next
    case False
    then obtain len where "batch = private_read_sequence db"
      "read_frame (batch_file db False) (private_cursor db) (private_segment_end db) batch w =
         (Inr (bytes, len, found), w')"
      "c = db\<lparr>private_cursor := private_cursor db + of_nat len, private_read_sequence := batch + 1\<rparr>"
      using assms no_wal
      by (auto simp: read_cursor_def Let_def io_bind_Inr split: if_splits prod.splits sum.splits)
    then show thesis using no_wal False by (intro frame) auto
  qed
qed

lemma read_cursor_InrD:
  assumes "read_cursor db w = (Inr (bytes, found, batch, c), w')"
  shows "0 < found" "found \<le> TIMELITE_MAX_RECORDS" "length bytes = 64 + found * 20"
    "private_read_sequence c = batch + 1" "copy_cursor db c = c" "cursor_moved db c"
proof -
  have "0 < found \<and> found \<le> TIMELITE_MAX_RECORDS \<and> length bytes = 64 + found * 20 \<and>
    private_read_sequence c = batch + 1 \<and> copy_cursor db c = c \<and> cursor_moved db c"
    using assms
  proof (cases rule: read_cursor_cases)
    case (wal cursor len)
    note r = read_frame_InrD [OF wal(5)] read_frame_advance [OF wal(5)]
    then show ?thesis using wal by (auto simp: copy_cursor_def cursor_moved_def in_off_t_def)
  next
    case (segment s u cursor len)
    note r = read_frame_InrD [OF segment(8)] read_frame_advance [OF segment(8)] and h = read_segment_InrD [OF segment(4)]
    have "unat cursor = unat (private_cursor db) + seg_header_size s"
      unfolding segment(6) using h(2,3,5) u64_bound [of "private_data_end db"] by (intro u64_offset) auto
    then show ?thesis using r segment by (auto simp: copy_cursor_def cursor_moved_def in_off_t_def)
  next
    case (frame len)
    note r = read_frame_InrD [OF frame(5)] read_frame_advance [OF frame(5)]
    then show ?thesis using frame by (auto simp: copy_cursor_def cursor_moved_def in_off_t_def)
  qed
  then show "0 < found" "found \<le> TIMELITE_MAX_RECORDS" "length bytes = 64 + found * 20"
    "private_read_sequence c = batch + 1" "copy_cursor db c = c" "cursor_moved db c" by auto
qed

text \<open>The measure of every loop that moves a cursor.\<close>

definition cursor_distance :: "timelite_batches \<Rightarrow> nat" where
  "cursor_distance c = (if private_in_wal c then 0 else 2 ^ 64) + (2 ^ 64 - unat (private_cursor c))"

lemma cursor_moved_distance: "cursor_moved c c' \<Longrightarrow> cursor_distance c' < cursor_distance c"
  using u64_bound [of "private_cursor c"] u64_bound [of "private_cursor c'"]
  by (auto simp: cursor_moved_def cursor_distance_def)

lemma cursor_distance_copy [simp]: "cursor_distance (copy_cursor d s) = cursor_distance s"
  by (simp add: cursor_distance_def)

section \<open>Reading leaves the files alone\<close>

lemma reads_only_if_fun [reading]:
  "(c \<Longrightarrow> reads_only m) \<Longrightarrow> (\<not> c \<Longrightarrow> reads_only k) \<Longrightarrow> reads_only (if c then m else k)"
  by simp

lemma reads_only_read_cursor [reading]: "reads_only (read_cursor c)"
  unfolding read_cursor_def Let_def by (intro reading)

lemma next_same:
  "timelite_batches_next db r cap cnt sq scr n w = (x, w') \<Longrightarrow> same_files w w'"
  by (auto simp: timelite_batches_next_def split: option.splits if_splits prod.splits sum.splits
      dest: reads_onlyD [OF reads_only_read_cursor])

section \<open>Reading the log back\<close>

lemma encode_frames_nth:
  assumes "i < length bs"
  shows "\<exists>rest. encode_frames s bs =
    encode_frames s (take i bs) @ encode_frame (s + of_nat i) (bs ! i) @ rest \<and>
    encode_frames s (take (Suc i) bs) = encode_frames s (take i bs) @ encode_frame (s + of_nat i) (bs ! i)"
proof -
  have "bs = take i bs @ bs ! i # drop (Suc i) bs" using assms by (rule id_take_nth_drop)
  then have "encode_frames s bs = encode_frames s (take i bs) @ encode_frame (s + of_nat i) (bs ! i)
      @ encode_frames (s + of_nat i + 1) (drop (Suc i) bs)"
    using assms encode_frames_append [of s "take i bs" "bs ! i # drop (Suc i) bs"] by (simp add: min_def)
  moreover have "take (Suc i) bs = take i bs @ [bs ! i]" using assms by (rule take_Suc_conv_app_nth)
  ultimately show ?thesis using assms by (auto simp: encode_frames_snoc min_def)
qed

text \<open>The cursor stands in the WAL before batch \<open>i\<close> of the log.\<close>

definition wal_cursor :: "timelite_batches \<Rightarrow> timelite_record list list \<Rightarrow> nat \<Rightarrow> bool" where
  "wal_cursor h bs i \<longleftrightarrow>
     private_in_wal h \<and> i \<le> length bs \<and>
     unat (private_cursor h) = 32 + length (encode_frames (private_installed h + 1) (take i bs)) \<and>
     private_read_sequence h = private_installed h + 1 + of_nat i"

lemma wal_cursor_frame:
  assumes "wal_view w h bs" "wal_cursor h bs i" "i < length bs"
  shows "block (unat (private_cursor h)) (64 + length (bs ! i) * 20) (fdata w (batch_file h True)) =
      encode_frame (private_installed h + 1 + of_nat i) (bs ! i)"
    "unat (private_cursor h) + (64 + length (bs ! i) * 20) \<le> unat (private_end h)"
    "valid_batch (bs ! i)" "in_off_t (private_cursor h) (64 + length (bs ! i) * 20)"
    "unat (private_cursor h + of_nat (64 + length (bs ! i) * 20)) =
       32 + length (encode_frames (private_installed h + 1) (take (Suc i) bs))"
proof -
  from assms(1) obtain header where h: "length header = 32"
      "fdata w (batch_file h True) = header @ encode_frames (private_installed h + 1) bs"
      "unat (private_end h) = length (fdata w (batch_file h True))" "list_all valid_batch bs"
      "unat (private_end h) \<le> unat TIMELITE_WAL_CAPACITY"
    by (auto simp: wal_view_def)
  obtain rest where r: "encode_frames (private_installed h + 1) bs =
      encode_frames (private_installed h + 1) (take i bs) @
      encode_frame (private_installed h + 1 + of_nat i) (bs ! i) @ rest"
    and t: "encode_frames (private_installed h + 1) (take (Suc i) bs) =
      encode_frames (private_installed h + 1) (take i bs) @ encode_frame (private_installed h + 1 + of_nat i) (bs ! i)"
    using encode_frames_nth [OF assms(3)] by blast
  have c: "unat (private_cursor h) = 32 + length (encode_frames (private_installed h + 1) (take i bs))"
    using assms(2) by (simp add: wal_cursor_def)
  show "block (unat (private_cursor h)) (64 + length (bs ! i) * 20) (fdata w (batch_file h True)) =
      encode_frame (private_installed h + 1 + of_nat i) (bs ! i)"
    unfolding c h(2) r using h(1) by (simp add: block_def)
  show le: "unat (private_cursor h) + (64 + length (bs ! i) * 20) \<le> unat (private_end h)"
    unfolding c h(3) h(2) r using h(1) by simp
  show "valid_batch (bs ! i)" using h(4) assms(3) by (simp add: list_all_length)
  show "in_off_t (private_cursor h) (64 + length (bs ! i) * 20)"
    using le h(5) by (simp add: in_off_t_def)
  show "unat (private_cursor h + of_nat (64 + length (bs ! i) * 20)) =
       32 + length (encode_frames (private_installed h + 1) (take (Suc i) bs))"
    unfolding t using le h(5) c by (subst u64_offset) simp_all
qed

lemma frame_records_map: "frame_records bytes n = map (\<lambda>i. decode_record (frame_record bytes i)) [0..<n]"
  by (simp add: frame_records_def frame_record_def)

lemma read_cursor_in_wal:
  "private_in_wal db \<Longrightarrow> read_cursor db w =
     (if private_cursor db = private_end db then (Inl END, w)
      else io_bind (read_frame (batch_file db True) (private_cursor db) (private_end db) (private_read_sequence db))
        (\<lambda>(bytes, len, found) w.
          (Inr (bytes, found, private_read_sequence db,
            db\<lparr>private_in_wal := True, private_cursor := private_cursor db + of_nat len,
               private_read_sequence := private_read_sequence db + 1\<rparr>), w)) w)"
  by (auto simp: read_cursor_def Let_def intro!: arg_cong2 [of _ _ _ _ io_bind])

lemma wal_view_copy_cursor:
  "wal_view w (copy_cursor h c) bs = wal_view w h bs" "private_installed (copy_cursor h c) = private_installed h"
  by (simp_all add: wal_view_def copy_cursor_def batch_file_def)

lemma wal_view_script: "same_files w w' \<Longrightarrow> wal_view w' h bs = wal_view w h bs"
  using same_files_views [of w w'] by (simp add: wal_view_def)

lemma next_ready:
  assumes "wal_view w h bs" "TIMELITE_BATCH_SCRATCH \<le> n" "cap = 0 \<or> records = Some ()"
  shows "timelite_batches_next (Some h) records cap (Some ()) (Some ()) (Some ()) n w =
    (case read_cursor h w of
       (Inl e, w) \<Rightarrow> ((Inl e, Some h), w)
     | (Inr (bytes, found, batch, cursor), w) \<Rightarrow>
         if cap < found then ((Inl BUFFER_TOO_SMALL, Some h), w)
         else ((Inr (frame_records bytes found, batch), Some (copy_cursor h cursor)), w))"
proof -
  have "batch_ready (Some h) = None"
    using assms(1) by (simp add: batch_ready_def wal_view_def is_closed_def is_opened_def)
  then show ?thesis
    using assms(2,3) by (auto simp: timelite_batches_next_def read_arguments_def frame_records_map
        split: prod.splits sum.splits)
qed

text \<open>A frame read from the WAL at batch \<open>i\<close> is the frame of batch \<open>i\<close>, whatever calls were interrupted or failed.\<close>

lemma read_cursor_wal:
  assumes "wal_view w h bs" "wal_cursor h bs i" "read_cursor h w = (Inr (bytes, found, batch, c), w')"
  shows "i < length bs" "batch = private_installed h + 1 + of_nat i" "bytes = encode_frame batch (bs ! i)"
    "found = length (bs ! i)" "wal_cursor c bs (Suc i)" "private_installed c = private_installed h"
proof -
  from assms(2) have inw: "private_in_wal h" and rsq: "private_read_sequence h = private_installed h + 1 + of_nat i"
    and cur: "unat (private_cursor h) = 32 + length (encode_frames (private_installed h + 1) (take i bs))" "i \<le> length bs"
    by (simp_all add: wal_cursor_def)
  from assms(3) obtain len where ne: "private_cursor h \<noteq> private_end h"
    and rf: "read_frame (batch_file h True) (private_cursor h) (private_end h) (private_read_sequence h) w =
        (Inr (bytes, len, found), w')"
    and c: "batch = private_read_sequence h" "c = h\<lparr>private_in_wal := True, private_cursor := private_cursor h + of_nat len,
          private_read_sequence := private_read_sequence h + 1\<rparr>"
    unfolding read_cursor_in_wal [OF inw] by (auto simp: io_bind_Inr split: if_splits prod.splits)
  show i: "i < length bs"
  proof (rule ccontr)
    assume "\<not> i < length bs"
    with cur have "unat (private_cursor h) = unat (private_end h)"
      using assms(1) by (auto simp: wal_view_def)
    with ne show False by (simp add: word_unat_eq_iff)
  qed
  note fr = wal_cursor_frame [OF assms(1,2) i]
  have o: "is_opened w (batch_file h True)" using assms(1) by (simp add: wal_view_def)
  note sound = read_frame_sound [OF rf o fr(1,3)]
  show "batch = private_installed h + 1 + of_nat i" using c rsq by simp
  then show "bytes = encode_frame batch (bs ! i)" using sound by simp
  show "found = length (bs ! i)" by (fact sound)
  show "private_installed c = private_installed h" using c by simp
  show "wal_cursor c bs (Suc i)"
    using c sound fr(5) i rsq by (simp add: wal_cursor_def add.assoc)
qed

text \<open>Without faults the frame is read, and \<open>TIMELITE_END\<close> comes after the last one.\<close>

lemma read_cursor_wal_quiet:
  assumes "script w = []" "wal_view w h bs" "wal_cursor h bs i"
  shows "if i < length bs then \<exists>bytes found batch c. read_cursor h w = (Inr (bytes, found, batch, c), w)
    else read_cursor h w = (Inl END, w)"
proof -
  have inw: "private_in_wal h" using assms(3) by (simp add: wal_cursor_def)
  show ?thesis
  proof (cases "i < length bs")
    case True
    note fr = wal_cursor_frame [OF assms(2,3) True]
    have o: "is_opened w (batch_file h True)" using assms(2) by (simp add: wal_view_def)
    have ne: "private_cursor h \<noteq> private_end h" using fr(2) by auto
    show ?thesis
      using read_frame_quiet [OF assms(1) o fr(3,1,2,4)] assms(3) ne True
      by (simp add: read_cursor_in_wal [OF inw] io_bind_def wal_cursor_def)
  next
    case False
    then have "unat (private_cursor h) = unat (private_end h)"
      using assms(2,3) by (auto simp: wal_view_def wal_cursor_def)
    then show ?thesis using False by (simp add: read_cursor_in_wal [OF inw] word_unat_eq_iff)
  qed
qed

lemma next_in_wal:
  assumes "wal_view w h bs" "wal_cursor h bs i"
    and "timelite_batches_next (Some h) records cap (Some ()) (Some ()) (Some ()) n w = ((Inr (rs, s), Some h'), w')"
    and "TIMELITE_BATCH_SCRATCH \<le> n" "cap = 0 \<or> records = Some ()"
  shows "i < length bs" "rs = bs ! i" "s = private_installed h + 1 + of_nat i"
    "wal_view w' h' bs" "wal_cursor h' bs (Suc i)" "private_installed h' = private_installed h"
proof -
  from assms(3) obtain bytes found batch c where rc: "read_cursor h w = (Inr (bytes, found, batch, c), w')"
    and out: "rs = frame_records bytes found" "s = batch" "h' = copy_cursor h c"
    unfolding next_ready [OF assms(1,4,5)] by (auto split: prod.splits sum.splits if_splits)
  note r = read_cursor_wal [OF assms(1,2) rc] and d = read_cursor_InrD(5) [OF rc]
  show i: "i < length bs" by (fact r)
  have "valid_batch (bs ! i)" using wal_cursor_frame(3) [OF assms(1,2) i] .
  then show "rs = bs ! i" using out r by (simp add: frame_records_encode_frame valid_batch_def)
  show "s = private_installed h + 1 + of_nat i" using out r by simp
  show "wal_view w' h' bs"
    using assms(1) out(3) wal_view_script [OF reads_onlyD [OF reads_only_read_cursor rc]]
    by (simp add: wal_view_copy_cursor)
  show "private_installed h' = private_installed h" using out by (simp add: wal_view_copy_cursor)
  show "wal_cursor h' bs (Suc i)" using out(3) d r(5) by simp
qed

lemma next_in_wal_quiet:
  assumes "script w = []" "wal_view w h bs" "wal_cursor h bs i" "TIMELITE_BATCH_SCRATCH \<le> n"
  shows "i < length bs \<Longrightarrow> length (bs ! i) \<le> cap \<Longrightarrow>
      \<exists>h'. timelite_batches_next (Some h) (Some ()) cap (Some ()) (Some ()) (Some ()) n w =
        ((Inr (bs ! i, private_installed h + 1 + of_nat i), Some h'), w)"
    "i = length bs \<Longrightarrow>
      timelite_batches_next (Some h) (Some ()) cap (Some ()) (Some ()) (Some ()) n w = ((Inl END, Some h), w)"
proof -
  show "timelite_batches_next (Some h) (Some ()) cap (Some ()) (Some ()) (Some ()) n w = ((Inl END, Some h), w)"
    if "i = length bs"
    using read_cursor_wal_quiet [OF assms(1-3)] that next_ready [OF assms(2,4), of cap "Some ()"] by simp
  assume i: "i < length bs" and cap: "length (bs ! i) \<le> cap"
  then obtain bytes found batch c where rc: "read_cursor h w = (Inr (bytes, found, batch, c), w)"
    using read_cursor_wal_quiet [OF assms(1-3)] by auto
  have "valid_batch (bs ! i)" using wal_cursor_frame(3) [OF assms(2,3) i] .
  then show "\<exists>h'. timelite_batches_next (Some h) (Some ()) cap (Some ()) (Some ()) (Some ()) n w =
      ((Inr (bs ! i, private_installed h + 1 + of_nat i), Some h'), w)"
    using next_ready [OF assms(2,4), of cap "Some ()"] rc cap read_cursor_wal [OF assms(2,3) rc]
    by (simp add: frame_records_encode_frame valid_batch_def)
qed

section \<open>The batch engine is a batch log\<close>

definition append_batch ::
  "timelite_record list \<Rightarrow> timelite_batches \<Rightarrow> os \<Rightarrow> (timelite_batches \<times> os) option" where
  "append_batch rs h w =
     (case timelite_batches_append (Some h) (Some rs) (length rs) (Some ()) TIMELITE_BATCH_SCRATCH (Some ()) w of
        ((Inr s, Some h'), w') \<Rightarrow> Some (h', w')
      | _ \<Rightarrow> None)"

definition next_batch ::
  "timelite_batches \<Rightarrow> os \<Rightarrow> (timelite_record list \<times> timelite_batches \<times> os) option" where
  "next_batch h w =
     (case timelite_batches_next (Some h) (Some ()) TIMELITE_MAX_RECORDS (Some ()) (Some ()) (Some ())
             TIMELITE_BATCH_SCRATCH w of
        ((Inr (rs, s), Some h'), w') \<Rightarrow> Some (rs, h', w')
      | _ \<Rightarrow> None)"

lemma append_batch_SomeD:
  "append_batch rs h w = Some (h', w') \<Longrightarrow>
     \<exists>s. timelite_batches_append (Some h) (Some rs) (length rs) (Some ()) TIMELITE_BATCH_SCRATCH (Some ()) w =
       ((Inr s, Some h'), w')"
  by (auto simp: append_batch_def split: prod.splits sum.splits option.splits)

lemma next_batch_SomeD:
  "next_batch h w = Some (rs, h', w') \<Longrightarrow>
     \<exists>s. timelite_batches_next (Some h) (Some ()) TIMELITE_MAX_RECORDS (Some ()) (Some ()) (Some ())
       TIMELITE_BATCH_SCRATCH w = ((Inr (rs, s), Some h'), w')"
  by (auto simp: next_batch_def split: prod.splits sum.splits option.splits)

lemma next_batch_in_wal:
  assumes "wal_view w h bs" "wal_cursor h bs i" "next_batch h w = Some (rs, h', w')"
  shows "i < length bs \<and> rs = bs ! i \<and> wal_view w' h' bs \<and> wal_cursor h' bs (Suc i)"
proof -
  obtain s where "timelite_batches_next (Some h) (Some ()) TIMELITE_MAX_RECORDS (Some ()) (Some ()) (Some ())
       TIMELITE_BATCH_SCRATCH w = ((Inr (rs, s), Some h'), w')"
    using next_batch_SomeD [OF assms(3)] by blast
  from next_in_wal [OF assms(1,2) this] show ?thesis by simp
qed

lemma append_keeps_cursor:
  assumes "timelite_batches_append (Some h) (Some rs) (length rs) scratch n out w = ((Inr s, Some h'), w')"
    and "wal_cursor h bs i"
  shows "wal_cursor h' (bs @ [rs]) i"
  using assms(1)
proof (cases rule: append_cases)
  case committed
  then show ?thesis using assms(2) by (simp add: wal_cursor_def)
qed simp_all

definition wal_at :: "os \<Rightarrow> timelite_batches \<Rightarrow> timelite_record list list \<Rightarrow> nat \<Rightarrow> bool" where
  "wal_at w h bs i \<longleftrightarrow> wal_view w h bs \<and> wal_cursor h bs i"

interpretation wal_log: batch_log "list_all record_in_range" wal_at append_batch next_batch
proof (unfold_locales, goal_cases)
  case (1 b w h bs i h' w')
  then obtain s where "timelite_batches_append (Some h) (Some b) (length b) (Some ()) TIMELITE_BATCH_SCRATCH (Some ()) w =
      ((Inr s, Some h'), w')"
    using append_batch_SomeD by blast
  from append_committed_view(1) [OF _ _ this] append_keeps_cursor [OF this] 1 show ?case by (simp add: wal_at_def)
qed (use next_batch_in_wal in \<open>auto simp: wal_at_def\<close>)

section \<open>Properties\<close>

text \<open>
  C17. Progress of the reader: without faults \<open>timelite_batches_next\<close> in the WAL delivers the batch the
  cursor stands before, with its sequence number, as long as one is left and the caller's buffer holds
  it, and reports \<open>TIMELITE_END\<close> exactly after the last one, without losing the position.
\<close>

theorem next_delivers:
  assumes "script w = []" "wal_view w h bs" "wal_cursor h bs i" "TIMELITE_BATCH_SCRATCH \<le> n"
    and "TIMELITE_MAX_RECORDS \<le> cap"
  shows "if i < length bs
    then \<exists>h'. timelite_batches_next (Some h) (Some ()) cap (Some ()) (Some ()) (Some ()) n w =
        ((Inr (bs ! i, private_installed h + 1 + of_nat i), Some h'), w) \<and> wal_cursor h' bs (Suc i)
    else timelite_batches_next (Some h) (Some ()) cap (Some ()) (Some ()) (Some ()) n w =
        ((Inl END, Some h), w)"
proof (cases "i < length bs")
  case True
  then have "length (bs ! i) \<le> cap"
    using assms(2,5) by (auto simp: wal_view_def list_all_length valid_batch_def intro: le_trans)
  with True obtain h' where n: "timelite_batches_next (Some h) (Some ()) cap (Some ()) (Some ()) (Some ()) n w =
      ((Inr (bs ! i, private_installed h + 1 + of_nat i), Some h'), w)"
    using next_in_wal_quiet(1) [OF assms(1-4)] by blast
  then show ?thesis using True next_in_wal(5) [OF assms(2,3) n assms(4)] by auto
next
  case False
  then have "i = length bs" using assms(3) by (simp add: wal_cursor_def)
  then show ?thesis using next_in_wal_quiet(2) [OF assms(1-4)] by simp
qed

text \<open>A batch is appended to an empty WAL, read, and followed by the end of the log.\<close>

theorem next_delivers_witness:
  "\<exists>h w h'. wal_view w h [[sample_record]] \<and> wal_cursor h [[sample_record]] 0 \<and>
    timelite_batches_next (Some h) (Some ()) TIMELITE_MAX_RECORDS (Some ()) (Some ()) (Some ())
      TIMELITE_BATCH_SCRATCH w = ((Inr ([sample_record], 1), Some h'), w) \<and>
    timelite_batches_next (Some h') (Some ()) TIMELITE_MAX_RECORDS (Some ()) (Some ()) (Some ())
      TIMELITE_BATCH_SCRATCH w = ((Inl END, Some h'), w)"
proof -
  let ?h = "sample_handle\<lparr>private_in_wal := True, private_cursor := 32\<rparr>"
  let ?w = "sample_os (replicate 160 0) (replicate 32 0)"
  have v: "wal_view ?w ?h []" and c: "wal_cursor ?h [] (length ([] :: timelite_record list list))"
    using sample_view by (simp_all add: wal_view_def wal_cursor_def batch_file_def)
  have args: "append_arguments (Some ?h) (Some [sample_record]) (length [sample_record]) (Some ())
      TIMELITE_BATCH_SCRATCH (Some ()) = None"
    by (rule append_arguments_ok) (use wal_view_ready [OF v] in \<open>simp_all add: sample_record_def\<close>)
  obtain h w where ap: "timelite_batches_append (Some ?h) (Some [sample_record]) (length [sample_record])
      (Some ()) TIMELITE_BATCH_SCRATCH (Some ()) ?w = ((Inr (private_sequence ?h + 1), Some h), w)"
    and q: "script w = []"
    using append_live [OF _ v args] by auto
  then have a: "append_batch [sample_record] ?h ?w = Some (h, w)" by (simp add: append_batch_def)
  have "wal_at w h [[sample_record]] 0" using wal_log.push_at [OF _ _ a, of "[]" 0] v c by (simp add: wal_at_def)
  then have v1: "wal_view w h [[sample_record]]" and c1: "wal_cursor h [[sample_record]] 0"
    by (simp_all add: wal_at_def)
  have inst: "private_installed h = 0"
    using append_committed_view(4) [OF v _ ap] by (simp add: sample_handle_eq)
  note deliver = next_delivers [where n = TIMELITE_BATCH_SCRATCH and cap = TIMELITE_MAX_RECORDS, OF q _ _ order_refl order_refl]
  obtain h' where n: "timelite_batches_next (Some h) (Some ()) TIMELITE_MAX_RECORDS (Some ()) (Some ()) (Some ())
      TIMELITE_BATCH_SCRATCH w = ((Inr ([sample_record], 1), Some h'), w)" and c2: "wal_cursor h' [[sample_record]] 1"
    using deliver [OF v1 c1] inst by auto
  have "wal_view w h' [[sample_record]]" using next_in_wal(4) [OF v1 c1 n] by simp
  from deliver [OF this c2] have "timelite_batches_next (Some h') (Some ()) TIMELITE_MAX_RECORDS (Some ()) (Some ()) (Some ())
      TIMELITE_BATCH_SCRATCH w = ((Inl END, Some h'), w)" by simp
  with v1 c1 n show ?thesis by blast
qed

text \<open>
  C18. A read that fails loses nothing: whenever \<open>timelite_batches_next\<close> returns an error, a short
  buffer and a failing file included, the handle is the one before, so the same batch can be read
  again; and whatever it returns, it changed no file.
\<close>

theorem next_error_keeps_cursor:
  assumes "timelite_batches_next db r cap cnt sq scr n w = ((x, db'), w')"
  shows "same_files w w' \<and> (\<forall>e. x = Inl e \<longrightarrow> db' = db)"
  using next_same [OF assms] assms
  by (auto simp: timelite_batches_next_def split: option.splits if_splits prod.splits sum.splits)

theorem next_error_keeps_cursor_witness:
  "\<exists>db' w'. timelite_batches_next (Some sample_handle) (Some ()) 64 (Some ()) (Some ()) (Some ()) 1344
     (sample_os [] []) = ((Inl END, db'), w') \<and> same_files (sample_os [] []) w' \<and> db' = Some sample_handle"
proof -
  have "batch_ready (Some sample_handle) = None"
    by (simp add: batch_ready_def is_closed_def)
  then have "\<exists>db' w'. timelite_batches_next (Some sample_handle) (Some ()) 64 (Some ()) (Some ()) (Some ()) 1344
     (sample_os [] []) = ((Inl END, db'), w')"
    by (simp add: timelite_batches_next_def read_arguments_def read_cursor_def Let_def)
  then show ?thesis using next_error_keeps_cursor by blast
qed

end
