(* ===== verification/TL_Retention.thy ===== *)
theory TL_Retention
  imports TL_Cursor
begin

text \<open>
  \<open>timelite_batches_expire_before\<close>: the survey of the segments a cutoff leaves, the copy of the
  survivors behind the data end, its publication in three phases, and the cursor moved to the batch
  it stood before or to the first surviving one after it.
\<close>

record survey =
  sv_bytes :: u64
  sv_segments :: u64
  sv_live :: u64

function survey_segments ::
  "timelite_file \<Rightarrow> u64 \<Rightarrow> u64 \<Rightarrow> u64 \<Rightarrow> survey \<Rightarrow> os \<Rightarrow> (error + survey) \<times> os" where
  "survey_segments file data_end cutoff offset s w =
     (if offset < data_end then
        (case read_segment file offset data_end w of
           (Inl e, w') \<Rightarrow> (Inl e, w')
         | (Inr segment, w') \<Rightarrow>
             (case segment_expires file offset segment cutoff w' of
                (Inl e, w'') \<Rightarrow> (Inl e, w'')
              | (Inr expires, w'') \<Rightarrow>
                  survey_segments file data_end cutoff (offset + segment_extent segment)
                    (if expires then s
                     else s\<lparr>sv_bytes := sv_bytes s + segment_extent segment,
                            sv_segments := sv_segments s + 1,
                            sv_live := sv_live s + (seg_last segment - seg_first segment + 1)\<rparr>) w''))
      else (Inr s, w))"
  by pat_completeness auto
termination
proof (relation "measure (\<lambda>(file, data_end, cutoff, offset, s, w). unat data_end - unat offset)", simp, goal_cases)
  case (1 f e cutoff offset s w r w' segment)
  then have "read_segment f offset e w = (Inr segment, w')" by simp
  from read_segment_advance [OF this] show ?case by simp
qed

declare survey_segments.simps [simp del]

text \<open>
  The loop that finds \<open>wanted\<close> again, from a rewound cursor: whether it (or a later batch) was found,
  and the cursor before it.
\<close>

function relocate :: "u64 \<Rightarrow> timelite_batches \<Rightarrow> os \<Rightarrow> (error + bool \<times> timelite_batches) \<times> os" where
  "relocate wanted cursor w =
     (if wanted = 0 then (Inr (False, cursor), w)
      else
        (case read_cursor cursor w of
           (Inl e, w') \<Rightarrow> if e = END then (Inr (False, cursor), w') else (Inl e, w')
         | (Inr (bytes, records, sequence, next), w') \<Rightarrow>
             if sequence \<ge> wanted then (Inr (True, cursor), w') else relocate wanted next w'))"
  by pat_completeness auto
termination
proof (relation "measure (\<lambda>(wanted, cursor, w). cursor_distance cursor)", simp, goal_cases)
  case (1 wanted cursor w r w' x bytes y records z sequence c)
  then have "read_cursor cursor w = (Inr (bytes, records, sequence, c), w')" by simp
  then show ?case by (simp add: read_cursor_InrD(6) cursor_moved_distance)
qed

declare relocate.simps [simp del]

text \<open>The three phases; the new retention state, data end and tail.\<close>

definition expire_phases ::
  "timelite_batches \<Rightarrow> u64 \<Rightarrow> u64 \<Rightarrow> os \<Rightarrow> (error + retention_state \<times> u64 \<times> u64) \<times> os" where
  "expire_phases h cutoff segments =
     (let file = batch_file h False;
          state = \<lparr>rs_revision = private_revision h, rs_root = 160, rs_phase = 0,
                   rs_enabled = private_retention h\<rparr>
      in io_bind (publish_retention file state (private_generation h) (private_data_end h)
                    (private_installed h) (private_installed_time h) (private_last_segment h) 160 1)
           (\<lambda>state. io_bind (copy_segments file 160 (private_data_end h) (private_data_end h) True cutoff)
             (\<lambda>(end, tail). io_bind (publish_retention file state segments end (private_installed h)
                                      (private_installed_time h) tail (private_data_end h) 2)
               (\<lambda>state. finish_retention file state segments end (private_installed h)
                          (private_installed_time h) tail))))"

text \<open>The handle after the phases: re-validated, with the cursor relocated.\<close>

definition expired_handle ::
  "timelite_batches \<Rightarrow> u64 \<Rightarrow> u64 \<Rightarrow> retention_state \<times> u64 \<times> u64 \<Rightarrow> os \<Rightarrow> (error + timelite_batches) \<times> os" where
  "expired_handle h segments live result =
     (case result of (state, end, tail) \<Rightarrow>
        (let file = batch_file h False;
             cursor = h\<lparr>private_generation := segments, private_revision := rs_revision state,
                        private_retention := True, private_live_batches := live,
                        private_data_end := end, private_last_segment := tail\<rparr>
         in io_bind (check_segments file segments end (private_installed cursor) tail
                       (private_installed_time cursor) True state)
              (\<lambda>(tail, installed_time, span, live).
                 io_bind (relocate (private_read_sequence h)
                            (reset_cursor (cursor\<lparr>private_installed_time := installed_time,
                                                  private_span_start := span\<rparr>)))
                   (\<lambda>(found, cursor) w.
                      (let cursor = (if found then cursor
                                     else cursor\<lparr>private_in_wal := True, private_cursor := private_end cursor,
                                                 private_read_sequence := private_sequence cursor + 1\<rparr>)
                       in (Inr (cursor\<lparr>private_failed := False\<rparr>), w))))))"

definition timelite_batches_expire_before ::
  "timelite_batches option \<Rightarrow> u64 \<Rightarrow> unit option \<Rightarrow> nat \<Rightarrow> os
     \<Rightarrow> (error option \<times> timelite_batches option) \<times> os" where
  "timelite_batches_expire_before db cutoff scratch scratch_size w =
     (case read_arguments db scratch scratch_size of
        Some e \<Rightarrow> ((Some e, db), w)
      | None \<Rightarrow>
          (let h = the db
           in case survey_segments (batch_file h False) (private_data_end h) cutoff 160
                     \<lparr>sv_bytes = 0, sv_segments = 0, sv_live = 0\<rparr> w of
                (Inl e, w) \<Rightarrow> ((Some e, db), w)
              | (Inr s, w) \<Rightarrow>
                  if sv_segments s = private_generation h then ((None, db), w)
                  else if sv_bytes s > TIMELITE_DATABASE_CAPACITY - private_data_end h
                  then ((Some DATABASE_FULL, db), w)
                  else if private_revision h > UINT64_MAX - 5 then ((Some EOVERFLOW, db), w)
                  else (let h = h\<lparr>private_failed := True\<rparr>
                        in case expire_phases h cutoff (sv_segments s) w of
                             (Inl e, w) \<Rightarrow> ((Some e, Some h), w)
                           | (Inr result, w) \<Rightarrow>
                               (case expired_handle h (sv_segments s) (sv_live s) result w of
                                  (Inl e, w) \<Rightarrow> ((Some e, Some h), w)
                                | (Inr h', w) \<Rightarrow> ((None, Some h'), w)))))"

end
