(* ===== verification/TL_Checkpoint.thy ===== *)
theory TL_Checkpoint
  imports TL_Append
begin

text \<open>
  \<open>timelite_batches_checkpoint\<close>: the committed frames of the WAL become one installed segment of the
  database (header and verbatim frames, sync, manifest, sync), and the WAL is cut back to its header.
\<close>

text \<open>The checks before any read; \<open>None\<close> in the second component means there is nothing to install.\<close>

definition checkpoint_arguments ::
  "timelite_batches option \<Rightarrow> unit option \<Rightarrow> nat \<Rightarrow> error option \<times> bool" where
  "checkpoint_arguments db scratch scratch_size =
     (case batch_ready db of
        Some e \<Rightarrow> (Some e, False)
      | None \<Rightarrow>
          (let h = the db
           in if scratch = None then (Some EINVAL, False)
              else if scratch_size < TIMELITE_BATCH_SCRATCH then (Some BUFFER_TOO_SMALL, False)
              else if private_end h = 32 then (None, False)
              else if private_revision h = UINT64_MAX then (Some EOVERFLOW, False)
              else if private_end h - 32 + 64 > TIMELITE_DATABASE_CAPACITY - private_data_end h
              then (Some DATABASE_FULL, False)
              else (None, True)))"

text \<open>The skip link of the new segment and the largest time before it.\<close>

definition checkpoint_links :: "timelite_batches \<Rightarrow> os \<Rightarrow> (error + u64 \<times> u64) \<times> os" where
  "checkpoint_links h =
     (let database = batch_file h False; generation = private_generation h;
          target = generation + 1 - low_bit (generation + 1)
      in io_bind (\<lambda>w. if target \<noteq> 0 then
                    io_bind (segment_at database (private_data_end h) generation (private_last_segment h) target)
                      (\<lambda>(skip, segment) w. (Inr skip, w)) w
                  else (Inr 0, w))
           (\<lambda>skip w. if private_retention h \<and> generation \<noteq> 0 then
                io_bind (read_segment database (private_last_segment h) (private_data_end h))
                  (\<lambda>segment w. (Inr (skip, seg_maximum segment), w)) w
              else (Inr (skip, private_installed_time h), w)))"

text \<open>A feature 004 database gets its manifest slots before the first install.\<close>

definition checkpoint_upgrade :: "timelite_batches \<Rightarrow> os \<Rightarrow> error option \<times> os" where
  "checkpoint_upgrade h w =
     (if private_legacy h then
        (let database = batch_file h False;
             header = put 0 (encode_manifest 0 TIMELITE_DATA_START 0 0 0) (replicate 128 0);
             (error, w) = write_exact database 32 header w
         in unless_error error (timelite_file_sync (Some database)) w)
      else (None, w))"

text \<open>Step 1: the header and the re-validated frames, then sync.  The last installed sequence.\<close>

definition checkpoint_segment :: "timelite_batches \<Rightarrow> u64 \<Rightarrow> os \<Rightarrow> (error + u64) \<times> os" where
  "checkpoint_segment h skip =
     (let database = batch_file h False; wal = batch_file h True; data_end = private_data_end h;
          header = encode_segment (private_installed h + 1) (private_sequence h)
                     (ucast (private_end h - 32)) (private_wal_minimum h) (private_wal_maximum h)
                     (private_last_segment h) skip (private_wal_ordered h)
      in io_seq (write_exact database data_end header)
           (io_bind (scan_frames (\<lambda>bytes len records offset _.
                         io_seq (write_exact database (data_end + 64 + offset - 32) bytes) (\<lambda>w. (Inr (), w)))
                       False wal (private_end h) 32 (private_installed h + 1) ())
             (\<lambda>(offset, next, _) w.
                if next - 1 \<noteq> private_sequence h then (Inl INVALID_DATABASE, w)
                else io_seq (timelite_file_sync (Some database)) (\<lambda>w. (Inr (next - 1), w)) w)))"

text \<open>Step 2: the manifest in the slot that does not hold the current one, then sync.\<close>

definition checkpoint_manifest :: "timelite_batches \<Rightarrow> u64 \<Rightarrow> bytes" where
  "checkpoint_manifest h sequence =
     (let new_end = private_data_end h + 64 + (private_end h - 32)
      in if private_retention h
         then encode_retention (private_revision h + 1) (private_generation h + 1) new_end sequence
                (private_last_time h) (private_data_end h) 160 0
         else encode_manifest (private_generation h + 1) new_end sequence (private_last_time h)
                (private_data_end h))"

definition checkpoint_install :: "timelite_batches \<Rightarrow> u64 \<Rightarrow> os \<Rightarrow> error option \<times> os" where
  "checkpoint_install h sequence w =
     (let database = batch_file h False;
          (error, w) = write_exact database (32 + 64 * ((private_revision h + 1) AND 1))
                         (checkpoint_manifest h sequence) w
      in unless_error error (timelite_file_sync (Some database)) w)"

text \<open>The handle after the install point, before the WAL is reclaimed.\<close>

definition installed_handle :: "timelite_batches \<Rightarrow> u64 \<Rightarrow> u64 \<Rightarrow> timelite_batches" where
  "installed_handle h prior_max sequence =
     (let data_end = private_data_end h; new_end = data_end + 64 + (private_end h - 32);
          h = (if private_wal_first_time h < prior_max
               then h\<lparr>private_span_start := private_generation h + 1\<rparr> else h);
          h = h\<lparr>private_installed_time := private_last_time h,
                private_generation := private_generation h + 1,
                private_revision := private_revision h + 1,
                private_live_batches := private_live_batches h + (sequence - private_installed h),
                private_data_end := new_end, private_last_segment := data_end\<rparr>;
          h = (if \<not> private_wal_ordered h then h\<lparr>private_span_start := private_generation h + 1\<rparr> else h);
          h = h\<lparr>private_installed := sequence\<rparr>
      in if private_in_wal h
         then h\<lparr>private_in_wal := False, private_cursor := data_end + 64 + private_cursor h - 32,
                private_segment_end := new_end\<rparr>
         else h)"

text \<open>Step 3: the frames are redundant now.\<close>

definition checkpoint_reclaim :: "timelite_batches \<Rightarrow> os \<Rightarrow> error option \<times> os" where
  "checkpoint_reclaim h w =
     (let wal = batch_file h True; (error, w) = timelite_file_truncate (Some wal) 32 w
      in unless_error error (timelite_file_sync (Some wal)) w)"

definition timelite_batches_checkpoint ::
  "timelite_batches option \<Rightarrow> unit option \<Rightarrow> nat \<Rightarrow> os \<Rightarrow> (error option \<times> timelite_batches option) \<times> os" where
  "timelite_batches_checkpoint db scratch scratch_size w =
     (case checkpoint_arguments db scratch scratch_size of
        (Some e, _) \<Rightarrow> ((Some e, db), w)
      | (None, False) \<Rightarrow> ((None, db), w)
      | (None, True) \<Rightarrow>
          (case checkpoint_links (the db) w of
             (Inl e, w) \<Rightarrow> ((Some e, db), w)
           | (Inr (skip, prior_max), w) \<Rightarrow>
               (let h = (the db)\<lparr>private_failed := True\<rparr>
                in case checkpoint_upgrade h w of
                     (Some e, w) \<Rightarrow> ((Some e, Some h), w)
                   | (None, w) \<Rightarrow>
                       (let h = h\<lparr>private_legacy := False\<rparr>
                        in case checkpoint_segment h skip w of
                             (Inl e, w) \<Rightarrow> ((Some e, Some h), w)
                           | (Inr sequence, w) \<Rightarrow>
                               (case checkpoint_install h sequence w of
                                  (Some e, w) \<Rightarrow> ((Some e, Some h), w)
                                | (None, w) \<Rightarrow>
                                    (let h = installed_handle h prior_max sequence
                                     in case checkpoint_reclaim h w of
                                          (Some e, w) \<Rightarrow> ((Some e, Some h), w)
                                        | (None, w) \<Rightarrow>
                                            ((None, Some (h\<lparr>private_end := 32, private_wal_ordered := True,
                                                            private_failed := False\<rparr>)), w)))))))"

end
