(* ===== verification/TL_Installed.thy ===== *)
theory TL_Installed
  imports TL_Cursor TL_Checkpoint
begin

text \<open>
  The whole store as a log: installed segments followed by the WAL.  \<open>decode_segment\<close> is what
  \<open>read_segment\<close> computes from the bytes of the database; \<open>store_view\<close> relates a handle and its two
  files to the installed segments and the pending batches, \<open>store_cursor\<close> places the read cursor in
  that log.  Append, checkpoint and next are then shown to implement the operations of a log.
\<close>

section \<open>Segment headers in a file\<close>

definition decode_segment :: "bytes \<Rightarrow> u64 \<Rightarrow> u64 \<Rightarrow> error + segment_info" where
  "decode_segment D off end =
     (let h = block (unat off) 32 D; ordered = has_magic h ''TLSPAN07'';
          long = (ordered \<or> has_magic h ''TLUNOR07'')
      in if off > end \<or> end - off < 32 \<or> length D < unat off + 32 then Inl INVALID_DATABASE
         else if long then
           (if end - off < 64 \<or> length D < unat off + 64 then Inl INVALID_DATABASE
            else parse_segment (block (unat off) 64 D) 64 ordered off end)
         else if \<not> has_magic h ''TLSEGMNT'' then Inl INVALID_DATABASE
         else parse_segment h 32 ordered off end)"

lemma block_32_32: "block o1 32 D @ block (o1 + 32) 32 D = block o1 64 D"
  using block_split [of o1 32 32 D] by simp

lemma unat_offset_32: "in_off_t off 32 \<Longrightarrow> unat (off + 32) = unat off + 32"
  by (subst u64_add) (auto simp: in_off_t_def)

text \<open>Whatever the faults, a header that was read is the one the bytes decode to.\<close>

lemma read_segment_sound:
  assumes "read_segment f off end w = (Inr s, w')" "is_opened w f"
  shows "decode_segment (fdata w f) off end = Inr s"
proof -
  from assms(1) have le: "\<not> off > end" "\<not> end - off < 32" by (auto simp: read_segment_def split: if_splits)
  with assms(1) obtain h u where h: "read_exact f off 32 w = (Inr h, u)" and
    rest: "(let ordered = has_magic h ''TLSPAN07'';
             header_size = (if ordered \<or> has_magic h ''TLUNOR07'' then 64 else 32)
         in if header_size = 64 then
              (if end - off < 64 then (Inl INVALID_DATABASE, u)
               else io_bind (read_exact f (off + 32) 32) (\<lambda>rest w.
                      (parse_segment (h @ rest) header_size ordered off end, w)) u)
            else if \<not> has_magic h ''TLSEGMNT'' then (Inl INVALID_DATABASE, u)
            else (parse_segment h header_size ordered off end, u)) = (Inr s, w')"
    unfolding read_segment_def by (auto simp: io_bind_Inr)
  have hb: "h = block (unat off) 32 (fdata w f)" and hl: "unat off + 32 \<le> length (fdata w f)"
    using read_exact_ok [OF h assms(2)] by simp_all
  have same: "same_files w u" using reads_onlyD [OF reads_only_read_exact h] .
  then have u: "is_opened u f" "fdata u f = fdata w f" using same_files_views [of w u] assms(2) by auto
  have o: "unat (off + 32) = unat off + 32" using read_exact_InrD [OF h] by (intro unat_offset_32) simp
  have r: "r = block (unat off + 32) 32 (fdata w f) \<and> unat off + 64 \<le> length (fdata w f)"
    if "read_exact f (off + 32) 32 u = (Inr r, v)" for r v
    using read_exact_ok [OF that u(1)] u(2) o by simp
  show ?thesis
  proof (cases "has_magic h ''TLSPAN07'' \<or> has_magic h ''TLUNOR07''")
    case True
    then show ?thesis
      using le hl rest r unfolding decode_segment_def hb
      by (auto simp: Let_def io_bind_Inr block_32_32 split: if_splits)
  next
    case False
    then show ?thesis
      using le hl rest unfolding decode_segment_def hb by (auto simp: Let_def split: if_splits)
  qed
qed

text \<open>Without faults \<open>read_segment\<close> is \<open>decode_segment\<close>.\<close>

lemma read_exact_quiet_any:
  assumes "script w = []" "is_opened w f" "in_off_t off n"
  shows "read_exact f off n w =
    (if unat off + n \<le> length (fdata w f) \<or> n = 0 then Inr (block (unat off) n (fdata w f)) else Inl INVALID_DATABASE, w)"
  using posix_live.rd_quiet [OF assms] by (auto simp: read_exact_def posix_read_def length_block)

lemma read_segment_quiet:
  assumes "script w = []" "is_opened w f" "unat end < 2 ^ 62"
  shows "read_segment f off end w = (decode_segment (fdata w f) off end, w)"
proof (cases "off > end \<or> end - off < 32")
  case True
  then show ?thesis by (elim disjE) (simp_all add: read_segment_def decode_segment_def Let_def)
next
  case False
  then have o: "unat off \<le> unat end" by (simp add: word_le_nat_alt not_less)
  then have i: "in_off_t off 32" "in_off_t (off + 32) 32"
    using assms(3) unat_offset_32 [of off] by (simp_all add: in_off_t_def)
  note r = read_exact_quiet_any [OF assms(1,2) i(1)] read_exact_quiet_any [OF assms(1,2) i(2)] unat_offset_32 [OF i(1)]
  let ?D = "fdata w f" and ?h = "block (unat off) 32 (fdata w f)"
  show ?thesis
  proof (cases "length ?D < unat off + 32")
    case True
    then show ?thesis using False r by (simp add: read_segment_def decode_segment_def io_bind_def Let_def)
  next
    case fits: False
    show ?thesis
    proof (cases "has_magic ?h ''TLSPAN07'' \<or> has_magic ?h ''TLUNOR07''")
      case False
      then show ?thesis
        using fits \<open>\<not> (off > end \<or> end - off < 32)\<close> r
        by (simp add: read_segment_def decode_segment_def io_bind_def Let_def)
    next
      case True
      then show ?thesis
        using fits \<open>\<not> (off > end \<or> end - off < 32)\<close> r block_32_32 [of "unat off" ?D]
        by (cases "length ?D < unat off + 64"; cases "end - off < 64")
          (simp_all add: read_segment_def decode_segment_def io_bind_def Let_def)
    qed
  qed
qed

section \<open>The chain of installed segments\<close>

type_synonym segment_content = "segment_info \<times> timelite_record list list"

text \<open>The timestamps of a run of batches, and the bounds a header states for them.\<close>

definition batch_times :: "timelite_record list list \<Rightarrow> u64 list" where
  "batch_times bs = map timestamp_us (concat bs)"

definition segment_times :: "segment_info \<Rightarrow> timelite_record list list \<Rightarrow> bool" where
  "segment_times s bs \<longleftrightarrow>
     (\<forall>t \<in> set (batch_times bs). seg_minimum s \<le> t \<and> t \<le> seg_maximum s) \<and>
     (seg_ordered s \<longrightarrow> sorted (batch_times bs))"

text \<open>The body of a segment at \<open>off\<close> holds the frames of its batches, numbered as its header says.\<close>

definition segment_body :: "bytes \<Rightarrow> u64 \<Rightarrow> segment_info \<Rightarrow> timelite_record list list \<Rightarrow> bool" where
  "segment_body D off s bs \<longleftrightarrow>
     list_all valid_batch bs \<and> bs \<noteq> [] \<and> unat (seg_body s) = length (encode_frames (seg_first s) bs) \<and>
     block (unat off + seg_header_size s) (unat (seg_body s)) D = encode_frames (seg_first s) bs \<and>
     unat (seg_last s) + 1 = unat (seg_first s) + length bs \<and> segment_times s bs"

text \<open>
  Segments from \<open>off\<close> to the data end; \<open>sq\<close> is the smallest sequence the next one may start with, and
  without retention the one it must start with.
\<close>

fun seg_chain :: "bytes \<Rightarrow> u64 \<Rightarrow> bool \<Rightarrow> u64 \<Rightarrow> nat \<Rightarrow> segment_content list \<Rightarrow> bool" where
  "seg_chain D end ret off sq [] \<longleftrightarrow> off = end"
| "seg_chain D end ret off sq ((s, bs) # ss) \<longleftrightarrow>
     decode_segment D off end = Inr s \<and> segment_body D off s bs \<and>
     (unat (seg_first s) = sq \<or> ret \<and> sq \<le> unat (seg_first s)) \<and>
     seg_chain D end ret (off + segment_extent s) (unat (seg_last s) + 1) ss"

fun chain_end :: "u64 \<Rightarrow> segment_content list \<Rightarrow> u64" where
  "chain_end off [] = off"
| "chain_end off ((s, bs) # ss) = chain_end (off + segment_extent s) ss"

fun chain_next :: "nat \<Rightarrow> segment_content list \<Rightarrow> nat" where
  "chain_next sq [] = sq"
| "chain_next sq ((s, bs) # ss) = chain_next (unat (seg_last s) + 1) ss"

definition installed_batches :: "segment_content list \<Rightarrow> timelite_record list list" where
  "installed_batches ss = concat (map snd ss)"

lemma installed_batches_simps [simp]:
  "installed_batches [] = []" "installed_batches (x # ss) = snd x @ installed_batches ss"
  "installed_batches (ss @ ts) = installed_batches ss @ installed_batches ts"
  by (simp_all add: installed_batches_def)

lemma chain_end_append [simp]: "chain_end off (ss @ ts) = chain_end (chain_end off ss) ts"
  by (induction off ss rule: chain_end.induct) simp_all

lemma chain_next_append [simp]: "chain_next sq (ss @ ts) = chain_next (chain_next sq ss) ts"
  by (induction sq ss rule: chain_next.induct) simp_all

lemma seg_chain_append:
  "seg_chain D end ret off sq (pre @ ts) \<longleftrightarrow>
     seg_chain D end ret off sq (pre @ ts) \<and> seg_chain D end ret (chain_end off pre) (chain_next sq pre) ts"
proof (induction pre arbitrary: off sq)
  case (Cons x pre)
  then show ?case by (cases x) auto
qed simp

lemma seg_chain_end: "seg_chain D end ret off sq ss \<Longrightarrow> chain_end off ss = end"
  by (induction D "end" ret off sq ss rule: seg_chain.induct) simp_all

text \<open>The header and the body of one segment of a chain.\<close>

lemma decode_segment_InrD:
  assumes "decode_segment D off end = Inr s"
  shows "off \<le> end" "seg_header_size s = 32 \<or> seg_header_size s = 64"
    "unat off + unat (segment_extent s) \<le> unat end" "seg_first s \<noteq> 0" "seg_first s \<le> seg_last s"
    "unat (segment_extent s) = seg_header_size s + unat (seg_body s)"
    "unat (off + segment_extent s) = unat off + unat (segment_extent s)"
proof -
  from assms obtain h hs ord where p: "parse_segment h hs ord off end = Inr s"
    and hs: "hs = 32 \<or> hs = 64" "of_nat hs \<le> end - off" and le: "off \<le> end"
    by (auto simp: decode_segment_def Let_def not_less split: if_splits)
  note e = parse_segment_extent [OF p hs le]
  show "off \<le> end" by (fact le)
  show "seg_header_size s = 32 \<or> seg_header_size s = 64" using e hs by simp
  show "unat off + unat (segment_extent s) \<le> unat end" "seg_first s \<noteq> 0" "seg_first s \<le> seg_last s"
    "unat (segment_extent s) = seg_header_size s + unat (seg_body s)" using e by simp_all
  then show "unat (off + segment_extent s) = unat off + unat (segment_extent s)"
    using u64_bound [of "end"] by (intro u64_add) simp
qed

section \<open>The store\<close>

text \<open>The offset of the segment with ordinal \<open>n\<close>, counted from 1, and 0 for no segment.\<close>

definition seg_offset :: "segment_content list \<Rightarrow> nat \<Rightarrow> u64" where
  "seg_offset ss n = (if n = 0 then 0 else chain_end 160 (take (n - 1) ss))"

text \<open>The links of a 64-byte header: the previous segment, and the one the lowest bit of the ordinal skips to.\<close>

definition links_ok :: "segment_content list \<Rightarrow> bool" where
  "links_ok ss \<longleftrightarrow>
     (\<forall>i < length ss. seg_header_size (fst (ss ! i)) = 64 \<longrightarrow>
        seg_previous (fst (ss ! i)) = seg_offset ss i \<and>
        seg_skip (fst (ss ! i)) = seg_offset ss (Suc i - unat (low_bit (of_nat (Suc i)))))"

text \<open>From ordinal \<open>n\<close> on every segment is ordered and starts no earlier than the one before ends.\<close>

definition span_ok :: "segment_content list \<Rightarrow> nat \<Rightarrow> bool" where
  "span_ok ss n \<longleftrightarrow>
     (\<forall>i < length ss. n \<le> Suc i \<longrightarrow> seg_ordered (fst (ss ! i))) \<and>
     (\<forall>i. Suc i < length ss \<longrightarrow> n \<le> Suc i \<longrightarrow>
        seg_maximum (fst (ss ! i)) \<le> seg_minimum (fst (ss ! Suc i)))"

text \<open>What the handle knows of the times in the WAL.\<close>

definition wal_times :: "timelite_batches \<Rightarrow> timelite_record list list \<Rightarrow> bool" where
  "wal_times h bs \<longleftrightarrow>
     private_wal_ordered h = sorted (batch_times bs) \<and>
     (bs \<noteq> [] \<longrightarrow>
        private_wal_first_time h = hd (batch_times bs) \<and> private_last_time h = last (batch_times bs) \<and>
        private_wal_minimum h = Min (set (batch_times bs)) \<and>
        private_wal_maximum h = Max (set (batch_times bs)))"

text \<open>
  The database side of the handle: the installed segments \<open>ss\<close> fill the database up to the data end,
  linked as \<open>check_segments\<close> demands.
\<close>

definition database_view :: "os \<Rightarrow> timelite_batches \<Rightarrow> segment_content list \<Rightarrow> bool" where
  "database_view w h ss \<longleftrightarrow>
     (let D = fdata w (batch_file h False); end = private_data_end h
      in is_opened w (batch_file h False) \<and> \<not> posix_alias w (batch_file h False) (batch_file h True) \<and>
         unat end \<le> unat TIMELITE_DATABASE_CAPACITY \<and>
         seg_chain D end (private_retention h) 160 1 ss \<and> links_ok ss \<and>
         unat (private_generation h) = length ss \<and> private_last_segment h = seg_offset ss (length ss) \<and>
         0 < unat (private_span_start h) \<and> unat (private_span_start h) \<le> length ss + 1 \<and>
         span_ok ss (unat (private_span_start h)) \<and>
         (ss \<noteq> [] \<and> unat (private_span_start h) \<le> length ss \<and> \<not> private_retention h \<longrightarrow>
            private_installed_time h = seg_maximum (fst (last ss))) \<and>
         chain_next 1 ss \<le> unat (private_installed h) + 1 \<and>
         (\<not> private_retention h \<longrightarrow> chain_next 1 ss = unat (private_installed h) + 1))"

definition store_view ::
  "os \<Rightarrow> timelite_batches \<Rightarrow> segment_content list \<Rightarrow> timelite_record list list \<Rightarrow> bool" where
  "store_view w h ss bs \<longleftrightarrow> wal_view w h bs \<and> wal_times h bs \<and> database_view w h ss"

text \<open>All batches of the store in order, and their sequence numbers.\<close>

definition store_batches :: "segment_content list \<Rightarrow> timelite_record list list \<Rightarrow> timelite_record list list" where
  "store_batches ss bs = installed_batches ss @ bs"

definition numbers :: "u64 \<Rightarrow> nat \<Rightarrow> u64 list" where
  "numbers first n = map (\<lambda>k. first + of_nat k) [0..<n]"

definition store_numbers :: "u64 \<Rightarrow> segment_content list \<Rightarrow> timelite_record list list \<Rightarrow> u64 list" where
  "store_numbers installed ss bs =
     concat (map (\<lambda>(s, b). numbers (seg_first s) (length b)) ss) @ numbers (installed + 1) (length bs)"

text \<open>The cursor inside a segment: before batch \<open>k\<close> of its body.\<close>

definition body_cursor :: "timelite_batches \<Rightarrow> u64 \<Rightarrow> segment_info \<Rightarrow> timelite_record list list \<Rightarrow> nat \<Rightarrow> bool" where
  "body_cursor h off s b k \<longleftrightarrow>
     unat (private_cursor h) = unat off + seg_header_size s + length (encode_frames (seg_first s) (take k b)) \<and>
     private_segment_end h = off + segment_extent s \<and> private_read_sequence h = seg_first s + of_nat k"

text \<open>The cursor between segments: at the header of the next one, or at the data end.\<close>

definition boundary_cursor :: "timelite_batches \<Rightarrow> segment_content list \<Rightarrow> bool" where
  "boundary_cursor h pre \<longleftrightarrow>
     private_cursor h = chain_end 160 pre \<and> private_segment_end h = private_cursor h \<and>
     private_read_sequence h = of_nat (chain_next 1 pre)"

inductive store_cursor ::
  "timelite_batches \<Rightarrow> segment_content list \<Rightarrow> timelite_record list list \<Rightarrow> nat \<Rightarrow> bool" where
  at_wal: "wal_cursor h bs k \<Longrightarrow> store_cursor h ss bs (length (installed_batches ss) + k)"
| at_boundary: "\<not> private_in_wal h \<Longrightarrow> boundary_cursor h pre \<Longrightarrow>
    store_cursor h (pre @ post) bs (length (installed_batches pre))"
| at_body: "\<not> private_in_wal h \<Longrightarrow> body_cursor h (chain_end 160 pre) s b k \<Longrightarrow> k < length b \<Longrightarrow>
    store_cursor h (pre @ (s, b) # post) bs (length (installed_batches pre) + k)"

section \<open>Frames of a segment\<close>

lemma seg_chain_mid:
  assumes "seg_chain D end ret o1 sq (pre @ (s, b) # post)"
  defines "off \<equiv> chain_end o1 pre"
  shows "decode_segment D off end = Inr s" "segment_body D off s b"
    "unat (seg_first s) = chain_next sq pre \<or> ret \<and> chain_next sq pre \<le> unat (seg_first s)"
    "seg_chain D end ret (off + segment_extent s) (unat (seg_last s) + 1) post"
  using assms(1) [THEN seg_chain_append [THEN iffD1]] by (simp_all add: off_def)

lemma segment_body_frame:
  assumes "segment_body D off s b" "k < length b"
  defines "p \<equiv> unat off + seg_header_size s + length (encode_frames (seg_first s) (take k b))"
  shows "block p (64 + length (b ! k) * 20) D = encode_frame (seg_first s + of_nat k) (b ! k)"
    "p + (64 + length (b ! k) * 20) =
       unat off + seg_header_size s + length (encode_frames (seg_first s) (take (Suc k) b))"
    "p + (64 + length (b ! k) * 20) \<le> unat off + seg_header_size s + unat (seg_body s)"
    "valid_batch (b ! k)"
proof -
  let ?h = "unat off + seg_header_size s" and ?f = "encode_frames (seg_first s)"
  from encode_frames_nth [OF assms(2), of "seg_first s"] obtain rest where
    r: "?f b = ?f (take k b) @ encode_frame (seg_first s + of_nat k) (b ! k) @ rest"
      "?f (take (Suc k) b) = ?f (take k b) @ encode_frame (seg_first s + of_nat k) (b ! k)" by blast
  have b: "block ?h (unat (seg_body s)) D = ?f b" "unat (seg_body s) = length (?f b)"
    using assms(1) unfolding segment_body_def by blast+
  have n: "unat (seg_body s) = length (?f (take k b)) + (64 + length (b ! k) * 20) + length rest"
    using b(2) r(1) by simp
  show "block p (64 + length (b ! k) * 20) D = encode_frame (seg_first s + of_nat k) (b ! k)"
  proof -
    have "block (?h + length (?f (take k b))) (unat (seg_body s) - length (?f (take k b))) D =
        encode_frame (seg_first s + of_nat k) (b ! k) @ rest"
      using block_suffix [OF b(1), of "length (?f (take k b))"] n r(1) by simp
    from block_prefix [OF this, of "64 + length (b ! k) * 20"] n show ?thesis by (simp add: p_def)
  qed
  show "p + (64 + length (b ! k) * 20) = ?h + length (?f (take (Suc k) b))" using r(2) by (simp add: p_def)
  show "p + (64 + length (b ! k) * 20) \<le> ?h + unat (seg_body s)" using n by (simp add: p_def)
  show "valid_batch (b ! k)" using assms(1,2) by (auto simp: segment_body_def list_all_length)
qed

section \<open>Moving the cursor over the store\<close>

lemma cursor_fields_batch_file [simp]:
  "batch_file (h\<lparr>private_cursor := x\<rparr>) b = batch_file h b" "batch_file (h\<lparr>private_segment_end := x\<rparr>) b = batch_file h b"
  "batch_file (h\<lparr>private_read_sequence := x\<rparr>) b = batch_file h b" "batch_file (h\<lparr>private_in_wal := y\<rparr>) b = batch_file h b"
  by (simp_all add: batch_file_def)

text \<open>At the data end the cursor reads on from the start of the WAL.\<close>

definition enter_wal :: "timelite_batches \<Rightarrow> timelite_batches" where
  "enter_wal h = h\<lparr>private_in_wal := True, private_cursor := 32, private_read_sequence := private_installed h + 1\<rparr>"

lemma read_cursor_enter_wal:
  "\<not> private_in_wal h \<Longrightarrow> private_cursor h = private_data_end h \<Longrightarrow> read_cursor h w = read_cursor (enter_wal h) w"
  by (auto simp: read_cursor_def enter_wal_def Let_def batch_file_def io_bind_def split: prod.splits sum.splits)

lemma wal_cursor_enter: "wal_cursor (enter_wal h) bs 0"
  by (simp add: wal_cursor_def enter_wal_def)

lemma wal_view_enter: "wal_view w (enter_wal h) bs = wal_view w h bs"
  by (simp add: wal_view_def enter_wal_def batch_file_def)

lemma chain_offset_less:
  assumes "seg_chain D end ret o1 sq (pre @ (s, b) # post)"
  shows "chain_end o1 pre \<noteq> end" "unat (chain_end o1 pre) + unat (segment_extent s) \<le> unat end"
    "unat (chain_end o1 pre + segment_extent s) = unat (chain_end o1 pre) + unat (segment_extent s)"
    "unat (segment_extent s) = seg_header_size s + unat (seg_body s)" "seg_header_size s = 32 \<or> seg_header_size s = 64"
proof -
  note d = decode_segment_InrD [OF seg_chain_mid(1) [OF assms]]
  show "unat (chain_end o1 pre) + unat (segment_extent s) \<le> unat end"
    "unat (chain_end o1 pre + segment_extent s) = unat (chain_end o1 pre) + unat (segment_extent s)"
    "unat (segment_extent s) = seg_header_size s + unat (seg_body s)" "seg_header_size s = 32 \<or> seg_header_size s = 64"
    by (fact d)+
  then show "chain_end o1 pre \<noteq> end" by auto
qed

lemma ucast_seg_body: "unat (ucast (b :: u32) :: u64) = unat b"
  by (simp add: unsigned_ucast_eq take_bit_nat_eq_self unsigned_less [THEN order.strict_trans])

text \<open>One step inside a body, wherever the read started.\<close>

lemma body_cursor_step:
  assumes "segment_body D off s b" "k < length b" "unat (segment_extent s) = seg_header_size s + unat (seg_body s)"
    and "unat (off + segment_extent s) = unat off + unat (segment_extent s)"
    and "unat p = unat off + seg_header_size s + length (encode_frames (seg_first s) (take k b))"
    and "private_cursor c = p + of_nat (64 + length (b ! k) * 20)" "private_segment_end c = off + segment_extent s"
    and "private_read_sequence c = seg_first s + of_nat k + 1"
  shows "body_cursor c off s b (Suc k)"
proof -
  note f = segment_body_frame [OF assms(1,2), folded assms(5)]
  have "unat p + (64 + length (b ! k) * 20) < 2 ^ 64"
    using f(3) assms(3,4) u64_bound [of "off + segment_extent s"] by simp
  then have "unat (private_cursor c) = unat p + (64 + length (b ! k) * 20)"
    unfolding assms(6) by (rule u64_offset)
  then show ?thesis using f(2) assms(7,8) by (simp add: body_cursor_def)
qed

text \<open>After the last batch of a body the cursor stands at the next boundary.\<close>

lemma body_cursor_end:
  assumes "seg_chain D end ret 160 1 (pre @ (s, b) # post)" "body_cursor c (chain_end 160 pre) s b (length b)"
  shows "boundary_cursor c (pre @ [(s, b)])"
proof -
  note o = chain_offset_less [OF assms(1)] and m = seg_chain_mid [OF assms(1)]
  have b: "unat (seg_body s) = length (encode_frames (seg_first s) b)"
    "unat (seg_last s) + 1 = unat (seg_first s) + length b"
    using m(2) unfolding segment_body_def by blast+
  have "seg_first s + of_nat (length b) = of_nat (unat (seg_first s) + length b)" by simp
  also have "\<dots> = of_nat (unat (seg_last s) + 1)" unfolding b(2) ..
  finally have "seg_first s + of_nat (length b) = of_nat (unat (seg_last s) + 1)" .
  moreover have "private_cursor c = chain_end 160 pre + segment_extent s"
    using assms(2) o(3,4) b(1) by (simp add: body_cursor_def word_unat_eq_iff)
  ultimately show ?thesis using assms(2) by (simp add: boundary_cursor_def body_cursor_def)
qed

lemma store_cursor_advance:
  assumes "seg_chain D end ret 160 1 (pre @ (s, b) # post)" "\<not> private_in_wal c" "k < length b"
    and "body_cursor c (chain_end 160 pre) s b (Suc k)"
  shows "store_cursor c (pre @ (s, b) # post) bs (Suc (length (installed_batches pre) + k))"
proof (cases "Suc k < length b")
  case True
  from at_body [OF assms(2,4) this] show ?thesis by simp
next
  case False
  then have k: "Suc k = length b" using assms(3) by simp
  have "boundary_cursor c (pre @ [(s, b)])" using body_cursor_end [OF assms(1)] assms(4) k by simp
  from at_boundary [OF assms(2) this, of post bs] k [symmetric] show ?thesis by simp
qed

lemma length_numbers [simp]: "length (numbers first n) = n"
  by (simp add: numbers_def)

lemma nth_numbers [simp]: "k < n \<Longrightarrow> numbers first n ! k = first + of_nat k"
  by (simp add: numbers_def)

lemma length_segment_numbers:
  "length (concat (map (\<lambda>(s, b). numbers (seg_first s) (length b)) ss)) = length (installed_batches ss)"
  by (induction ss) auto

lemma store_nth_body:
  assumes "k < length b"
  defines "i \<equiv> \<lambda>pre :: segment_content list. length (installed_batches pre) + k"
  shows "store_batches (pre @ (s, b) # post) bs ! i pre = b ! k"
    "store_numbers installed (pre @ (s, b) # post) bs ! i pre = seg_first s + of_nat k"
    "i pre < length (store_batches (pre @ (s, b) # post) bs)"
  using assms(1) length_segment_numbers [of pre]
  by (simp_all add: i_def store_batches_def store_numbers_def nth_append)

lemma store_nth_wal:
  assumes "k < length bs"
  defines "i \<equiv> \<lambda>ss :: segment_content list. length (installed_batches ss) + k"
  shows "store_batches ss bs ! i ss = bs ! k" "store_numbers installed ss bs ! i ss = installed + 1 + of_nat k"
    "i ss < length (store_batches ss bs)"
  using assms(1) length_segment_numbers [of ss]
  by (simp_all add: i_def store_batches_def store_numbers_def nth_append)

text \<open>What a frame of the store at position \<open>i\<close> is, for a reader whose cursor it moves to \<open>c\<close>.\<close>

definition store_frame ::
  "segment_content list \<Rightarrow> timelite_record list list \<Rightarrow> u64 \<Rightarrow> nat \<Rightarrow> bytes \<times> nat \<times> u64 \<times> timelite_batches \<Rightarrow> bool" where
  "store_frame ss bs installed i r \<longleftrightarrow>
     (case r of (bytes, found, batch, c) \<Rightarrow>
        i < length (store_batches ss bs) \<and> batch = store_numbers installed ss bs ! i \<and>
        bytes = encode_frame batch (store_batches ss bs ! i) \<and> found = length (store_batches ss bs ! i) \<and>
        store_cursor c ss bs (Suc i))"

lemma store_frame_wal:
  assumes "wal_view w h bs" "wal_cursor h bs k" "read_cursor h w = (Inr r, w')"
  shows "store_frame ss bs (private_installed h) (length (installed_batches ss) + k) r"
proof -
  obtain bytes found batch c where r: "r = (bytes, found, batch, c)" by (cases r)
  note c = read_cursor_wal [OF assms(1,2) assms(3) [unfolded r]]
  note n = store_nth_wal [OF c(1)]
  show ?thesis unfolding r store_frame_def using c n at_wal [OF c(5), of ss] by simp
qed

lemma store_frame_body:
  assumes "seg_chain D end ret 160 1 (pre @ (s, b) # post)" "D = fdata w f" "is_opened w f" "k < length b"
    and "unat p = unat (chain_end 160 pre) + seg_header_size s + length (encode_frames (seg_first s) (take k b))"
    and "read_frame f p e seq w = (Inr (bytes, len, found), w')"
    and "\<not> private_in_wal c" "private_cursor c = p + of_nat len"
    and "private_segment_end c = chain_end 160 pre + segment_extent s" "private_read_sequence c = seq + 1"
  shows "store_frame (pre @ (s, b) # post) bs installed (length (installed_batches pre) + k) (bytes, found, seq, c)"
proof -
  note m = seg_chain_mid [OF assms(1)] and o = chain_offset_less [OF assms(1)]
  note f = segment_body_frame [OF m(2) assms(4), folded assms(5)]
  note r = read_frame_sound [OF assms(6,3) f(1) [unfolded assms(2)] f(4)]
  have "body_cursor c (chain_end 160 pre) s b (Suc k)"
    using body_cursor_step [OF m(2) assms(4) o(4,3) assms(5) _ assms(9)] assms(8,10) r(2,4) by simp
  note a = store_cursor_advance [OF assms(1,7,4) this, of bs]
  show ?thesis unfolding store_frame_def using r a store_nth_body [OF assms(4)] by simp
qed

lemma database_viewD:
  assumes "database_view w h ss"
  shows "is_opened w (batch_file h False)" "\<not> posix_alias w (batch_file h False) (batch_file h True)"
    "unat (private_data_end h) \<le> unat TIMELITE_DATABASE_CAPACITY"
    "seg_chain (fdata w (batch_file h False)) (private_data_end h) (private_retention h) 160 1 ss"
    "links_ok ss" "unat (private_generation h) = length ss" "private_last_segment h = seg_offset ss (length ss)"
    "0 < unat (private_span_start h)" "unat (private_span_start h) \<le> length ss + 1"
    "span_ok ss (unat (private_span_start h))"
    "ss \<noteq> [] \<Longrightarrow> unat (private_span_start h) \<le> length ss \<Longrightarrow> \<not> private_retention h \<Longrightarrow>
       private_installed_time h = seg_maximum (fst (last ss))"
    "chain_next 1 ss \<le> unat (private_installed h) + 1"
    "\<not> private_retention h \<Longrightarrow> chain_next 1 ss = unat (private_installed h) + 1"
  using assms by (simp_all add: database_view_def Let_def)

lemma segment_end_eq:
  "cursor = off + of_nat (seg_header_size s) \<Longrightarrow> cursor + ucast (seg_body s) = off + segment_extent s"
  by (simp add: segment_extent_def add.assoc)

text \<open>A step of the cursor from batch \<open>i\<close>, under any faults: the frame of that batch, and the cursor before the next one.\<close>

lemma read_cursor_store:
  assumes "store_cursor h ss bs i" "wal_view w h bs" "database_view w h ss" "read_cursor h w = (Inr r, w')"
  shows "store_frame ss bs (private_installed h) i r"
  using assms
proof (induction rule: store_cursor.induct)
  case (at_wal h bs k ss)
  then show ?case by (intro store_frame_wal)
next
  case (at_boundary h pre post bs)
  let ?off = "chain_end 160 pre"
  note d = database_viewD [OF at_boundary(4)]
  show ?case
  proof (cases post)
    case Nil
    then have "?off = private_data_end h" using seg_chain_end [OF d(4)] by simp
    then have "read_cursor h w = read_cursor (enter_wal h) w"
      using at_boundary(1,2) by (intro read_cursor_enter_wal) (simp_all add: boundary_cursor_def)
    then show ?thesis
      using store_frame_wal [of w "enter_wal h" bs 0 r w' pre] at_boundary(3,5) Nil
      by (simp add: wal_view_enter wal_cursor_enter) (simp add: enter_wal_def)
  next
    case (Cons x post')
    obtain s b where x: "x = (s, b)" by (cases x)
    note ch = d(4) [unfolded Cons x] and b = at_boundary(2) [unfolded boundary_cursor_def]
    obtain bytes found batch c where r: "r = (bytes, found, batch, c)" by (cases r)
    have kb: "0 < length b" using seg_chain_mid(2) [OF ch] by (simp add: segment_body_def)
    from at_boundary(5) [unfolded r] show ?thesis
    proof (cases rule: read_cursor_cases)
      case (segment s' u cursor len)
      have s: "s' = s"
        using read_segment_sound [OF segment(4) d(1)] seg_chain_mid(1) [OF ch] b by simp
      have same: "same_files w u" using reads_onlyD [OF reads_only_read_segment segment(4)] .
      note v = same_files_views [OF same]
      have p: "unat cursor = unat ?off + seg_header_size s + length (encode_frames (seg_first s) (take 0 b))"
        unfolding segment(6) s using b chain_offset_less(2,4,5) [OF ch] u64_bound [of "private_data_end h"]
        by (subst u64_offset) auto
      have "store_frame (pre @ (s, b) # post') bs (private_installed h) (length (installed_batches pre) + 0)
          (bytes, found, batch, c)"
        by (rule store_frame_body [OF ch _ _ kb p segment(8)])
          (use v d(1) at_boundary(1) segment(6,9) s b segment_end_eq [of cursor ?off s] in simp_all)
      then show ?thesis using Cons x r by simp
    qed (use at_boundary(1) b chain_offset_less(1) [OF ch] in simp_all)
  qed
next
  case (at_body h pre s b k post bs)
  note d = database_viewD [OF at_body(5)]
  note ch = d(4) and b = at_body(2) [unfolded body_cursor_def]
  note o = chain_offset_less [OF ch] and f = segment_body_frame(3) [OF seg_chain_mid(2) [OF ch] at_body(3)]
  obtain bytes found batch c where r: "r = (bytes, found, batch, c)" by (cases r)
  have lt: "unat (private_cursor h) < unat (chain_end 160 pre + segment_extent s)"
    "unat (chain_end 160 pre + segment_extent s) \<le> unat (private_data_end h)"
    using b f o by simp_all
  from at_body(6) [unfolded r] show ?case
  proof (cases rule: read_cursor_cases)
    case (frame len)
    then show ?thesis
      unfolding r by (intro store_frame_body [OF ch refl d(1) at_body(3) _ frame(5)]) (use b at_body(1) in simp_all)
  qed (use at_body(1) b lt in auto)
qed

text \<open>Without faults the step succeeds as long as a batch is left, and reports the end after the last one.\<close>

lemma read_cursor_wal_either:
  assumes "script w = []" "wal_view w h bs" "wal_cursor h bs k"
  shows "(\<exists>r. read_cursor h w = (Inr r, w) \<and> k < length bs) \<or> read_cursor h w = (Inl END, w) \<and> k = length bs"
  using read_cursor_wal_quiet [OF assms] assms(3) by (auto simp: wal_cursor_def split: if_splits)

lemma read_frame_body_quiet:
  assumes "seg_chain D end ret 160 1 (pre @ (s, b) # post)" "D = fdata w f" "is_opened w f" "script w = []"
    and "k < length b" "unat end \<le> unat TIMELITE_DATABASE_CAPACITY"
    and "unat p = unat (chain_end 160 pre) + seg_header_size s + length (encode_frames (seg_first s) (take k b))"
  shows "read_frame f p (chain_end 160 pre + segment_extent s) (seg_first s + of_nat k) w =
    (Inr (encode_frame (seg_first s + of_nat k) (b ! k), 64 + length (b ! k) * 20, length (b ! k)), w)"
proof -
  note m = seg_chain_mid [OF assms(1)] and o = chain_offset_less [OF assms(1)]
  note f = segment_body_frame [OF m(2) assms(5), folded assms(7)]
  have le: "unat p + (64 + length (b ! k) * 20) \<le> unat (chain_end 160 pre + segment_extent s)"
    using f(3) o(3,4) by simp
  then have "in_off_t p (64 + length (b ! k) * 20)" using o(2,3) assms(6) by (simp add: in_off_t_def)
  with read_frame_quiet [OF assms(4,3) f(4) f(1) [unfolded assms(2)] le] show ?thesis by simp
qed

lemma read_cursor_store_quiet:
  assumes "store_cursor h ss bs i" "script w = []" "wal_view w h bs" "database_view w h ss"
  shows "if i < length (store_batches ss bs) then \<exists>r. read_cursor h w = (Inr r, w) else read_cursor h w = (Inl END, w)"
  using assms
proof (induction rule: store_cursor.induct)
  case (at_wal h bs k ss)
  then show ?case using read_cursor_wal_either [of w h bs k] by (auto simp: store_batches_def)
next
  case (at_boundary h pre post bs)
  let ?off = "chain_end 160 pre"
  note d = database_viewD [OF at_boundary(5)]
  show ?case
  proof (cases post)
    case Nil
    then have "?off = private_data_end h" using seg_chain_end [OF d(4)] by simp
    then have "read_cursor h w = read_cursor (enter_wal h) w"
      using at_boundary(1,2) by (intro read_cursor_enter_wal) (simp_all add: boundary_cursor_def)
    then show ?thesis
      using read_cursor_wal_either [of w "enter_wal h" bs 0] at_boundary(3,4) Nil
      by (auto simp: wal_view_enter wal_cursor_enter store_batches_def)
  next
    case (Cons x post')
    obtain s b where x: "x = (s, b)" by (cases x)
    note ch = d(4) [unfolded Cons x] and b = at_boundary(2) [unfolded boundary_cursor_def]
    note m = seg_chain_mid [OF ch]
    have kb: "0 < length b" using m(2) by (simp add: segment_body_def)
    let ?p = "?off + of_nat (seg_header_size s)"
    have p: "unat ?p = unat ?off + seg_header_size s + length (encode_frames (seg_first s) (take 0 b))"
      using chain_offset_less(2,4,5) [OF ch] u64_bound [of "private_data_end h"] by (subst u64_offset) auto
    have rs: "read_segment (batch_file h False) ?off (private_data_end h) w = (Inr s, w)"
      using read_segment_quiet [OF at_boundary(3) d(1)] d(3) m(1) by simp
    have rf: "read_frame (batch_file h False) ?p (?p + ucast (seg_body s)) (seg_first s) w =
        (Inr (encode_frame (seg_first s) (b ! 0), 64 + length (b ! 0) * 20, length (b ! 0)), w)"
      using read_frame_body_quiet [OF ch refl d(1) at_boundary(3) kb d(3) p] by (simp add: segment_extent_def add.assoc)
    have "seg_first s = private_read_sequence h \<or> private_retention h \<and> private_read_sequence h \<le> seg_first s"
      using m(3) b u64_bound [of "seg_first s"]
      by (auto simp: word_le_nat_alt u64_of_nat word_unat_eq_iff [of "seg_first s"])
    then have "\<exists>r. read_cursor h w = (Inr r, w)"
      using at_boundary(1) b chain_offset_less(1) [OF ch] rs rf
      by (auto simp: read_cursor_def Let_def io_bind_def not_less)
    then show ?thesis using Cons x kb by (simp add: store_batches_def)
  qed
next
  case (at_body h pre s b k post bs)
  note d = database_viewD [OF at_body(6)] and b = at_body(2) [unfolded body_cursor_def]
  note o = chain_offset_less [OF d(4)] and f = segment_body_frame(3) [OF seg_chain_mid(2) [OF d(4)] at_body(3)]
  have "unat (private_cursor h) < unat (chain_end 160 pre + segment_extent s)"
    "unat (chain_end 160 pre + segment_extent s) \<le> unat (private_data_end h)"
    using b f o by simp_all
  then have "private_cursor h \<noteq> private_data_end h" "private_cursor h \<noteq> private_segment_end h" using b by auto
  moreover have "read_frame (batch_file h False) (private_cursor h) (private_segment_end h) (private_read_sequence h) w =
    (Inr (encode_frame (seg_first s + of_nat k) (b ! k), 64 + length (b ! k) * 20, length (b ! k)), w)"
    using read_frame_body_quiet [OF d(4) refl d(1) at_body(4,3) d(3), of "private_cursor h"] b by simp
  ultimately have "\<exists>r. read_cursor h w = (Inr r, w)"
    using at_body(1) by (auto simp: read_cursor_def Let_def io_bind_def)
  then show ?case using at_body(3) by (simp add: store_batches_def)
qed

section \<open>Reading the store\<close>

lemma copy_cursor_view:
  "database_view w (copy_cursor h c) ss = database_view w h ss" "wal_times (copy_cursor h c) bs = wal_times h bs"
  "batch_file (copy_cursor h c) b = batch_file h b"
  by (simp_all add: database_view_def wal_times_def copy_cursor_def batch_file_def)

lemma database_view_script: "same_files w w' \<Longrightarrow> database_view w' h ss = database_view w h ss"
  using same_files_views [of w w'] by (simp add: database_view_def)

lemma store_view_read:
  "store_view w h ss bs \<Longrightarrow> same_files w w' \<Longrightarrow> store_view w' (copy_cursor h c) ss bs"
  by (simp add: store_view_def copy_cursor_view wal_view_copy_cursor wal_view_script database_view_script)

lemma store_batch_valid:
  assumes "store_view w h ss bs" "i < length (store_batches ss bs)"
  shows "valid_batch (store_batches ss bs ! i)"
proof -
  have "list_all valid_batch (installed_batches ss)" if "seg_chain D e ret o1 sq ss" for D e ret o1 sq
    using that by (induction D e ret o1 sq ss rule: seg_chain.induct) (auto simp: segment_body_def)
  then have "list_all valid_batch (store_batches ss bs)"
    using assms(1) database_viewD(4) [of w h ss] by (auto simp: store_view_def store_batches_def wal_view_def)
  then show ?thesis using assms(2) by (simp add: list_all_length)
qed

lemma next_in_store:
  assumes "store_view w h ss bs" "store_cursor h ss bs i"
    and "timelite_batches_next (Some h) records cap (Some ()) (Some ()) (Some ()) n w = ((Inr (rs, s), Some h'), w')"
    and "TIMELITE_BATCH_SCRATCH \<le> n" "cap = 0 \<or> records = Some ()"
  shows "i < length (store_batches ss bs)" "rs = store_batches ss bs ! i"
    "s = store_numbers (private_installed h) ss bs ! i" "store_view w' h' ss bs" "store_cursor h' ss bs (Suc i)"
proof -
  have v: "wal_view w h bs" "database_view w h ss" using assms(1) by (simp_all add: store_view_def)
  from assms(3) obtain bytes found batch c where rc: "read_cursor h w = (Inr (bytes, found, batch, c), w')"
    and out: "rs = frame_records bytes found" "s = batch" "h' = copy_cursor h c"
    unfolding next_ready [OF v(1) assms(4,5)] by (auto split: prod.splits sum.splits if_splits)
  note r = read_cursor_store [OF assms(2) v rc, unfolded store_frame_def prod.case] and d = read_cursor_InrD(5) [OF rc]
  show i: "i < length (store_batches ss bs)" using r by blast
  have "valid_batch (store_batches ss bs ! i)" using store_batch_valid [OF assms(1) i] .
  then show "rs = store_batches ss bs ! i" using out r by (simp add: frame_records_encode_frame valid_batch_def)
  show "s = store_numbers (private_installed h) ss bs ! i" using out r by simp
  show "store_view w' h' ss bs"
    unfolding out(3) using store_view_read [OF assms(1) reads_onlyD [OF reads_only_read_cursor rc]] .
  show "store_cursor h' ss bs (Suc i)" using out(3) d r by simp
qed

lemma next_in_store_quiet:
  assumes "script w = []" "store_view w h ss bs" "store_cursor h ss bs i" "TIMELITE_BATCH_SCRATCH \<le> n"
    and "TIMELITE_MAX_RECORDS \<le> cap"
  shows "if i < length (store_batches ss bs)
    then \<exists>h'. timelite_batches_next (Some h) (Some ()) cap (Some ()) (Some ()) (Some ()) n w =
      ((Inr (store_batches ss bs ! i, store_numbers (private_installed h) ss bs ! i), Some h'), w)
    else timelite_batches_next (Some h) (Some ()) cap (Some ()) (Some ()) (Some ()) n w = ((Inl END, Some h), w)"
proof -
  have v: "wal_view w h bs" "database_view w h ss" using assms(2) by (simp_all add: store_view_def)
  note q = read_cursor_store_quiet [OF assms(3,1) v] and rdy = next_ready [OF v(1) assms(4), of cap "Some ()"]
  show ?thesis
  proof (cases "i < length (store_batches ss bs)")
    case False
    then show ?thesis using q rdy by simp
  next
    case True
    then obtain bytes found batch c where rc: "read_cursor h w = (Inr (bytes, found, batch, c), w)" using q by auto
    note r = read_cursor_store [OF assms(3) v rc, unfolded store_frame_def prod.case]
    have vb: "valid_batch (store_batches ss bs ! i)" using store_batch_valid [OF assms(2) True] .
    then have "\<not> cap < found" using r assms(5) by (simp add: valid_batch_def)
    then show ?thesis using True rdy rc r vb by (simp add: frame_records_encode_frame valid_batch_def)
  qed
qed

section \<open>Appending to the store\<close>

lemma append_commit_more [simp]:
  "private_retention (append_commit rs s h) = private_retention h"
  "private_last_segment (append_commit rs s h) = private_last_segment h"
  "private_span_start (append_commit rs s h) = private_span_start h"
  "private_installed_time (append_commit rs s h) = private_installed_time h"
  "private_wal_ordered (append_commit rs s h) = private_wal_ordered h"
  "private_in_wal (append_commit rs s h) = private_in_wal h"
  "private_segment_end (append_commit rs s h) = private_segment_end h"
  "private_read_sequence (append_commit rs s h) = private_read_sequence h"
  by (simp_all add: append_commit_def Let_def)

lemma append_keeps_database:
  assumes "database_view w h ss" "is_opened w' = is_opened w" "posix_alias w' = posix_alias w"
    and "\<forall>g. \<not> posix_alias w (batch_file h True) g \<longrightarrow> fdata w' g = fdata w g"
  shows "database_view w' (append_commit rs s (h\<lparr>private_failed := True\<rparr>)) ss"
proof -
  have "fdata w' (batch_file h False) = fdata w (batch_file h False)"
    using assms(4) database_viewD(2) [OF assms(1)] by (simp add: posix_alias_def)
  then show ?thesis using assms(1-3) by (simp add: database_view_def Let_def)
qed

lemma wal_view_end_32: "wal_view w h bs \<Longrightarrow> private_end h = 32 \<longleftrightarrow> bs = []"
proof -
  assume "wal_view w h bs"
  then have "unat (private_end h) = 32 + length (encode_frames (private_installed h + 1) bs)"
    by (auto simp: wal_view_def)
  moreover have "64 * length bs \<le> length (encode_frames (private_installed h + 1) bs)"
    by (rule length_encode_frames_ge)
  ultimately show ?thesis by (cases bs) (auto simp: word_unat_eq_iff)
qed

lemma batch_times_simps [simp]:
  "batch_times [] = []" "batch_times (b # bs) = map timestamp_us b @ batch_times bs"
  "batch_times (as @ bs) = batch_times as @ batch_times bs"
  by (simp_all add: batch_times_def)

lemma batch_times_nonempty: "list_all valid_batch bs \<Longrightarrow> bs \<noteq> [] \<Longrightarrow> batch_times bs \<noteq> []"
  by (cases bs) (auto simp: valid_batch_def)

lemma sorted_Min_Max:
  "sorted ts \<Longrightarrow> ts \<noteq> [] \<Longrightarrow> Min (set ts) = hd ts \<and> Max (set ts) = last ts" for ts :: "u64 list"
proof (intro conjI)
  assume a: "sorted ts" "ts \<noteq> []"
  show "Min (set ts) = hd ts" using a by (cases ts) (auto intro: Min_insert2)
  have "ts ! i \<le> last ts" if "i < length ts" for i
    using a that by (simp add: last_conv_nth sorted_iff_nth_mono)
  then have "x \<le> last ts" if "x \<in> set ts" for x using that by (auto simp: in_set_conv_nth)
  then show "Max (set ts) = last ts" using a(2) by (intro Max_eqI) simp_all
qed

lemma append_commit_times:
  assumes "private_end h \<noteq> 32"
  shows "private_wal_first_time (append_commit rs s h) = private_wal_first_time h"
    "private_wal_minimum (append_commit rs s h) = min (private_wal_minimum h) (timestamp_us (hd rs))"
    "private_wal_maximum (append_commit rs s h) = max (private_wal_maximum h) (timestamp_us (rs ! (length rs - 1)))"
  using assms by (auto simp: append_commit_def Let_def min_def max_def)

lemma append_keeps_times:
  assumes "wal_view w h bs" "wal_times h bs" "append_arguments (Some h) (Some rs) (length rs) scratch n out = None"
  shows "wal_times (append_commit rs s (h\<lparr>private_failed := True\<rparr>)) (bs @ [rs])"
proof -
  let ?ts = "batch_times bs" and ?us = "map timestamp_us rs"
  note a = append_arguments_None [OF assms(3)]
  have o: "sorted ?us" "private_sequence h \<noteq> 0 \<Longrightarrow> private_last_time h \<le> timestamp_us (hd rs)"
    using a(6) out_of_order_iff [OF a(1), of h] by auto
  have ends: "hd ?us = timestamp_us (hd rs)" "last ?us = timestamp_us (rs ! (length rs - 1))"
    using a(1) by (simp_all add: hd_map last_map last_conv_nth)
  have mm: "Min (set ?us) = timestamp_us (hd rs)" "Max (set ?us) = timestamp_us (rs ! (length rs - 1))"
    using sorted_Min_Max [OF o(1)] a(1) ends by simp_all
  show ?thesis
  proof (cases "bs = []")
    case True
    have le: "timestamp_us (hd rs) \<le> timestamp_us (rs ! (length rs - 1))"
      using o(1) a(1) by (simp add: sorted_iff_nth_mono hd_conv_nth)
    show ?thesis
      using True o(1) ends mm assms(2) wal_view_end_32 [OF assms(1)] le a(1)
      by (simp add: wal_times_def append_commit_def Let_def batch_times_def not_less hd_map last_map)
  next
    case False
    then have t: "?ts \<noteq> []" using assms(1) by (intro batch_times_nonempty) (simp_all add: wal_view_def)
    have "private_sequence h \<noteq> 0" using assms(1) False by (auto simp: wal_view_def)
    then have lt: "last ?ts \<le> timestamp_us (hd rs)" using o(2) assms(2) False by (simp add: wal_times_def)
    have so: "sorted (?ts @ ?us) \<longleftrightarrow> sorted ?ts"
    proof
      assume s: "sorted ?ts"
      have "x \<le> y" if "x \<in> set ?ts" "y \<in> set ?us" for x y
      proof -
        have "x \<le> last ?ts" using sorted_Min_Max [OF s t] that(1) by (metis List.finite_set Max_ge)
        also have "\<dots> \<le> Min (set ?us)" using lt mm by simp
        also have "\<dots> \<le> y" using that(2) by simp
        finally show ?thesis .
      qed
      then show "sorted (?ts @ ?us)" using s o(1) by (simp add: sorted_append)
    qed (simp add: sorted_append)
    have "Min (set ?ts \<union> set ?us) = min (Min (set ?ts)) (Min (set ?us))"
      "Max (set ?ts \<union> set ?us) = max (Max (set ?ts)) (Max (set ?us))"
      using t a(1) by (auto intro!: Min_Un Max_Un)
    then show ?thesis
      using False t so ends mm assms(2) wal_view_end_32 [OF assms(1)] a(1)
        append_commit_times [of "h\<lparr>private_failed := True\<rparr>" rs s]
      by (simp add: wal_times_def)
  qed
qed

lemma append_in_store:
  assumes "store_view w h ss bs" "list_all record_in_range rs"
    and "timelite_batches_append (Some h) (Some rs) (length rs) scratch n out w = ((Inr s, Some h'), w')"
  shows "store_view w' h' ss (bs @ [rs])" "store_cursor h ss bs i \<Longrightarrow> store_cursor h' ss (bs @ [rs]) i"
    "private_installed h' = private_installed h"
proof -
  have v: "wal_view w h bs" "wal_times h bs" "database_view w h ss" using assms(1) by (simp_all add: store_view_def)
  from assms(3) have c: "append_arguments (Some h) (Some rs) (length rs) scratch n out = None"
    "append_effects (batch_file h True) (private_end h) (frame_body s rs)
       (frame_commit s (length rs) (frame_body s rs)) w = (None, w')"
    "h' = append_commit rs s (h\<lparr>private_failed := True\<rparr>)"
    by (auto elim!: append_cases)
  have "unat (private_end h) + length (frame_body s rs) < 2 ^ 64" "is_opened w (batch_file h True)"
    using append_fits(1) [OF c(1)] v(1) by (auto simp: wal_view_def)
  note e = append_effects_ok [OF c(2) this(2,1)]
  show "store_view w' h' ss (bs @ [rs])"
    unfolding store_view_def
    using append_committed_view(1) [OF v(1) assms(2,3)] append_keeps_times [OF v(1,2) c(1)]
      append_keeps_database [OF v(3)] e c(3) by blast
  show "private_installed h' = private_installed h" using c(3) by simp
  show "store_cursor h' ss (bs @ [rs]) i" if "store_cursor h ss bs i"
    using that
  proof cases
    case (at_wal k)
    then show ?thesis using append_keeps_cursor [OF assms(3), of bs k] by (auto intro: store_cursor.at_wal)
  next
    case (at_boundary pre post)
    then show ?thesis using c(3) by (auto simp: boundary_cursor_def intro!: store_cursor.at_boundary)
  next
    case (at_body pre s b k post)
    then show ?thesis using c(3) by (auto simp: body_cursor_def intro!: store_cursor.at_body)
  qed
qed

end
