(* ===== verification/TL_Install.thy ===== *)
theory TL_Install
  imports TL_Installed
begin

text \<open>
  The skip links find any segment by its ordinal, and a checkpoint installs: the batches of the WAL
  become the last segment of the chain, the store holds the same batches in the same order with the
  same numbers, and a reader keeps its place.
\<close>

section \<open>Segments by ordinal\<close>

lemma seg_offset_nth:
  assumes "seg_chain D end ret 160 1 ss" "0 < n" "n \<le> length ss"
  shows "decode_segment D (seg_offset ss n) end = Inr (fst (ss ! (n - 1)))"
proof -
  have "ss = take (n - 1) ss @ ss ! (n - 1) # drop n ss"
    using assms(2,3) id_take_nth_drop [of "n - 1" ss] by simp
  then have "seg_chain D end ret 160 1 (take (n - 1) ss @ (fst (ss ! (n - 1)), snd (ss ! (n - 1))) # drop n ss)"
    using assms(1) by simp
  from seg_chain_mid(1) [OF this] show ?thesis using assms(2) by (simp add: seg_offset_def)
qed

lemma seg_offset_Suc:
  assumes "0 < n" "n \<le> length ss"
  shows "seg_offset ss (Suc n) = seg_offset ss n + segment_extent (fst (ss ! (n - 1)))"
proof -
  obtain s b where x: "ss ! (n - 1) = (s, b)" by force
  have "take n ss = take (n - 1) ss @ [ss ! (n - 1)]"
    using assms take_Suc_conv_app_nth [of "n - 1" ss] by simp
  then show ?thesis using assms(1) x by (simp add: seg_offset_def)
qed

lemma seg_offset_1 [simp]: "seg_offset ss (Suc 0) = 160"
  by (simp add: seg_offset_def)

text \<open>
  \<open>answers a w r\<close>: the reading operation that ran in \<open>w\<close> with outcome \<open>r\<close> returns \<open>a\<close> or an error, and
  without faults it returns \<open>a\<close>.
\<close>

definition answers :: "'a \<Rightarrow> os \<Rightarrow> (error + 'a) \<times> os \<Rightarrow> bool" where
  "answers a w r \<longleftrightarrow>
     (\<forall>b. fst r = Inr b \<longrightarrow> b = a) \<and> (script w = [] \<longrightarrow> r = (Inr a, w)) \<and> same_files w (snd r)"

lemma answers_return [simp]: "answers a w (Inr a, w)"
  by (simp add: answers_def)

lemma answers_bind:
  assumes "answers a w (m w)" "\<And>u. same_files w u \<Longrightarrow> answers b u (f a u)"
  shows "answers b w (io_bind m f w)"
proof -
  obtain x u where m: "m w = (x, u)" by force
  have s: "same_files w u" using assms(1) m by (simp add: answers_def)
  show ?thesis
  proof (cases x)
    case (Inl e)
    then show ?thesis using assms(1) m s by (auto simp: answers_def io_bind_def)
  next
    case (Inr y)
    then have "y = a" using assms(1) m by (simp add: answers_def)
    then show ?thesis
      using assms(1) assms(2) [OF s] m Inr s by (auto simp: answers_def io_bind_def intro: same_files_trans)
  qed
qed

lemma answers_InrD: "answers a w (Inr b, w') \<Longrightarrow> b = a \<and> same_files w w'"
  by (simp add: answers_def)

lemma answers_quiet: "answers a w r \<Longrightarrow> script w = [] \<Longrightarrow> r = (Inr a, w)"
  unfolding answers_def by blast

text \<open>The chain as a reader of \<open>f\<close> sees it.\<close>

definition chain_in :: "timelite_file \<Rightarrow> u64 \<Rightarrow> segment_content list \<Rightarrow> os \<Rightarrow> bool" where
  "chain_in f end ss w \<longleftrightarrow>
     is_opened w f \<and> unat end < 2 ^ 62 \<and> (\<exists>ret. seg_chain (fdata w f) end ret 160 1 ss)"

lemma chain_in_same: "same_files w u \<Longrightarrow> chain_in f end ss u = chain_in f end ss w"
  using same_files_views [of w u] by (simp add: chain_in_def)

lemma chain_in_view: "database_view w h ss \<Longrightarrow> chain_in (batch_file h False) (private_data_end h) ss w"
  using database_viewD(1,3,4) [of w h ss] by (auto simp: chain_in_def)

lemma read_segment_answers:
  assumes "chain_in f end ss w" "0 < n" "n \<le> length ss"
  shows "answers (fst (ss ! (n - 1))) w (read_segment f (seg_offset ss n) end w)"
proof -
  from assms(1) obtain ret where c: "is_opened w f" "unat end < 2 ^ 62" "seg_chain (fdata w f) end ret 160 1 ss"
    by (auto simp: chain_in_def)
  note d = seg_offset_nth [OF c(3) assms(2,3)]
  obtain x u where r: "read_segment f (seg_offset ss n) end w = (x, u)" by force
  have "b = fst (ss ! (n - 1))" if "x = Inr b" for b
    using read_segment_sound [OF r [unfolded that] c(1)] d by simp
  moreover have "(x, u) = (Inr (fst (ss ! (n - 1))), w)" if "script w = []"
    using read_segment_quiet [OF that c(1,2), of "seg_offset ss n"] d r by simp
  ultimately show ?thesis
    unfolding answers_def r fst_conv snd_conv using reads_onlyD [OF reads_only_read_segment r] by blast
qed

lemma segment_walk_answers:
  "chain_in f end ss w \<Longrightarrow> current = seg_offset ss (unat n) \<Longrightarrow> 0 < unat n \<Longrightarrow> unat n \<le> unat target \<Longrightarrow>
     unat target \<le> length ss \<Longrightarrow>
     answers (seg_offset ss (unat target), fst (ss ! (unat target - 1))) w (segment_walk f end target n current w)"
proof (induction "unat target - unat n" arbitrary: n current w)
  case 0
  then have "n = target" by (simp add: word_unat_eq_iff)
  then have eq: "segment_walk f end target n current =
      io_bind (read_segment f current end) (\<lambda>segment w. (Inr (current, segment), w))"
    by (intro ext, subst segment_walk.simps) (simp add: io_bind_def split: prod.splits sum.splits)
  have "answers (fst (ss ! (unat target - 1))) w (read_segment f current end w)"
    using read_segment_answers [OF 0(2), of "unat n"] 0 \<open>n = target\<close> by simp
  then show ?case unfolding eq by (rule answers_bind) (use 0 \<open>n = target\<close> in simp)
next
  case (Suc d)
  then have lt: "n < target" by (simp add: word_less_nat_alt)
  then have eq: "segment_walk f end target n current =
      io_bind (read_segment f current end) (\<lambda>s. segment_walk f end target (n + 1) (current + segment_extent s))"
    by (intro ext, subst segment_walk.simps) (simp add: io_bind_def split: prod.splits sum.splits)
  have n: "unat (n + 1) = Suc (unat n)"
    using lt u64_bound [of target] by (subst u64_add) (simp_all add: word_less_nat_alt)
  have "answers (fst (ss ! (unat n - 1))) w (read_segment f current end w)"
    using read_segment_answers [OF Suc.prems(1), of "unat n"] Suc.prems by simp
  then show ?case
    unfolding eq
  proof (rule answers_bind)
    fix u assume "same_files w u"
    with Suc lt n show "answers (seg_offset ss (unat target), fst (ss ! (unat target - 1))) u
        (segment_walk f end target (n + 1) (current + segment_extent (fst (ss ! (unat n - 1)))) u)"
      by (intro Suc.hyps) (simp_all add: chain_in_same seg_offset_Suc word_less_nat_alt)
  qed
qed

text \<open>The skip links lead to the segment asked for.\<close>

lemma segment_at_answers:
  "chain_in f end ss w \<Longrightarrow> links_ok ss \<Longrightarrow> current = seg_offset ss (unat n) \<Longrightarrow> 0 < unat target \<Longrightarrow>
     unat target \<le> unat n \<Longrightarrow> unat n \<le> length ss \<Longrightarrow>
     answers (seg_offset ss (unat target), fst (ss ! (unat target - 1))) w (segment_at f end n current target w)"
proof (induction "unat n" arbitrary: n current w rule: less_induct)
  case less
  let ?s = "fst (ss ! (unat n - 1))" and ?a = "(seg_offset ss (unat target), fst (ss ! (unat target - 1)))"
  have n0: "n \<noteq> 0" "0 < unat n" using less.prems(4,5) by auto
  have eq: "segment_at f end n current target =
      io_bind (read_segment f current end) (\<lambda>s w.
        if n = target then (Inr (current, s), w)
        else if seg_header_size s = 32 then segment_walk f end target 1 160 w
        else if n - low_bit n \<ge> target then segment_at f end (n - low_bit n) (seg_skip s) target w
        else segment_at f end (n - 1) (seg_previous s) target w)"
    using n0 by (intro ext, subst segment_at.simps) (auto simp: io_bind_def)
  have "answers ?s w (read_segment f current end w)"
    using read_segment_answers [OF less.prems(1), of "unat n"] less.prems(3,6) n0 by simp
  then show ?case
    unfolding eq
  proof (rule answers_bind)
    fix u assume u: "same_files w u"
    then have c: "chain_in f end ss u" using less.prems(1) by (simp add: chain_in_same)
    show "answers ?a u (if n = target then (Inr (current, ?s), u)
        else if seg_header_size ?s = 32 then segment_walk f end target 1 160 u
        else if n - low_bit n \<ge> target then segment_at f end (n - low_bit n) (seg_skip ?s) target u
        else segment_at f end (n - 1) (seg_previous ?s) target u)"
    proof (cases "n = target \<or> seg_header_size ?s = 32")
      case True
      have "answers ?a u (segment_walk f end target 1 160 u)"
        using c less.prems by (intro segment_walk_answers) simp_all
      then show ?thesis using True less.prems(3) by auto
    next
      case False
      have hs: "seg_header_size ?s = 32 \<or> seg_header_size ?s = 64"
      proof -
        obtain ret where "seg_chain (fdata u f) end ret 160 1 ss" using c by (auto simp: chain_in_def)
        from decode_segment_InrD(2) [OF seg_offset_nth [OF this n0(2) less.prems(6)]] show ?thesis .
      qed
      have i: "unat n - 1 < length ss" "Suc (unat n - 1) = unat n" using less.prems(6) n0 by simp_all
      have l: "seg_previous ?s = seg_offset ss (unat n - 1)"
        "seg_skip ?s = seg_offset ss (unat n - unat (low_bit n))"
        using less.prems(2) i hs False unfolding links_ok_def by (auto simp: Suc_diff_1)
      have lb: "low_bit n \<noteq> 0" "unat (low_bit n) \<le> unat n" using low_bit_props(1,2) [OF n0(1)] by (simp_all add: word_le_nat_alt)
      then have sub: "unat (n - low_bit n) = unat n - unat (low_bit n)" "0 < unat (low_bit n)"
        by (simp_all add: u64_arith unat_gt_0)
      have one: "unat (n - 1) = unat n - 1" by (rule unat_minus_one) (rule n0)
      have "unat target < unat n" using False less.prems(5) by (metis le_neq_implies_less word_unat_eq_iff)
      then have lt: "unat (n - 1) < unat n" "unat (n - low_bit n) < unat n" "unat target \<le> unat (n - 1)"
        using sub one n0(2) by linarith+
      have "answers ?a u (segment_at f end (n - low_bit n) (seg_skip ?s) target u)" if "n - low_bit n \<ge> target"
        using that lt l sub c less.prems by (intro less.hyps) (simp_all add: word_le_nat_alt)
      moreover have "answers ?a u (segment_at f end (n - 1) (seg_previous ?s) target u)"
        using lt l one c less.prems by (intro less.hyps) simp_all
      ultimately show ?thesis using False by simp
    qed
  qed
qed

section \<open>The links of a new segment\<close>

lemma seg_chain_count: "seg_chain D end ret off sq ss \<Longrightarrow> unat off + 32 * length ss \<le> unat end"
proof (induction D "end" ret off sq ss rule: seg_chain.induct)
  case (2 D e ret off sq s bs ss)
  then have d: "decode_segment D off e = Inr s" by simp
  note n = decode_segment_InrD [OF d]
  have "unat (off + segment_extent s) + 32 * length ss \<le> unat e" using 2 by simp
  then show ?case using n(2,6,7) by auto
qed simp

lemma view_ordinal:
  assumes "database_view w h ss"
  shows "length ss < 2 ^ 25" "unat (private_generation h + 1) = Suc (length ss)"
    "private_generation h + 1 = of_nat (Suc (length ss))"
proof -
  note d = database_viewD [OF assms]
  show n: "length ss < 2 ^ 25" using seg_chain_count [OF d(4)] d(3) by simp
  show "unat (private_generation h + 1) = Suc (length ss)" using d(6) n by (subst u64_add) simp_all
  have "private_generation h = of_nat (length ss)" using d(6) by (metis of_nat_unat ucast_id)
  then show "private_generation h + 1 = of_nat (Suc (length ss))" by simp
qed

definition prior_maximum :: "timelite_batches \<Rightarrow> segment_content list \<Rightarrow> u64" where
  "prior_maximum h ss =
     (if private_retention h \<and> ss \<noteq> [] then seg_maximum (fst (last ss)) else private_installed_time h)"

definition skip_link :: "segment_content list \<Rightarrow> u64" where
  "skip_link ss = seg_offset ss (Suc (length ss) - unat (low_bit (of_nat (Suc (length ss)))))"

lemma checkpoint_links_answers:
  assumes "database_view w h ss"
  shows "answers (skip_link ss, prior_maximum h ss) w (checkpoint_links h w)"
proof -
  let ?g = "private_generation h" and ?f = "batch_file h False" and ?n = "Suc (length ss)"
  let ?t = "?g + 1 - low_bit (?g + 1)"
  note d = database_viewD [OF assms] and c = chain_in_view [OF assms] and o = view_ordinal [OF assms]
  have g0: "?g + 1 \<noteq> 0" using o(2) by auto
  have lb: "0 < unat (low_bit (?g + 1))" "unat (low_bit (?g + 1)) \<le> ?n"
    using low_bit_props(1,2) [OF g0] o(2) by (simp_all add: word_le_nat_alt unat_gt_0)
  then have t: "unat ?t = ?n - unat (low_bit (of_nat ?n))"
    using o(2) unfolding o(3) [symmetric] by (simp add: u64_arith)
  then have sk: "skip_link ss = seg_offset ss (unat ?t)" by (simp add: skip_link_def)
  have tn: "unat ?t \<le> unat ?g" using t lb d(6) unfolding o(3) [symmetric] by linarith
  have z: "?t = 0 \<longleftrightarrow> unat ?t = 0" by (simp add: unat_eq_0)
  let ?m = "\<lambda>w. if ?t \<noteq> 0 then io_bind (segment_at ?f (private_data_end h) ?g (private_last_segment h) ?t)
      (\<lambda>(skip, segment) w. (Inr skip, w)) w else (Inr 0, w)"
  let ?k = "\<lambda>skip w. if private_retention h \<and> ?g \<noteq> 0 then
      io_bind (read_segment ?f (private_last_segment h) (private_data_end h))
        (\<lambda>segment w. (Inr (skip, seg_maximum segment), w)) w else (Inr (skip, private_installed_time h), w)"
  have "answers (skip_link ss) w (?m w)"
  proof (cases "?t = 0")
    case True
    then have "skip_link ss = 0" using sk by (simp add: seg_offset_def)
    then show ?thesis using True by simp
  next
    case False
    then have pos: "0 < unat ?t" using z by simp
    have "answers (seg_offset ss (unat ?t), fst (ss ! (unat ?t - 1))) w
        (segment_at ?f (private_data_end h) ?g (private_last_segment h) ?t w)"
      by (rule segment_at_answers [OF c d(5) _ pos tn]) (use d(6,7) in simp_all)
    then have "answers (skip_link ss) w (io_bind (segment_at ?f (private_data_end h) ?g (private_last_segment h) ?t)
      (\<lambda>(skip, segment) w. (Inr skip, w)) w)"
      by (rule answers_bind) (simp add: sk)
    then show ?thesis using False by simp
  qed
  moreover have "answers (skip_link ss, prior_maximum h ss) u (?k (skip_link ss) u)" if u: "same_files w u" for u
  proof (cases "private_retention h \<and> ?g \<noteq> 0")
    case True
    then have ss: "ss \<noteq> []" using d(6) by (auto simp: unat_eq_0)
    then have "answers (fst (last ss)) u (read_segment ?f (seg_offset ss (length ss)) (private_data_end h) u)"
      using read_segment_answers [of ?f "private_data_end h" ss u "length ss"] c u
      by (simp add: chain_in_same last_conv_nth)
    then have "answers (skip_link ss, prior_maximum h ss) u
        (io_bind (read_segment ?f (seg_offset ss (length ss)) (private_data_end h))
          (\<lambda>segment w. (Inr (skip_link ss, seg_maximum segment), w)) u)"
      by (rule answers_bind) (use True ss in \<open>simp add: prior_maximum_def\<close>)
    then show ?thesis using True d(7) by simp
  next
    case False
    then have "\<not> (private_retention h \<and> ss \<noteq> [])" using d(6) by auto
    then have "prior_maximum h ss = private_installed_time h" unfolding prior_maximum_def by (rule if_not_P)
    then show ?thesis unfolding if_not_P [OF False] by simp
  qed
  ultimately show ?thesis
    unfolding checkpoint_links_def Let_def by (rule answers_bind)
qed

section \<open>Writing one file\<close>

text \<open>Only \<open>f\<close> was written, and its contents changed by \<open>g\<close>.\<close>

definition wrote :: "timelite_file \<Rightarrow> (bytes \<Rightarrow> bytes) \<Rightarrow> os \<Rightarrow> os \<Rightarrow> bool" where
  "wrote f g w w' \<longleftrightarrow>
     is_opened w' = is_opened w \<and> posix_alias w' = posix_alias w \<and> fdata w' f = g (fdata w f) \<and>
     (\<forall>k. \<not> posix_alias w f k \<longrightarrow> fdata w' k = fdata w k \<and> fsynced w' k = fsynced w k)"

named_theorems writing \<open>effects of the writing operations\<close>

lemma wrote_trans: "wrote f g w u \<Longrightarrow> wrote f k u v \<Longrightarrow> wrote f (\<lambda>x. k (g x)) w v"
  by (simp add: wrote_def)

lemma wrote_same: "same_files w w' \<Longrightarrow> wrote f (\<lambda>x. x) w w'"
  using same_files_views [of w w'] by (simp add: wrote_def)

lemma wrote_write: "write_exact f off bs w = (None, w') \<Longrightarrow> is_opened w f \<Longrightarrow> wrote f (overwrite (unat off) bs) w w'"
  using posix_write_views [of f off bs w None _ w'] write_exact_ok [of f off bs w w'] by (auto simp: wrote_def)

lemma wrote_sync: "timelite_file_sync (Some f) w = (e, w') \<Longrightarrow> is_opened w f \<Longrightarrow> wrote f (\<lambda>x. x) w w'"
  using posix_sync_views [of f w e w'] by (simp add: wrote_def)

lemma wrote_truncate:
  "timelite_file_truncate (Some f) n w = (None, w') \<Longrightarrow> is_opened w f \<Longrightarrow> wrote f (resize (unat n)) w w'"
  using posix_truncate_views [of f n w None w'] by (simp add: wrote_def)

text \<open>The loop that copies the frames of the WAL into the database.\<close>

definition copy_frame :: "timelite_file \<Rightarrow> u64 \<Rightarrow> bytes \<Rightarrow> nat \<Rightarrow> nat \<Rightarrow> u64 \<Rightarrow> unit \<Rightarrow> os \<Rightarrow> (error + unit) \<times> os" where
  "copy_frame database data_end bytes len records offset acc =
     io_seq (write_exact database (data_end + 64 + offset - 32) bytes) (\<lambda>w. (Inr (), w))"

lemma copy_frames_ok:
  assumes "\<not> posix_alias w db wal" "is_opened w db" "is_opened w wal"
    and "scan_frames (copy_frame db data_end) False wal end pos seq () w = (Inr (offset, nxt, x), w')"
    and "list_all valid_batch bs" "block (unat pos) (length (encode_frames seq bs)) (fdata w wal) = encode_frames seq bs"
    and "unat pos + length (encode_frames seq bs) = unat end" "32 \<le> unat pos"
    and "unat data_end + 64 + unat end < 2 ^ 64"
  shows "nxt = seq + of_nat (length bs) \<and>
    wrote db (overwrite (unat data_end + 64 + unat pos - 32) (encode_frames seq bs)) w w'"
  using assms(1-8)
proof (induction bs arbitrary: pos seq w)
  case Nil
  then have "pos = end" by (simp add: word_unat_eq_iff)
  then show ?case using Nil(4) by (simp add: scan_frames_end wrote_def)
next
  case (Cons rs bs)
  let ?n = "64 + length rs * 20" and ?m = "length (encode_frames (seq + 1) bs)"
  have v: "valid_batch rs" "list_all valid_batch bs" using Cons.prems by simp_all
  have b: "block (unat pos) ?n (fdata w wal) = encode_frame seq rs"
    "block (unat pos + ?n) ?m (fdata w wal) = encode_frames (seq + 1) bs"
    using Cons.prems(6) block_append_split [of "unat pos" ?n ?m "fdata w wal" "encode_frame seq rs"] by simp_all
  have e: "unat pos + (?n + ?m) = unat end" using Cons.prems(7) by simp
  then have o: "unat (pos + of_nat ?n) = unat pos + ?n"
    using u64_bound [of "end"] by (intro u64_offset) simp
  have q: "unat (data_end + 64 + pos - 32) = unat data_end + 64 + unat pos - 32"
    using assms(9) e by (simp add: u64_arith)
  have lt: "pos < end" using e by (simp add: word_less_nat_alt)
  from Cons.prems(4) lt obtain bytes len records u1 u where
    rf: "read_frame wal pos end seq w = (Inr (bytes, len, records), u1)"
    and wr: "write_exact db (data_end + 64 + pos - 32) bytes u1 = (None, u)"
    and rec: "scan_frames (copy_frame db data_end) False wal end (pos + of_nat len) (seq + 1) () u = (Inr (offset, nxt, x), w')"
    by (subst (asm) scan_frames.simps)
      (auto simp: copy_frame_def io_seq_def split: prod.splits sum.splits option.splits if_splits)
  note s = read_frame_sound [OF rf Cons.prems(3) b(1) v(1)]
  have w1: "wrote db (\<lambda>x. x) w u1" using wrote_same [OF reads_onlyD [OF reads_only_read_frame rf]] .
  then have w2: "wrote db (overwrite (unat data_end + 64 + unat pos - 32) (encode_frame seq rs)) u1 u"
    using wrote_write [OF wr] Cons.prems(2) s(1) q by (simp add: wrote_def)
  have uv: "\<not> posix_alias u db wal" "is_opened u db" "is_opened u wal" "fdata u wal = fdata w wal"
    using w1 w2 Cons.prems(1-3) by (simp_all add: wrote_def)
  from Cons.IH [OF uv(1-3) rec v(2)] b(2) e o uv(4) s(2) Cons.prems(8)
  have ih: "nxt = seq + 1 + of_nat (length bs)"
    "wrote db (overwrite (unat data_end + 64 + (unat pos + ?n) - 32) (encode_frames (seq + 1) bs)) u w'"
    by (simp_all del: of_nat_add)
  have "wrote db (\<lambda>x. overwrite (unat data_end + 64 + (unat pos + ?n) - 32) (encode_frames (seq + 1) bs)
      (overwrite (unat data_end + 64 + unat pos - 32) (encode_frame seq rs) x)) w w'"
    using wrote_trans [OF wrote_trans [OF w1 w2] ih(2)] .
  moreover have n: "unat data_end + 64 + (unat pos + ?n) - 32 =
      unat data_end + 64 + unat pos - 32 + length (encode_frame seq rs)" using Cons.prems(8) by simp
  ultimately have "wrote db (overwrite (unat data_end + 64 + unat pos - 32) (encode_frames seq (rs # bs))) w w'"
    unfolding n overwrite_adjacent encode_frames.simps by blast
  then show ?case using ih(1) by (simp add: add.assoc)
qed

section \<open>A chain grows at its end\<close>

text \<open>Two files that agree between the manifest area and \<open>end\<close>.\<close>

definition agree :: "nat \<Rightarrow> bytes \<Rightarrow> bytes \<Rightarrow> bool" where
  "agree end D D' \<longleftrightarrow> (\<forall>i n. 160 \<le> i \<longrightarrow> i + n \<le> end \<longrightarrow> block i n D' = block i n D)"

lemma decode_segment_bytes:
  assumes "decode_segment D off end = Inr s"
  shows "unat off + seg_header_size s \<le> length D"
proof -
  have "seg_header_size s = 64 \<and> unat off + 64 \<le> length D \<or> seg_header_size s = 32 \<and> unat off + 32 \<le> length D"
    using assms by (auto simp: decode_segment_def Let_def not_less dest: parse_segment_InrD split: if_splits)
  then show ?thesis by auto
qed

lemma parse_segment_mono:
  assumes "parse_segment h hs ord off end = Inr s" "end \<le> end'" "of_nat hs \<le> end - off" "off \<le> end"
  shows "parse_segment h hs ord off end' = Inr s"
proof -
  have "end - off - of_nat hs \<le> end' - off - of_nat hs"
  proof -
    have a: "unat (end - off) = unat end - unat off" "unat (end' - off) = unat end' - unat off"
      using assms(2,4) by (simp_all add: u64_arith)
    moreover have le: "unat (of_nat hs :: u64) \<le> unat (end - off)" using assms(3) by (simp add: word_le_nat_alt)
    moreover have "unat (of_nat hs :: u64) \<le> unat (end' - off)" using le a assms(2) by (simp add: word_le_nat_alt)
    ultimately show ?thesis using assms(2) by (simp add: word_le_nat_alt u64_sub)
  qed
  moreover have "ucast (decode32 (drop 24 h)) \<le> end - off - of_nat hs"
    using assms(1) unfolding parse_segment_def Let_def by (simp only: not_less not_le de_Morgan_disj split: if_splits) simp_all
  ultimately have e: "(ucast (decode32 (drop 24 h)) > end - off - of_nat hs) = False"
    "(ucast (decode32 (drop 24 h)) > end' - off - of_nat hs) = False" by auto
  show ?thesis using assms(1) unfolding parse_segment_def Let_def e .
qed

lemma decode_segment_agree:
  assumes "decode_segment D off end = Inr s" "agree (unat end) D D'" "160 \<le> unat off" "end \<le> end'"
    and "unat end \<le> length D'"
  shows "decode_segment D' off end' = Inr s"
proof -
  note d = assms(1) [unfolded decode_segment_def Let_def]
  have g: "\<not> off > end" "\<not> end - off < 32" using d by (auto split: if_splits)
  have gap: "unat (end - off) = unat end - unat off" using g(1) by (simp add: u64_arith not_less)
  have r32: "unat off + 32 \<le> unat end" using g gap by (simp add: word_less_nat_alt word_le_nat_alt not_less)
  have h: "block (unat off) 32 D' = block (unat off) 32 D" using assms(2,3) r32 by (simp add: agree_def)
  have gap': "unat (end' - off) = unat end' - unat off" using g(1) assms(4) by (simp add: u64_arith not_less)
  have g': "\<not> off > end'" "\<not> end' - off < 32" "\<not> length D' < unat off + 32"
    using g assms(4,5) r32 gap' by (auto simp: word_less_nat_alt word_le_nat_alt not_less)
  show ?thesis
  proof (cases "has_magic (block (unat off) 32 D) ''TLSPAN07'' \<or> has_magic (block (unat off) 32 D) ''TLUNOR07''")
    case True
    then have g64: "\<not> end - off < 64" and p: "parse_segment (block (unat off) 64 D) 64
        (has_magic (block (unat off) 32 D) ''TLSPAN07'') off end = Inr s"
      using d by (auto split: if_splits)
    have r64: "unat off + 64 \<le> unat end" using g64 g(1) gap by (simp add: word_less_nat_alt word_le_nat_alt not_less)
    then have "block (unat off) 64 D' = block (unat off) 64 D" using assms(2,3) by (simp add: agree_def)
    moreover have "\<not> end' - off < 64" "\<not> length D' < unat off + 64"
      using r64 assms(4,5) gap' by (simp_all add: word_less_nat_alt word_le_nat_alt not_less)
    moreover have "parse_segment (block (unat off) 64 D) 64
        (has_magic (block (unat off) 32 D) ''TLSPAN07'') off end' = Inr s"
      using parse_segment_mono [OF p assms(4)] g g64 by (simp add: not_less)
    ultimately show ?thesis using True g' h unfolding decode_segment_def Let_def by auto
  next
    case False
    then have m: "has_magic (block (unat off) 32 D) ''TLSEGMNT''"
      and p: "parse_segment (block (unat off) 32 D) 32 False off end = Inr s"
      using d by (auto split: if_splits)
    have "parse_segment (block (unat off) 32 D) 32 False off end' = Inr s"
      using parse_segment_mono [OF p assms(4)] g by (simp add: not_less)
    then show ?thesis using False m g' h unfolding decode_segment_def Let_def by auto
  qed
qed

lemma segment_body_agree:
  assumes "segment_body D off s bs" "agree e D D'" "160 \<le> unat off"
    and "unat off + (seg_header_size s + unat (seg_body s)) \<le> e"
  shows "segment_body D' off s bs"
proof -
  have "block (unat off + seg_header_size s) (unat (seg_body s)) D' =
      block (unat off + seg_header_size s) (unat (seg_body s)) D"
    using assms(2-4) by (simp add: agree_def)
  then show ?thesis using assms(1) unfolding segment_body_def by (elim conjE, intro conjI) (assumption | erule trans)+
qed

lemma seg_chain_extend:
  assumes "agree (unat end) D D'" "end \<le> end'" "unat end \<le> length D'"
  shows "seg_chain D end ret off sq ss \<Longrightarrow> 160 \<le> unat off \<Longrightarrow>
    seg_chain D' end' ret end (chain_next sq ss) ts \<Longrightarrow> seg_chain D' end' ret off sq (ss @ ts)"
  using assms
proof (induction D "end" ret off sq ss rule: seg_chain.induct)
  case (2 D e ret off sq s bs ss)
  then have d: "decode_segment D off e = Inr s" by simp
  note n = decode_segment_InrD [OF d]
  have "decode_segment D' off end' = Inr s" using decode_segment_agree [OF d 2(5,3,6,7)] .
  moreover have "segment_body D' off s bs"
    using segment_body_agree [OF _ 2(5,3)] 2(2) n(3,6) by simp
  moreover have "seg_chain D' end' ret (off + segment_extent s) (unat (seg_last s) + 1) (ss @ ts)"
    using 2 n(7) by simp
  ultimately show ?case using 2(2) by simp
qed simp

lemma seg_chain_length:
  "seg_chain D end ret off sq ss \<Longrightarrow> ss \<noteq> [] \<Longrightarrow> unat end \<le> length D"
proof (induction D "end" ret off sq ss rule: seg_chain.induct)
  case (2 D e ret off sq s bs ss)
  then have d: "decode_segment D off e = Inr s" and b: "segment_body D off s bs" by simp_all
  show ?case
  proof (cases "ss = []")
    case True
    note n = decode_segment_InrD [OF d]
    have bl: "block (unat off + seg_header_size s) (unat (seg_body s)) D = encode_frames (seg_first s) bs"
      "unat (seg_body s) = length (encode_frames (seg_first s) bs)" using b unfolding segment_body_def by blast+
    from arg_cong [OF bl(1), of length] bl(2) have "min (unat (seg_body s)) (length D - (unat off + seg_header_size s)) = unat (seg_body s)"
      by (simp add: length_block)
    then have "unat off + seg_header_size s + unat (seg_body s) \<le> length D"
      using decode_segment_bytes [OF d] by (auto simp: min_def split: if_splits)
    then show ?thesis using 2(2) True n(6,7) by simp
  qed (use 2 in simp)
qed simp

lemma seg_offset_range:
  assumes "seg_chain D end ret 160 1 ss" "0 < n" "n \<le> length ss"
  shows "160 \<le> unat (seg_offset ss n)" "unat (seg_offset ss n) < unat end"
proof -
  have mono: "unat off \<le> unat (chain_end off pre)" if "seg_chain D end ret off sq (pre @ ts)" for off sq pre ts
    using that
  proof (induction pre arbitrary: off sq)
    case (Cons x pre)
    obtain s b where x: "x = (s, b)" by force
    have "decode_segment D off end = Inr s" using Cons.prems x by simp
    note n = decode_segment_InrD(7) [OF this]
    have "unat (off + segment_extent s) \<le> unat (chain_end (off + segment_extent s) pre)"
      using Cons.prems x by (intro Cons.IH) auto
    then show ?case using n x by simp
  qed simp
  show "160 \<le> unat (seg_offset ss n)"
    using mono [of 160 1 "take (n - 1) ss" "drop (n - 1) ss"] assms by (simp add: seg_offset_def)
  note d = decode_segment_InrD [OF seg_offset_nth [OF assms]]
  show "unat (seg_offset ss n) < unat end" using d(2,3,6) by auto
qed

section \<open>The new segment\<close>

definition new_segment :: "timelite_batches \<Rightarrow> u64 \<Rightarrow> segment_info" where
  "new_segment h skip =
     \<lparr>seg_first = private_installed h + 1, seg_last = private_sequence h,
      seg_minimum = private_wal_minimum h, seg_maximum = private_wal_maximum h,
      seg_previous = private_last_segment h, seg_skip = skip, seg_body = ucast (private_end h - 32),
      seg_header_size = 64, seg_ordered = private_wal_ordered h\<rparr>"

definition segment_header :: "timelite_batches \<Rightarrow> u64 \<Rightarrow> bytes" where
  "segment_header h skip =
     encode_segment (private_installed h + 1) (private_sequence h) (ucast (private_end h - 32))
       (private_wal_minimum h) (private_wal_maximum h) (private_last_segment h) skip (private_wal_ordered h)"

lemma length_encode_frames_bounds:
  "list_all valid_batch bs \<Longrightarrow> 84 * length bs \<le> length (encode_frames n bs)"
  "list_all valid_batch bs \<Longrightarrow> length (encode_frames n bs) \<le> TIMELITE_BATCH_SCRATCH * length bs"
proof -
  show "84 * length bs \<le> length (encode_frames n bs)" if "list_all valid_batch bs"
    using that
  proof (induction bs arbitrary: n)
    case (Cons b bs)
    then have "84 * length bs \<le> length (encode_frames (n + 1) bs)" "20 \<le> length b * 20"
      by (cases b; auto simp: valid_batch_def)+
    then show ?case by simp
  qed simp
  show "length (encode_frames n bs) \<le> TIMELITE_BATCH_SCRATCH * length bs" if "list_all valid_batch bs"
    using that
  proof (induction bs arbitrary: n)
    case (Cons b bs)
    then have "length (encode_frames (n + 1) bs) \<le> 1344 * length bs" "length b \<le> 64" by (auto simp: valid_batch_def)
    then show ?case by simp
  qed simp
qed

text \<open>The sizes and numbers of a WAL that holds something.\<close>

lemma wal_view_sizes:
  assumes "wal_view w h bs" "bs \<noteq> []"
  defines "n \<equiv> length (encode_frames (private_installed h + 1) bs)"
  shows "unat (private_end h - 32) = n" "unat (ucast (private_end h - 32) :: u32) = n"
    "84 * length bs \<le> n" "n \<le> 1344 * length bs" "n + 32 \<le> unat TIMELITE_WAL_CAPACITY"
    "unat (private_installed h + 1) = unat (private_installed h) + 1"
    "unat (private_end h) = 32 + n"
proof -
  from assms(1) have v: "unat (private_end h) = 32 + n" "unat (private_end h) \<le> unat TIMELITE_WAL_CAPACITY"
    "unat (private_sequence h) = unat (private_installed h) + length bs" "list_all valid_batch bs"
    unfolding wal_view_def n_def by auto
  show "unat (private_end h) = 32 + n" by (fact v)
  show e: "unat (private_end h - 32) = n" using v(1) by (simp add: u64_arith)
  show n: "84 * length bs \<le> n" "n \<le> 1344 * length bs"
    using length_encode_frames_bounds [OF v(4), of "private_installed h + 1"] by (simp_all add: n_def)
  show "n + 32 \<le> unat TIMELITE_WAL_CAPACITY" using v(1,2) by simp
  then have "n < 2 ^ 32" by simp
  then show "unat (ucast (private_end h - 32) :: u32) = n"
    using e by (simp add: unsigned_ucast_eq take_bit_nat_eq_self)
  show "unat (private_installed h + 1) = unat (private_installed h) + 1"
    using v(3) assms(2) u64_bound [of "private_sequence h"] by (cases bs) (simp_all add: u64_add)
qed

lemma wal_times_bounds:
  assumes "wal_view w h bs" "wal_times h bs" "bs \<noteq> []"
  shows "segment_times (new_segment h skip) bs" "private_wal_minimum h \<le> private_wal_maximum h"
proof -
  have ne: "batch_times bs \<noteq> []"
    using assms(1,3) by (intro batch_times_nonempty) (simp_all add: wal_view_def)
  have t: "private_wal_minimum h = Min (set (batch_times bs))" "private_wal_maximum h = Max (set (batch_times bs))"
    using assms(2,3) by (simp_all add: wal_times_def)
  show "segment_times (new_segment h skip) bs"
    using t assms(2) by (auto simp: segment_times_def new_segment_def wal_times_def)
  have "hd (batch_times bs) \<in> set (batch_times bs)" using ne by simp
  then show "private_wal_minimum h \<le> private_wal_maximum h"
    unfolding t by (meson List.finite_set Max_ge Min_le order_trans)
qed

lemma decode_new_segment:
  assumes "wal_view w h bs" "wal_times h bs" "bs \<noteq> []" "database_view u h ss"
    and "block (unat off) 64 D = segment_header h (skip_link ss)" "off = private_data_end h"
    and "new_end = off + 64 + (private_end h - 32)" "unat off + 64 \<le> length D"
    and "unat off + 64 + unat (private_end h - 32) \<le> unat TIMELITE_DATABASE_CAPACITY"
  shows "decode_segment D off new_end = Inr (new_segment h (skip_link ss))"
proof -
  let ?h = "segment_header h (skip_link ss)" and ?n = "unat (private_end h - 32)"
  note z = wal_view_sizes [OF assms(1,3)] and d = database_viewD [OF assms(4)]
  have ne: "unat new_end = unat off + 64 + ?n"
  proof -
    have "unat (off + 64) = unat off + 64" using assms(9) by (subst u64_add) simp_all
    then show ?thesis unfolding assms(7) using assms(9) by (subst u64_add) simp_all
  qed
  then have gap: "unat (new_end - off) = 64 + ?n" "off \<le> new_end" by (simp_all add: u64_arith)
  have gap64: "unat (new_end - off - 64) = ?n" using gap by (simp add: u64_arith)
  have h32: "block (unat off) 32 D = take 32 ?h" using block_prefix [OF assms(5), of 32] by simp
  have magic: "has_magic (take 32 ?h) s = has_magic ?h s" for s by (simp add: has_magic_def)
  have links: "private_last_segment h = 0 \<or> \<not> (private_last_segment h < 160) \<and> \<not> private_last_segment h \<ge> off"
    "skip_link ss = 0 \<or> \<not> (skip_link ss < 160) \<and> \<not> skip_link ss \<ge> off"
  proof -
    have "seg_offset ss n = 0 \<or> \<not> seg_offset ss n < 160 \<and> \<not> seg_offset ss n \<ge> off" if "n \<le> length ss" for n
      using seg_offset_range [OF d(4), of n] that assms(6)
      by (cases "n = 0") (auto simp: seg_offset_def word_less_nat_alt word_le_nat_alt)
    moreover have "Suc (length ss) - unat (low_bit (of_nat (Suc (length ss)))) \<le> length ss"
      using low_bit_props(1) [of "of_nat (Suc (length ss))"] view_ordinal [OF assms(4)]
      by (metis Suc_leI diff_Suc_1 diff_le_mono2 diff_Suc_Suc diff_zero minus_nat.diff_0 nat.simps(3) unat_0 unat_gt_0 zero_less_Suc)
    ultimately show "private_last_segment h = 0 \<or> \<not> (private_last_segment h < 160) \<and> \<not> private_last_segment h \<ge> off"
      "skip_link ss = 0 \<or> \<not> (skip_link ss < 160) \<and> \<not> skip_link ss \<ge> off"
      using d(7) by (auto simp: skip_link_def)
  qed
  have v: "unat (private_sequence h) = unat (private_installed h) + length bs" using assms(1) by (simp add: wal_view_def)
  have pos: "0 < length bs" using assms(3) by simp
  have frames: "unat (private_sequence h - (private_installed h + 1) + 1) = length bs"
  proof -
    have "private_sequence h - (private_installed h + 1) + 1 = private_sequence h - private_installed h" by simp
    then show ?thesis using v by (simp add: u64_sub)
  qed
  have body: "(ucast (ucast (private_end h - 32) :: u32) :: u64) = private_end h - 32"
    using z(1,2) by (simp add: word_unat_eq_iff ucast_seg_body)
  have "parse_segment ?h 64 (private_wal_ordered h) off new_end = Inr (new_segment h (skip_link ss))"
  proof -
    have fields: "decode64 (drop 8 ?h) = private_installed h + 1" "decode64 (drop 16 ?h) = private_sequence h"
      "decode32 (drop 24 ?h) = ucast (private_end h - 32)" "decode64 (drop 28 ?h) = private_wal_minimum h"
      "decode64 (drop 36 ?h) = private_wal_maximum h" "decode64 (drop 44 ?h) = private_last_segment h"
      "decode64 (drop 52 ?h) = skip_link ss" "checksum ?h 60 = decode32 (drop 60 ?h)"
      by (simp_all add: segment_header_def layout)
    have "private_installed h + 1 \<noteq> 0" using z(6) by auto
    moreover have "\<not> private_sequence h < private_installed h + 1" using v z(6) pos by (simp add: word_less_nat_alt)
    moreover have "\<not> private_end h - 32 > TIMELITE_WAL_CAPACITY - 32" "\<not> private_end h - 32 > new_end - off - 64"
      using z(1,5) gap64 by (simp_all add: word_less_nat_alt)
    moreover have "\<not> private_sequence h - (private_installed h + 1) + 1 > ucast ((ucast (private_end h - 32) :: u32) div 84)"
    proof -
      have "unat ((ucast (private_end h - 32) :: u32) div 84) = ?n div 84" using z(1,2) by (simp add: unat_div)
      moreover have "length bs \<le> ?n div 84" using z(1,3) by (simp add: less_eq_div_iff_mult_less_eq)
      ultimately show ?thesis unfolding word_less_nat_alt frames ucast_seg_body by simp
    qed
    moreover have "\<not> private_end h - 32 > (private_sequence h - (private_installed h + 1) + 1) * of_nat TIMELITE_BATCH_SCRATCH"
    proof -
      have "length bs * 1344 < 2 ^ 64" using z(3,5) by simp
      then have "unat (q * of_nat TIMELITE_BATCH_SCRATCH) = length bs * 1344" if "unat q = length bs" for q :: u64
        using that by (simp add: unat_word_ariths)
      from this [OF frames] show ?thesis using z(1,4) unfolding word_less_nat_alt by simp
    qed
    ultimately show ?thesis
      using fields links wal_times_bounds(2) [OF assms(1-3)] body
      unfolding parse_segment_def Let_def new_segment_def by (simp add: not_less)
  qed
  then show ?thesis
    using assms(5,8) gap h32 magic unfolding decode_segment_def Let_def
    by (cases "private_wal_ordered h") (simp_all add: segment_header_def layout word_less_nat_alt word_le_nat_alt)
qed

section \<open>The steps of a successful checkpoint\<close>

lemma checkpoint_success:
  assumes "timelite_batches_checkpoint (Some h) scratch n w = ((None, db'), w')"
  obtains
    (idle) "checkpoint_arguments (Some h) scratch n = (None, False)" "db' = Some h" "w' = w"
  | (installed) skip prior_max sq u0 u1 u2 u3 h2 h3 where
      "checkpoint_arguments (Some h) scratch n = (None, True)"
      "checkpoint_links h w = (Inr (skip, prior_max), u0)"
      "checkpoint_upgrade (h\<lparr>private_failed := True\<rparr>) u0 = (None, u1)"
      "h2 = h\<lparr>private_failed := True, private_legacy := False\<rparr>"
      "checkpoint_segment h2 skip u1 = (Inr sq, u2)" "checkpoint_install h2 sq u2 = (None, u3)"
      "h3 = installed_handle h2 prior_max sq" "checkpoint_reclaim h3 u3 = (None, w')"
      "db' = Some (h3\<lparr>private_end := 32, private_wal_ordered := True, private_failed := False\<rparr>)"
proof (cases "checkpoint_arguments (Some h) scratch n")
  case (Pair e go)
  then show thesis
  proof (cases go)
    case False
    then have "e = None \<and> db' = Some h \<and> w' = w"
      using assms Pair by (cases e) (auto simp: timelite_batches_checkpoint_def)
    then show thesis using Pair False by (simp add: idle)
  next
    case True
    then show thesis
      using assms Pair
      by (cases e) (auto simp: timelite_batches_checkpoint_def Let_def intro!: installed
          split: prod.splits sum.splits option.splits)
  qed
qed

text \<open>The bytes a checkpoint leaves in the database.\<close>

definition upgraded :: "timelite_batches \<Rightarrow> bytes \<Rightarrow> bytes" where
  "upgraded h D =
     (if private_legacy h then overwrite 32 (put 0 (encode_manifest 0 160 0 0 0) (replicate 128 0)) D else D)"

definition checkpointed :: "timelite_batches \<Rightarrow> u64 \<Rightarrow> timelite_record list list \<Rightarrow> bytes \<Rightarrow> bytes" where
  "checkpointed h skip bs D =
     overwrite (32 + 64 * unat ((private_revision h + 1) AND 1)) (checkpoint_manifest h (private_sequence h))
       (overwrite (unat (private_data_end h))
         (segment_header h skip @ encode_frames (private_installed h + 1) bs) (upgraded h D))"

lemma checkpoint_upgrade_wrote:
  "checkpoint_upgrade (h\<lparr>private_failed := x\<rparr>) w = (None, w') \<Longrightarrow> is_opened w (batch_file h False) \<Longrightarrow>
     wrote (batch_file h False) (upgraded h) w w'"
proof (cases "private_legacy h")
  case False
  assume "checkpoint_upgrade (h\<lparr>private_failed := x\<rparr>) w = (None, w')"
  then show ?thesis using False by (simp add: checkpoint_upgrade_def upgraded_def wrote_def)
next
  case True
  let ?b = "put 0 (encode_manifest 0 160 0 0 0) (replicate 128 0)"
  assume "checkpoint_upgrade (h\<lparr>private_failed := x\<rparr>) w = (None, w')" and o: "is_opened w (batch_file h False)"
  then obtain u where u: "write_exact (batch_file h False) 32 ?b w = (None, u)"
    "timelite_file_sync (Some (batch_file h False)) u = (None, w')"
    using True by (auto simp: checkpoint_upgrade_def unless_error_def Let_def split: prod.splits option.splits)
  note a = wrote_write [OF u(1) o]
  then have "is_opened u (batch_file h False)" using o by (simp add: wrote_def)
  from wrote_trans [OF a wrote_sync [OF u(2) this]] show ?thesis using True by (simp add: upgraded_def [abs_def])
qed

lemma checkpoint_segment_wrote:
  assumes "checkpoint_segment h skip w = (Inr sq, w')"
    and "is_opened w (batch_file h False)" "\<not> posix_alias w (batch_file h False) (batch_file h True)"
    and "is_opened w (batch_file h True)" "list_all valid_batch bs" "length header = 32"
    and "fdata w (batch_file h True) = header @ encode_frames (private_installed h + 1) bs"
    and "unat (private_end h) = length (fdata w (batch_file h True))"
    and "unat (private_data_end h) + 64 + unat (private_end h) < 2 ^ 64"
  shows "wrote (batch_file h False) (overwrite (unat (private_data_end h))
      (segment_header h skip @ encode_frames (private_installed h + 1) bs)) w w' \<and> sq = private_sequence h"
proof -
  let ?db = "batch_file h False" and ?wal = "batch_file h True" and ?d = "private_data_end h"
  let ?f = "encode_frames (private_installed h + 1) bs"
  have step: "(\<lambda>bytes len records offset _. io_seq (write_exact ?db (?d + 64 + offset - 32) bytes) (\<lambda>w. (Inr (), w))) =
      copy_frame ?db ?d"
    by (intro ext) (simp add: copy_frame_def)
  from assms(1) [unfolded checkpoint_segment_def Let_def step, folded segment_header_def, unfolded io_seq_Inr io_bind_Inr]
  obtain u y v where wr: "write_exact ?db ?d (segment_header h skip) w = (None, u)"
    and sc: "scan_frames (copy_frame ?db ?d) False ?wal (private_end h) 32 (private_installed h + 1) () u = (Inr y, v)"
    and fin: "(case y of (offset, nxt, _) \<Rightarrow> \<lambda>w. if nxt - 1 \<noteq> private_sequence h then (Inl INVALID_DATABASE, w)
        else io_seq (timelite_file_sync (Some ?db)) (\<lambda>w. (Inr (nxt - 1), w)) w) v = (Inr sq, w')"
    by blast
  obtain offset nxt x where y: "y = (offset, nxt, x)" by (cases y)
  have sy: "timelite_file_sync (Some ?db) v = (None, w')" and sq: "nxt - 1 = private_sequence h" "sq = nxt - 1"
    using fin y by (auto simp: io_seq_Inr split: if_splits)
  note sc = sc [unfolded y]
  note a = wrote_write [OF wr assms(2)]
  then have u: "is_opened u ?db" "\<not> posix_alias u ?db ?wal" "is_opened u ?wal" "fdata u ?wal = fdata w ?wal"
    using assms(2-4) by (simp_all add: wrote_def)
  have "block 32 (length ?f) (header @ ?f) = ?f" using assms(6) by (simp add: block_def)
  then have b: "wrote ?db (overwrite (unat ?d + 64 + 32 - 32) ?f) u v"
    using copy_frames_ok [OF u(2,1,3) sc assms(5)] u(4) assms(6-9) by simp
  then have "is_opened v ?db" using u(1) by (simp add: wrote_def)
  from wrote_trans [OF wrote_trans [OF a b] wrote_sync [OF sy this]]
  have "wrote ?db (\<lambda>D. overwrite (unat ?d + length (segment_header h skip)) ?f
      (overwrite (unat ?d) (segment_header h skip) D)) w w'"
    by (simp add: segment_header_def add.commute)
  then show ?thesis unfolding overwrite_adjacent using sq by simp
qed

lemma checkpoint_install_wrote:
  assumes "checkpoint_install h sq w = (None, w')" "is_opened w (batch_file h False)"
  shows "wrote (batch_file h False)
    (overwrite (32 + 64 * unat ((private_revision h + 1) AND 1)) (checkpoint_manifest h sq)) w w'"
    "fsynced w' (batch_file h False) = fdata w' (batch_file h False)"
proof -
  let ?db = "batch_file h False" and ?o = "32 + 64 * ((private_revision h + 1) AND 1)"
  have "unat ?o = 32 + 64 * unat ((private_revision h + 1) AND 1)"
    by (cases "even (private_revision h + 1)") (simp_all add: and_one_eq odd_iff_mod_2_eq_one even_iff_mod_2_eq_zero)
  note o = this
  from assms(1) obtain u where u: "write_exact ?db ?o (checkpoint_manifest h sq) w = (None, u)"
    "timelite_file_sync (Some ?db) u = (None, w')"
    by (auto simp: checkpoint_install_def unless_error_def Let_def split: prod.splits option.splits)
  note a = wrote_write [OF u(1) assms(2)]
  then have p: "is_opened u ?db" using assms(2) by (simp add: wrote_def)
  from wrote_trans [OF a wrote_sync [OF u(2) p]]
  show "wrote ?db (overwrite (32 + 64 * unat ((private_revision h + 1) AND 1)) (checkpoint_manifest h sq)) w w'"
    unfolding o .
  show "fsynced w' ?db = fdata w' ?db" using posix_sync_views [OF u(2) p] by simp
qed

lemma checkpoint_reclaim_wrote:
  assumes "checkpoint_reclaim h w = (None, w')" "is_opened w (batch_file h True)"
  shows "wrote (batch_file h True) (resize 32) w w'" "fsynced w' (batch_file h True) = fdata w' (batch_file h True)"
proof -
  let ?wal = "batch_file h True"
  from assms(1) obtain u where u: "timelite_file_truncate (Some ?wal) 32 w = (None, u)"
    "timelite_file_sync (Some ?wal) u = (None, w')"
    by (auto simp: checkpoint_reclaim_def unless_error_def Let_def split: prod.splits option.splits)
  note a = wrote_truncate [OF u(1) assms(2)]
  then have p: "is_opened u ?wal" using assms(2) by (simp add: wrote_def)
  from wrote_trans [OF a wrote_sync [OF u(2) p]] show "wrote ?wal (resize 32) w w'" by simp
  show "fsynced w' ?wal = fdata w' ?wal" using posix_sync_views [OF u(2) p] by simp
qed

section \<open>The store after a checkpoint\<close>

lemma slot_offset: "32 + 64 * unat (x AND 1 :: u64) + 64 \<le> 160"
  by (cases "even x") (simp_all add: and_one_eq odd_iff_mod_2_eq_one even_iff_mod_2_eq_zero)

lemma agree_overwrite_low: "off + length bs \<le> 160 \<Longrightarrow> agree e D (overwrite off bs D)"
  by (simp add: agree_def block_overwrite_after)

lemma agree_trans: "agree e D E \<Longrightarrow> agree e E F \<Longrightarrow> agree e D F"
  by (simp add: agree_def)

lemma length_checkpoint_manifest [simp]: "length (checkpoint_manifest h s) = 64"
  by (simp add: checkpoint_manifest_def Let_def)

lemma length_segment_header [simp]: "length (segment_header h s) = 64"
  by (simp add: segment_header_def)

lemma agree_upgraded: "agree e D (upgraded h D)" "length D \<le> length (upgraded h D)"
  by (simp_all add: upgraded_def agree_overwrite_low) (simp_all add: agree_def length_overwrite)

lemma checkpointed_blocks:
  assumes "unat (private_data_end h) \<le> length D \<or> unat (private_data_end h) = 160" "160 \<le> unat (private_data_end h)"
  defines "d \<equiv> unat (private_data_end h)" and "f \<equiv> encode_frames (private_installed h + 1)"
  shows "agree d D (checkpointed h skip bs D)"
    "block d 64 (checkpointed h skip bs D) = segment_header h skip"
    "block (d + 64) (length (f bs)) (checkpointed h skip bs D) = f bs"
    "d + 64 + length (f bs) \<le> length (checkpointed h skip bs D)"
proof -
  let ?E = "overwrite d (segment_header h skip @ f bs) (upgraded h D)"
  let ?o = "32 + 64 * unat ((private_revision h + 1) AND 1)"
  have c: "checkpointed h skip bs D = overwrite ?o (checkpoint_manifest h (private_sequence h)) ?E"
    by (simp add: checkpointed_def d_def f_def)
  have o: "?o + length (checkpoint_manifest h (private_sequence h)) \<le> 160" using slot_offset by simp
  have "agree d (upgraded h D) ?E"
  proof (cases "d \<le> length D")
    case True
    then show ?thesis using agree_upgraded(2) [of D h] by (simp add: agree_def block_overwrite_before)
  next
    case False
    then have "n = 0" if "160 \<le> i" "i + n \<le> d" for i n using that assms(1) by (simp add: d_def)
    then show ?thesis by (fastforce simp: agree_def block_def)
  qed
  with agree_upgraded(1) have "agree d D ?E" by (rule agree_trans)
  then show "agree d D (checkpointed h skip bs D)"
    unfolding c using agree_overwrite_low [OF o] by (rule agree_trans)
  have same: "block i n (checkpointed h skip bs D) = block i n ?E" if "d \<le> i" for i n
    unfolding c using o that assms(2) by (intro block_overwrite_after) (simp add: d_def)
  have w: "block d (64 + length (f bs)) ?E = segment_header h skip @ f bs"
    using block_overwrite_same [of d "segment_header h skip @ f bs" "upgraded h D"] by simp
  show "block d 64 (checkpointed h skip bs D) = segment_header h skip"
    "block (d + 64) (length (f bs)) (checkpointed h skip bs D) = f bs"
    using same block_append_split [OF w] by simp_all
  show "d + 64 + length (f bs) \<le> length (checkpointed h skip bs D)"
    unfolding c using length_segment_header [of h skip] by (auto simp: length_overwrite le_max_iff_disj simp del: length_segment_header)
qed

lemma installed_handle_simps [simp]:
  "batch_file (installed_handle h m s) b = batch_file h b"
  "private_installed (installed_handle h m s) = s"
  "private_sequence (installed_handle h m s) = private_sequence h"
  "private_data_end (installed_handle h m s) = private_data_end h + 64 + (private_end h - 32)"
  "private_last_segment (installed_handle h m s) = private_data_end h"
  "private_generation (installed_handle h m s) = private_generation h + 1"
  "private_revision (installed_handle h m s) = private_revision h + 1"
  "private_retention (installed_handle h m s) = private_retention h"
  "private_installed_time (installed_handle h m s) = private_last_time h"
  "private_read_sequence (installed_handle h m s) = private_read_sequence h"
  "\<not> private_in_wal (installed_handle h m s)"
  "private_cursor (installed_handle h m s) =
     (if private_in_wal h then private_data_end h + 64 + private_cursor h - 32 else private_cursor h)"
  "private_segment_end (installed_handle h m s) =
     (if private_in_wal h then private_data_end h + 64 + (private_end h - 32) else private_segment_end h)"
  "private_span_start (installed_handle h m s) =
     (if \<not> private_wal_ordered h then private_generation h + 1 + 1
      else if private_wal_first_time h < m then private_generation h + 1 else private_span_start h)"
  by (simp_all add: installed_handle_def Let_def batch_file_def)

lemma seg_offset_append: "n \<le> Suc (length ss) \<Longrightarrow> seg_offset (ss @ ts) n = seg_offset ss n"
  by (simp add: seg_offset_def)

lemma links_ok_snoc:
  assumes "links_ok ss" "seg_previous s = seg_offset ss (length ss)" "seg_skip s = skip_link ss"
  shows "links_ok (ss @ [(s, bs)])"
  unfolding links_ok_def
proof (intro allI impI)
  fix i assume i: "i < length (ss @ [(s, bs)])" and hs: "seg_header_size (fst ((ss @ [(s, bs)]) ! i)) = 64"
  have o: "seg_offset (ss @ [(s, bs)]) i = seg_offset ss i"
    "seg_offset (ss @ [(s, bs)]) (Suc i - k) = seg_offset ss (Suc i - k)" for k
    using i by (auto intro!: seg_offset_append)
  show "seg_previous (fst ((ss @ [(s, bs)]) ! i)) = seg_offset (ss @ [(s, bs)]) i \<and>
    seg_skip (fst ((ss @ [(s, bs)]) ! i)) =
      seg_offset (ss @ [(s, bs)]) (Suc i - unat (low_bit (of_nat (Suc i))))"
  proof (cases "i < length ss")
    case True
    then show ?thesis unfolding o using assms(1) hs by (simp add: links_ok_def nth_append)
  next
    case False
    then have "i = length ss" using i by simp
    then show ?thesis unfolding o using assms(2,3) by (simp add: skip_link_def)
  qed
qed

lemma span_ok_snoc:
  assumes "span_ok ss n" "n \<le> Suc (length ss) \<Longrightarrow> seg_ordered s"
    and "ss \<noteq> [] \<Longrightarrow> n \<le> length ss \<Longrightarrow> seg_maximum (fst (last ss)) \<le> seg_minimum s"
  shows "span_ok (ss @ [(s, bs)]) n"
proof -
  have "seg_maximum (fst (ss ! i)) \<le> seg_minimum s" if "Suc i = length ss" "n \<le> length ss" for i
  proof -
    have "ss \<noteq> []" "length ss - 1 = i" using that(1) by auto
    then have "ss \<noteq> []" "last ss = ss ! i" by (simp_all add: last_conv_nth)
    then show ?thesis using assms(3) that(2) by simp
  qed
  then show ?thesis using assms(1,2) unfolding span_ok_def by (auto simp: nth_append less_Suc_eq)
qed

lemma span_ok_empty: "Suc (length ss) < n \<Longrightarrow> span_ok (ss @ [(s, bs)]) n"
  by (auto simp: span_ok_def)

lemma span_ok_last: "seg_ordered s \<Longrightarrow> span_ok (ss @ [(s, bs)]) (Suc (length ss))"
  by (auto simp: span_ok_def nth_append less_Suc_eq)

text \<open>The new chain in the bytes a checkpoint leaves.\<close>

lemma checkpointed_chain:
  assumes "wal_view w h bs" "wal_times h bs" "database_view w h ss" "bs \<noteq> []"
    and "private_end h - 32 + 64 \<le> TIMELITE_DATABASE_CAPACITY - private_data_end h"
  defines "D \<equiv> fdata w (batch_file h False)" and "s \<equiv> new_segment h (skip_link ss)"
    and "new_end \<equiv> private_data_end h + 64 + (private_end h - 32)"
  shows "seg_chain (checkpointed h (skip_link ss) bs D) new_end (private_retention h) 160 1 (ss @ [(s, bs)])"
    "unat new_end \<le> unat TIMELITE_DATABASE_CAPACITY" "unat (private_data_end h) < unat new_end"
    "new_end = private_data_end h + segment_extent s"
proof -
  let ?d = "private_data_end h" and ?E = "checkpointed h (skip_link ss) bs D"
  let ?f = "encode_frames (private_installed h + 1) bs"
  note d = database_viewD [OF assms(3)] and z = wal_view_sizes [OF assms(1,4)]
  have cap: "unat ?d + 64 + unat (private_end h - 32) \<le> unat TIMELITE_DATABASE_CAPACITY"
  proof -
    have "unat (private_end h - 32 + 64) = unat (private_end h - 32) + 64"
      using z(1,5) by (subst u64_add) simp_all
    moreover have "unat (TIMELITE_DATABASE_CAPACITY - ?d) = unat TIMELITE_DATABASE_CAPACITY - unat ?d"
      using d(3) by (simp add: u64_arith)
    ultimately show ?thesis using assms(5) d(3) unfolding word_le_nat_alt by simp
  qed
  have ne: "unat new_end = unat ?d + 64 + unat (private_end h - 32)"
  proof -
    have "unat (?d + 64) = unat ?d + 64" using cap by (subst u64_add) simp_all
    then show ?thesis unfolding new_end_def using cap by (subst u64_add) simp_all
  qed
  then show "unat new_end \<le> unat TIMELITE_DATABASE_CAPACITY" "unat ?d < unat new_end" using cap by simp_all
  have d160: "160 \<le> unat ?d" "unat ?d \<le> length D \<or> unat ?d = 160"
    using seg_chain_count [OF d(4)] seg_chain_length [OF d(4)] d(4) by (cases ss; simp add: D_def)+
  note b = checkpointed_blocks [OF d160(2,1), where skip = "skip_link ss" and bs = bs]
  have dec: "decode_segment ?E ?d new_end = Inr s"
    unfolding s_def using b(2,4) cap by (intro decode_new_segment [OF assms(1,2,4,3)]) (simp_all add: new_end_def)
  have body: "segment_body ?E ?d s bs"
    using b(3) z(2,6) assms(1,4) wal_times_bounds(1) [OF assms(1,2,4), of "skip_link ss"]
    by (simp add: segment_body_def s_def new_segment_def wal_view_def)
  have ext: "segment_extent s = 64 + (private_end h - 32)"
  proof -
    have "ucast (ucast (private_end h - 32) :: u32) = private_end h - 32"
      using z(1,2) by (simp add: word_unat_eq_iff ucast_seg_body)
    then show ?thesis by (simp add: segment_extent_def s_def new_segment_def)
  qed
  then show eq: "new_end = ?d + segment_extent s" unfolding new_end_def by (simp add: add.assoc)
  have sq: "unat (seg_first s) = chain_next 1 ss \<or> private_retention h \<and> chain_next 1 ss \<le> unat (seg_first s)"
    using d(12,13) z(6) by (auto simp: s_def new_segment_def)
  have "seg_chain ?E new_end (private_retention h) ?d (chain_next 1 ss) [(s, bs)]"
    using dec body sq eq by simp
  then show "seg_chain ?E new_end (private_retention h) 160 1 (ss @ [(s, bs)])"
    using ne b(1,4) by (intro seg_chain_extend [OF _ _ _ d(4)]) (simp_all add: D_def word_le_nat_alt)
qed

lemma flag_batch_file [simp]:
  "batch_file (h\<lparr>private_wal_ordered := x\<rparr>) b = batch_file h b" "batch_file (h\<lparr>private_legacy := x\<rparr>) b = batch_file h b"
  by (simp_all add: batch_file_def)

text \<open>The handle after a checkpoint describes the longer chain, whatever file holds it.\<close>

lemma installed_view:
  assumes "wal_view w h bs" "wal_times h bs" "database_view w h ss" "bs \<noteq> []"
    and "private_end h - 32 + 64 \<le> TIMELITE_DATABASE_CAPACITY - private_data_end h"
    and "h' = installed_handle (h\<lparr>private_failed := a, private_legacy := b\<rparr>) (prior_maximum h ss) (private_sequence h)"
    and "fdata w' (batch_file h False) = checkpointed h (skip_link ss) bs (fdata w (batch_file h False))"
    and "is_opened w' = is_opened w" "posix_alias w' = posix_alias w"
  shows "database_view w' (h'\<lparr>private_end := 32, private_wal_ordered := True, private_failed := False\<rparr>)
    (ss @ [(new_segment h (skip_link ss), bs)])"
proof -
  let ?s = "new_segment h (skip_link ss)" and ?ss = "ss @ [(new_segment h (skip_link ss), bs)]"
  note d = database_viewD [OF assms(3)] and c = checkpointed_chain [OF assms(1-5)] and o = view_ordinal [OF assms(3)]
  have ne: "batch_times bs \<noteq> []"
    using assms(1,4) by (intro batch_times_nonempty) (simp_all add: wal_view_def)
  have t: "private_wal_ordered h = sorted (batch_times bs)" "private_wal_first_time h = hd (batch_times bs)"
    "private_last_time h = last (batch_times bs)" "private_wal_minimum h = Min (set (batch_times bs))"
    "private_wal_maximum h = Max (set (batch_times bs))"
    using assms(2,4) by (simp_all add: wal_times_def)
  have times: "private_wal_minimum h = private_wal_first_time h" "private_wal_maximum h = private_last_time h"
    if "private_wal_ordered h"
    using that t sorted_Min_Max [OF _ ne] by simp_all
  have seq: "chain_next 1 ?ss = unat (private_sequence h) + 1" by (simp add: new_segment_def)
  have last: "seg_offset ?ss (length ?ss) = private_data_end h"
    using seg_chain_end [OF d(4)] by (simp add: seg_offset_def)
  have links: "links_ok ?ss" using d(5,7) by (intro links_ok_snoc) (simp_all add: new_segment_def)
  have gen: "unat (private_generation h + 1 + 1) = Suc (Suc (length ss))"
    using o(1,2) by (subst u64_add) simp_all
  have span: "unat (private_span_start h') \<le> length ?ss + 1 \<and> 0 < unat (private_span_start h') \<and>
      span_ok ?ss (unat (private_span_start h')) \<and>
      (unat (private_span_start h') \<le> length ?ss \<longrightarrow> private_last_time h = seg_maximum ?s)"
  proof (cases "private_wal_ordered h")
    case False
    then show ?thesis using gen by (auto simp: assms(6) intro!: span_ok_empty)
  next
    case True
    note tm = times [OF True]
    have so: "seg_ordered ?s" using True by (simp add: new_segment_def)
    show ?thesis
    proof (cases "private_wal_first_time h < prior_maximum h ss")
      case True
      then show ?thesis using o(2) so tm \<open>private_wal_ordered h\<close>
        by (auto simp: assms(6) new_segment_def intro!: span_ok_last)
    next
      case False
      have "seg_maximum (fst (List.last ss)) \<le> seg_minimum ?s" if "ss \<noteq> []" "unat (private_span_start h) \<le> length ss"
        using False d(11) [OF that] tm that(1) by (auto simp: prior_maximum_def new_segment_def not_less split: if_splits)
      then have "span_ok ?ss (unat (private_span_start h))" using d(10) so by (intro span_ok_snoc)
      then show ?thesis using False True d(8,9) tm by (auto simp: assms(6) new_segment_def)
    qed
  qed
  show ?thesis
    unfolding database_view_def Let_def
    using c(1,2) links seq last span d(1,2) o(2) assms(7-9)
    by (simp add: assms(6))
qed

text \<open>A cursor in the WAL becomes the same place in the new segment; any other stays.\<close>

lemma installed_cursor:
  assumes "wal_view w h bs" "wal_times h bs" "database_view w h ss" "bs \<noteq> []"
    and "private_end h - 32 + 64 \<le> TIMELITE_DATABASE_CAPACITY - private_data_end h"
    and "h' = installed_handle (h\<lparr>private_failed := a, private_legacy := b\<rparr>) m (private_sequence h)"
    and "store_cursor h ss bs i"
  shows "store_cursor (h'\<lparr>private_end := 32, private_wal_ordered := True, private_failed := False\<rparr>)
    (ss @ [(new_segment h (skip_link ss), bs)]) [] i"
  using assms(7)
proof cases
  case (at_wal k)
  let ?s = "new_segment h (skip_link ss)" and ?d = "private_data_end h"
  let ?h = "h'\<lparr>private_end := 32, private_wal_ordered := True, private_failed := False\<rparr>"
  note c = checkpointed_chain [OF assms(1-5)] and z = wal_view_sizes [OF assms(1,4)]
  note de = seg_chain_end [OF database_viewD(4) [OF assms(3)]]
  from at_wal(2) have k: "k \<le> length bs" "private_in_wal h" "private_read_sequence h = private_installed h + 1 + of_nat k"
    "unat (private_cursor h) = 32 + length (encode_frames (private_installed h + 1) (take k bs))"
    by (simp_all add: wal_cursor_def)
  have nw: "\<not> private_in_wal ?h" by (simp add: assms(6))
  have "length (encode_frames (private_installed h + 1) (take k bs)) \<le> length (encode_frames (private_installed h + 1) bs)"
    using encode_frames_append [of "private_installed h + 1" "take k bs" "drop k bs"] by simp
  then have "unat (?d + 64 + private_cursor h - 32) =
      unat ?d + 64 + length (encode_frames (private_installed h + 1) (take k bs))"
    using k(4) c(2,3) z(1,5,7) by (simp add: u64_arith)
  then have bc: "body_cursor ?h (chain_end 160 ss) ?s bs k"
    using k(2,3) c(4) de by (simp add: body_cursor_def assms(6) new_segment_def)
  show ?thesis
  proof (cases "k < length bs")
    case True
    from store_cursor.at_body [OF nw bc True, of "[]"] show ?thesis using at_wal(1) by simp
  next
    case False
    then have "k = length bs" using k(1) by simp
    then have "boundary_cursor ?h (ss @ [(?s, bs)])" using body_cursor_end [OF c(1)] bc by simp
    from store_cursor.at_boundary [OF nw this, of "[]"] show ?thesis using at_wal(1) \<open>k = length bs\<close> by simp
  qed
next
  case (at_boundary pre post)
  let ?s = "new_segment h (skip_link ss)"
  let ?h = "h'\<lparr>private_end := 32, private_wal_ordered := True, private_failed := False\<rparr>"
  have "\<not> private_in_wal ?h" "boundary_cursor ?h pre"
    using at_boundary by (simp_all add: assms(6) boundary_cursor_def)
  from store_cursor.at_boundary [OF this, of "post @ [(?s, bs)]" "[]"] show ?thesis using at_boundary by simp
next
  case (at_body pre s b' k post)
  let ?s = "new_segment h (skip_link ss)"
  let ?h = "h'\<lparr>private_end := 32, private_wal_ordered := True, private_failed := False\<rparr>"
  have "\<not> private_in_wal ?h" "body_cursor ?h (chain_end 160 pre) s b' k"
    using at_body by (simp_all add: assms(6) body_cursor_def)
  from store_cursor.at_body [OF this, of "post @ [(?s, bs)]" "[]"] show ?thesis using at_body by simp
qed

lemma checkpoint_arguments_go:
  assumes "checkpoint_arguments (Some h) scratch n = (None, True)"
  shows "private_end h - 32 + 64 \<le> TIMELITE_DATABASE_CAPACITY - private_data_end h" "private_end h \<noteq> 32"
    "private_revision h \<noteq> UINT64_MAX" "\<not> private_failed h"
  using assms by (auto simp: checkpoint_arguments_def batch_ready_def Let_def not_less split: if_splits)

lemma checkpointed_flags [simp]:
  "segment_header (h\<lparr>private_failed := a, private_legacy := b\<rparr>) skip = segment_header h skip"
  "checkpoint_manifest (h\<lparr>private_failed := a, private_legacy := b\<rparr>) sq = checkpoint_manifest h sq"
  by (simp_all add: segment_header_def checkpoint_manifest_def Let_def)

text \<open>A checkpoint that reports success, under any faults.\<close>

lemma checkpoint_in_store:
  assumes "store_view w h ss bs" "timelite_batches_checkpoint (Some h) scratch n w = ((None, Some h'), w')"
  defines "seg \<equiv> (new_segment h (skip_link ss), bs)" and "db \<equiv> batch_file h False" and "wal \<equiv> batch_file h True"
  shows "bs = [] \<Longrightarrow> h' = h \<and> w' = w"
    "bs \<noteq> [] \<Longrightarrow> store_view w' h' (ss @ [seg]) [] \<and> private_installed h' = private_sequence h \<and>
       fdata w' db = checkpointed h (skip_link ss) bs (fdata w db) \<and> fsynced w' db = fdata w' db \<and>
       fdata w' wal = take 32 (fdata w wal) \<and> fsynced w' wal = fdata w' wal \<and>
       (\<forall>k. \<not> posix_alias w db k \<longrightarrow> \<not> posix_alias w wal k \<longrightarrow> fdata w' k = fdata w k \<and> fsynced w' k = fsynced w k)"
    "bs \<noteq> [] \<Longrightarrow> store_cursor h ss bs i \<Longrightarrow> store_cursor h' (ss @ [seg]) [] i"
proof -
  have v: "wal_view w h bs" "wal_times h bs" "database_view w h ss" using assms(1) by (simp_all add: store_view_def)
  note d = database_viewD [OF v(3), folded db_def wal_def]
  show idle: "h' = h \<and> w' = w" if "bs = []"
    using assms(2)
  proof (cases rule: checkpoint_success)
    case (installed skip pm sq u0 u1 u2 u3 h2 h3)
    then show ?thesis using checkpoint_arguments_go(2) wal_view_end_32 [OF v(1)] that by blast
  qed simp
  assume ne: "bs \<noteq> []"
  from assms(2) have main: "(store_view w' h' (ss @ [seg]) [] \<and> private_installed h' = private_sequence h \<and>
       fdata w' db = checkpointed h (skip_link ss) bs (fdata w db) \<and> fsynced w' db = fdata w' db \<and>
       fdata w' wal = take 32 (fdata w wal) \<and> fsynced w' wal = fdata w' wal \<and>
       (\<forall>k. \<not> posix_alias w db k \<longrightarrow> \<not> posix_alias w wal k \<longrightarrow> fdata w' k = fdata w k \<and> fsynced w' k = fsynced w k)) \<and>
     (store_cursor h ss bs i \<longrightarrow> store_cursor h' (ss @ [seg]) [] i)"
  proof (cases rule: checkpoint_success)
    case idle
    then have "private_end h = 32"
      by (auto simp: checkpoint_arguments_def Let_def split: option.splits if_splits)
    then show ?thesis using wal_view_end_32 [OF v(1)] ne by simp
  next
    case (installed skip pm sq u0 u1 u2 u3 h2 h3)
    note go = checkpoint_arguments_go [OF installed(1)]
    have bf: "batch_file h2 x = batch_file h x" "batch_file h3 x = batch_file h x" for x
      using installed(4,7) by simp_all
    have links: "skip = skip_link ss" "pm = prior_maximum h ss" and s0: "same_files w u0"
      using answers_InrD [OF checkpoint_links_answers [OF v(3), unfolded installed(2)]] by simp_all
    have w0: "wrote db (\<lambda>x. x) w u0" by (rule wrote_same [OF s0])
    have w1: "wrote db (upgraded h) u0 u1"
      unfolding db_def by (rule checkpoint_upgrade_wrote [OF installed(3)]) (use w0 d(1) in \<open>simp add: wrote_def db_def\<close>)
    note w01 = wrote_trans [OF w0 w1]
    from v(1) obtain header where hd: "length header = 32" "fdata w wal = header @ encode_frames (private_installed h + 1) bs"
      "unat (private_end h) = length (fdata w wal)" "list_all valid_batch bs" "is_opened w wal"
      unfolding wal_view_def wal_def by auto
    have u1: "is_opened u1 db" "\<not> posix_alias u1 db wal" "is_opened u1 wal" "fdata u1 wal = fdata w wal"
      "fsynced u1 wal = fsynced w wal"
      using w01 d(1,2) hd(5) by (simp_all add: wrote_def)
    have bound: "unat (private_data_end h) + 64 + unat (private_end h) < 2 ^ 64"
      using d(3) wal_view_sizes(5,7) [OF v(1) ne] by simp
    have "wrote db (overwrite (unat (private_data_end h)) (segment_header h skip @ encode_frames (private_installed h + 1) bs)) u1 u2
        \<and> sq = private_sequence h"
      using checkpoint_segment_wrote [OF installed(5), of bs header] u1 hd bound
      by (simp add: installed(4) db_def wal_def)
    then have w2: "wrote db (overwrite (unat (private_data_end h))
        (segment_header h skip @ encode_frames (private_installed h + 1) bs)) u1 u2" and sq: "sq = private_sequence h" by simp_all
    have u2: "is_opened u2 db" using w2 u1 by (simp add: wrote_def)
    note i = checkpoint_install_wrote [OF installed(6)]
    have w3: "wrote db (overwrite (32 + 64 * unat ((private_revision h + 1) AND 1)) (checkpoint_manifest h sq)) u2 u3"
      and s3: "fsynced u3 db = fdata u3 db"
      using i u2 by (simp_all add: bf db_def installed(4))
    have w03: "wrote db (checkpointed h skip bs) w u3"
      using wrote_trans [OF wrote_trans [OF w01 w2] w3] by (simp add: checkpointed_def [abs_def] sq)
    have u3: "is_opened u3 wal" "\<not> posix_alias u3 wal db" "fdata u3 wal = fdata w wal"
      using w03 d(2) hd(5) by (simp_all add: wrote_def) (simp add: posix_alias_def)
    note r = checkpoint_reclaim_wrote [OF installed(8), unfolded bf, folded wal_def, OF u3(1)]
    have fin: "is_opened w' = is_opened w" "posix_alias w' = posix_alias w"
      "fdata w' db = checkpointed h (skip_link ss) bs (fdata w db)" "fsynced w' db = fdata w' db"
      "fdata w' wal = header"
      using w03 r(1) u3 s3 hd(1,2) links(1) by (simp_all add: wrote_def resize_shrink)
    have h': "h' = h3\<lparr>private_end := 32, private_wal_ordered := True, private_failed := False\<rparr>" using installed(9) by simp
    have h3: "h3 = installed_handle (h\<lparr>private_failed := True, private_legacy := False\<rparr>) (prior_maximum h ss) (private_sequence h)"
      using installed(4,7) links(2) sq by simp
    have "database_view w' h' (ss @ [seg])"
      unfolding h' seg_def
      by (rule installed_view [OF v ne go(1) h3]) (use fin in \<open>simp_all add: db_def\<close>)
    moreover have "wal_view w' h' []"
      using fin hd v(1) by (simp add: wal_view_def h' h3 wal_def)
    moreover have "wal_times h' []" by (simp add: wal_times_def h')
    moreover have "\<forall>k. \<not> posix_alias w db k \<longrightarrow> \<not> posix_alias w wal k \<longrightarrow> fdata w' k = fdata w k \<and> fsynced w' k = fsynced w k"
      using w03 r(1) by (simp add: wrote_def)
    moreover have "store_cursor h' (ss @ [seg]) [] i" if "store_cursor h ss bs i"
      unfolding h' seg_def by (rule installed_cursor [OF v ne go(1) h3 that])
    ultimately show ?thesis
      using fin r(2) hd(1,2) by (simp add: store_view_def h' h3)
  qed
  then show "store_view w' h' (ss @ [seg]) [] \<and> private_installed h' = private_sequence h \<and>
       fdata w' db = checkpointed h (skip_link ss) bs (fdata w db) \<and> fsynced w' db = fdata w' db \<and>
       fdata w' wal = take 32 (fdata w wal) \<and> fsynced w' wal = fdata w' wal \<and>
       (\<forall>k. \<not> posix_alias w db k \<longrightarrow> \<not> posix_alias w wal k \<longrightarrow> fdata w' k = fdata w k \<and> fsynced w' k = fsynced w k)"
    by (rule conjunct1)
  show "store_cursor h' (ss @ [seg]) [] i" if "store_cursor h ss bs i" using main that by blast
qed

section \<open>A checkpoint without faults\<close>

lemma write_exact_live:
  assumes "script w = []" "is_opened w f" "unat off + length bs \<le> 0x7FFFFFFFFFFFFFFF"
  obtains u where "write_exact f off bs w = (None, u)" "script u = []" "wrote f (overwrite (unat off) bs) w u"
  using write_exact_quiet [OF assms(1,2), of off bs] wrote_write [OF _ assms(2)] assms(3)
  by (auto simp: in_off_t_def)

lemma sync_live:
  assumes "script w = []" "is_opened w f"
  obtains u where "timelite_file_sync (Some f) w = (None, u)" "script u = []" "wrote f (\<lambda>x. x) w u"
  using posix_live.sy_live [OF assms] wrote_sync [OF _ assms(2)] by blast

lemma copy_frames_live:
  assumes "script w = []" "\<not> posix_alias w db wal" "is_opened w db" "is_opened w wal"
    and "list_all valid_batch bs" "block (unat pos) (length (encode_frames seq bs)) (fdata w wal) = encode_frames seq bs"
    and "unat pos + length (encode_frames seq bs) = unat end" "32 \<le> unat pos"
    and "unat data_end + 64 + unat end < 2 ^ 62"
  shows "\<exists>w'. scan_frames (copy_frame db data_end) False wal end pos seq () w =
    (Inr (end, seq + of_nat (length bs), ()), w') \<and> script w' = []"
  using assms(1-8)
proof (induction bs arbitrary: pos seq w)
  case Nil
  then have "pos = end" by (simp add: word_unat_eq_iff)
  then show ?case using Nil(1) by (simp add: scan_frames_end)
next
  case (Cons rs bs)
  let ?n = "64 + length rs * 20" and ?m = "length (encode_frames (seq + 1) bs)"
  have v: "valid_batch rs" "list_all valid_batch bs" using Cons.prems by simp_all
  have b: "block (unat pos) ?n (fdata w wal) = encode_frame seq rs"
    "block (unat pos + ?n) ?m (fdata w wal) = encode_frames (seq + 1) bs"
    using Cons.prems(6) block_append_split [of "unat pos" ?n ?m "fdata w wal" "encode_frame seq rs"] by simp_all
  have e: "unat pos + (?n + ?m) = unat end" using Cons.prems(7) by simp
  then have o: "unat (pos + of_nat ?n) = unat pos + ?n"
    using u64_bound [of "end"] by (intro u64_offset) simp
  have q: "unat (data_end + 64 + pos - 32) = unat data_end + 64 + unat pos - 32"
    using assms(9) e by (simp add: u64_arith)
  have lt: "pos < end" using e by (simp add: word_less_nat_alt)
  have rf: "read_frame wal pos end seq w = (Inr (encode_frame seq rs, ?n, length rs), w)"
    using e assms(9) by (intro read_frame_quiet [OF Cons.prems(1,4) v(1) b(1)]) (simp_all add: in_off_t_def)
  have "unat (data_end + 64 + pos - 32) + length (encode_frame seq rs) \<le> 0x7FFFFFFFFFFFFFFF"
    unfolding q using assms(9) e by simp
  then obtain u where u: "write_exact db (data_end + 64 + pos - 32) (encode_frame seq rs) w = (None, u)" "script u = []"
    "wrote db (overwrite (unat (data_end + 64 + pos - 32)) (encode_frame seq rs)) w u"
    using write_exact_live [OF Cons.prems(1,3)] by blast
  have uv: "\<not> posix_alias u db wal" "is_opened u db" "is_opened u wal" "fdata u wal = fdata w wal"
    using u(3) Cons.prems(2-4) by (simp_all add: wrote_def)
  have "scan_frames (copy_frame db data_end) False wal end pos seq () w =
      scan_frames (copy_frame db data_end) False wal end (pos + of_nat ?n) (seq + 1) () u"
    using lt rf u(1) by (subst scan_frames.simps) (simp add: copy_frame_def io_seq_def del: of_nat_add)
  moreover have "\<exists>w'. scan_frames (copy_frame db data_end) False wal end (pos + of_nat ?n) (seq + 1) () u =
      (Inr (end, seq + 1 + of_nat (length bs), ()), w') \<and> script w' = []"
    by (rule Cons.IH [OF u(2) uv(1-3) v(2)]) (use b(2) e o uv(4) Cons.prems(8) in \<open>simp_all del: of_nat_add\<close>)
  ultimately show ?case by (simp add: add.assoc)
qed

lemma checkpoint_segment_live:
  assumes "script w = []" "is_opened w (batch_file h False)" "\<not> posix_alias w (batch_file h False) (batch_file h True)"
    and "is_opened w (batch_file h True)" "list_all valid_batch bs" "length header = 32"
    and "fdata w (batch_file h True) = header @ encode_frames (private_installed h + 1) bs"
    and "unat (private_end h) = length (fdata w (batch_file h True))"
    and "unat (private_data_end h) + 64 + unat (private_end h) < 2 ^ 62"
    and "unat (private_sequence h) = unat (private_installed h) + length bs"
  shows "\<exists>w'. checkpoint_segment h skip w = (Inr (private_sequence h), w') \<and> script w' = []"
proof -
  let ?db = "batch_file h False" and ?wal = "batch_file h True" and ?d = "private_data_end h"
  let ?f = "encode_frames (private_installed h + 1) bs"
  have step: "(\<lambda>bytes len records offset _. io_seq (write_exact ?db (?d + 64 + offset - 32) bytes) (\<lambda>w. (Inr (), w))) =
      copy_frame ?db ?d"
    by (intro ext) (simp add: copy_frame_def)
  obtain u where u: "write_exact ?db ?d (segment_header h skip) w = (None, u)" "script u = []"
    "wrote ?db (overwrite (unat ?d) (segment_header h skip)) w u"
    by (rule write_exact_live [OF assms(1,2), of ?d "segment_header h skip"]) (use assms(9) in simp_all)
  have uv: "is_opened u ?db" "\<not> posix_alias u ?db ?wal" "is_opened u ?wal" "fdata u ?wal = fdata w ?wal"
    using u(3) assms(2-4) by (simp_all add: wrote_def)
  have blk: "block 32 (length ?f) (header @ ?f) = ?f" using assms(6) by (simp add: block_def)
  have sq: "private_sequence h = private_installed h + of_nat (length bs)" using assms(10) by (rule u64_eq_offset)
  then have sq': "private_installed h + 1 + of_nat (length bs) - 1 = private_sequence h" by simp
  have "\<exists>v. scan_frames (copy_frame ?db ?d) False ?wal (private_end h) 32 (private_installed h + 1) () u =
      (Inr (private_end h, private_installed h + 1 + of_nat (length bs), ()), v) \<and> script v = []"
    by (rule copy_frames_live [OF u(2) uv(2,1,3) assms(5)]) (use blk uv(4) assms(6-9) in simp_all)
  then obtain v where v: "scan_frames (copy_frame ?db ?d) False ?wal (private_end h) 32 (private_installed h + 1) () u =
      (Inr (private_end h, private_installed h + 1 + of_nat (length bs), ()), v)" "script v = []" by blast
  have "wrote ?db (overwrite (unat ?d + 64 + 32 - 32) ?f) u v"
    using copy_frames_ok [OF uv(2,1,3) v(1) assms(5)] blk uv(4) assms(6-9) by simp
  then have "is_opened v ?db" using uv(1) by (simp add: wrote_def)
  then obtain x where x: "timelite_file_sync (Some ?db) v = (None, x)" "script x = []"
    using sync_live [OF v(2)] by blast
  show ?thesis
    unfolding checkpoint_segment_def Let_def step segment_header_def [symmetric] io_seq_def io_bind_def
    using u(1) v(1) x sq' by simp
qed

lemma checkpoint_live:
  assumes "script w = []" "store_view w h ss bs" "checkpoint_arguments (Some h) (Some ()) n = (None, go)"
  shows "\<exists>h' w'. timelite_batches_checkpoint (Some h) (Some ()) n w = ((None, Some h'), w') \<and> script w' = []"
proof (cases go)
  case False
  then show ?thesis using assms by (simp add: timelite_batches_checkpoint_def)
next
  case True
  let ?db = "batch_file h False" and ?wal = "batch_file h True"
  define h2 where "h2 = h\<lparr>private_failed := True, private_legacy := False\<rparr>"
  have v: "wal_view w h bs" "database_view w h ss" using assms(2) by (simp_all add: store_view_def)
  note d = database_viewD [OF v(2)]
  have args: "checkpoint_arguments (Some h) (Some ()) n = (None, True)" using assms(3) True by simp
  note g = checkpoint_arguments_go [OF args]
  have ne: "bs \<noteq> []" using g(2) wal_view_end_32 [OF v(1)] by simp
  note z = wal_view_sizes [OF v(1) ne]
  have links: "checkpoint_links h w = (Inr (skip_link ss, prior_maximum h ss), w)"
    by (rule answers_quiet [OF checkpoint_links_answers [OF v(2)] assms(1)])
  have "\<exists>u. checkpoint_upgrade (h\<lparr>private_failed := True\<rparr>) w = (None, u) \<and> script u = []"
  proof (cases "private_legacy h")
    case True
    let ?b = "put 0 (encode_manifest 0 160 0 0 0) (replicate 128 0)"
    have "unat (32 :: u64) + length ?b \<le> 0x7FFFFFFFFFFFFFFF" by simp
    from write_exact_live [OF assms(1) d(1) this] obtain u where
      u: "write_exact ?db 32 ?b w = (None, u)" "script u = []" "wrote ?db (overwrite (unat (32 :: u64)) ?b) w u" by blast
    then have "is_opened u ?db" using d(1) by (simp add: wrote_def)
    from sync_live [OF u(2) this] obtain v where "timelite_file_sync (Some ?db) u = (None, v)" "script v = []" by blast
    then show ?thesis using u(1) True by (simp add: checkpoint_upgrade_def unless_error_def Let_def)
  qed (use assms(1) in \<open>simp add: checkpoint_upgrade_def\<close>)
  then obtain u1 where u1: "checkpoint_upgrade (h\<lparr>private_failed := True\<rparr>) w = (None, u1)" "script u1 = []" by blast
  note w1 = checkpoint_upgrade_wrote [OF u1(1) d(1)]
  from v(1) obtain header where hd: "length header = 32" "fdata w ?wal = header @ encode_frames (private_installed h + 1) bs"
    "unat (private_end h) = length (fdata w ?wal)" "list_all valid_batch bs" "is_opened w ?wal"
    "unat (private_sequence h) = unat (private_installed h) + length bs"
    unfolding wal_view_def by auto
  have o1: "is_opened u1 ?db" "\<not> posix_alias u1 ?db ?wal" "is_opened u1 ?wal" "fdata u1 ?wal = fdata w ?wal"
    using w1 d(1,2) hd(5) by (simp_all add: wrote_def)
  have bound: "unat (private_data_end h) + 64 + unat (private_end h) < 2 ^ 62" using d(3) z(5,7) by simp
  have "\<exists>u2. checkpoint_segment h2 (skip_link ss) u1 = (Inr (private_sequence h2), u2) \<and> script u2 = []"
    by (rule checkpoint_segment_live [OF u1(2), where bs = bs and header = header])
      (use o1 hd bound in \<open>simp_all add: h2_def\<close>)
  then obtain u2 where u2: "checkpoint_segment h2 (skip_link ss) u1 = (Inr (private_sequence h2), u2)" "script u2 = []" by blast
  have "is_opened u2 = is_opened u1"
    using checkpoint_segment_wrote [OF u2(1), of bs header] o1 hd bound by (simp add: h2_def wrote_def)
  then have o2: "is_opened u2 ?db" "is_opened u2 ?wal" using o1 by simp_all
  let ?o = "32 + 64 * ((private_revision h2 + 1) AND 1)" and ?m = "checkpoint_manifest h2 (private_sequence h2)"
  have "unat ?o \<le> 160"
    by (cases "even (private_revision h2 + 1)") (simp_all add: and_one_eq odd_iff_mod_2_eq_one even_iff_mod_2_eq_zero)
  then obtain x where x: "write_exact ?db ?o ?m u2 = (None, x)" "script x = []" "wrote ?db (overwrite (unat ?o) ?m) u2 x"
    using write_exact_live [OF u2(2) o2(1), of ?o ?m] by auto
  then have ox: "is_opened x ?db" "is_opened x ?wal" using o2 by (simp_all add: wrote_def)
  obtain y where y: "timelite_file_sync (Some ?db) x = (None, y)" "script y = []" "wrote ?db (\<lambda>x. x) x y"
    using sync_live [OF x(2) ox(1)] by blast
  have oy: "is_opened y ?wal" using y(3) ox by (simp add: wrote_def)
  have in3: "checkpoint_install h2 (private_sequence h2) u2 = (None, y)"
    using x(1) y(1) by (simp add: checkpoint_install_def unless_error_def Let_def h2_def)
  obtain t where t: "timelite_file_truncate (Some ?wal) 32 y = (None, t)" "script t = []"
    using posix_live.tr_live [OF y(2) oy, of 32] by (auto simp: in_off_t_def)
  have "is_opened t ?wal" using wrote_truncate [OF t(1) oy] oy by (simp add: wrote_def)
  then obtain r where r: "timelite_file_sync (Some ?wal) t = (None, r)" "script r = []" using sync_live [OF t(2)] by blast
  have "checkpoint_reclaim (installed_handle h2 (prior_maximum h ss) (private_sequence h2)) y = (None, r)"
    using t(1) r(1) by (simp add: checkpoint_reclaim_def unless_error_def Let_def h2_def)
  then show ?thesis
    using args links u1(1) u2(1) in3 r(2) by (simp add: timelite_batches_checkpoint_def Let_def h2_def)
qed

end
