(* ===== verification/TL_StoreLog.thy ===== *)
theory TL_StoreLog
  imports TL_Install
begin

text \<open>
  The batch engine as a log.  Appends, reads and checkpoints in any order behave like the operations
  of the interface \<open>installing_log\<close> on the list of all batches, installed or pending; the properties
  of checkpoint and of the skip links are stated here.
\<close>

section \<open>The interpretation\<close>

definition checkpoint_batch :: "timelite_batches \<Rightarrow> os \<Rightarrow> (timelite_batches \<times> os) option" where
  "checkpoint_batch h w =
     (case timelite_batches_checkpoint (Some h) (Some ()) TIMELITE_BATCH_SCRATCH w of
        ((None, Some h'), w') \<Rightarrow> Some (h', w')
      | _ \<Rightarrow> None)"

lemma checkpoint_batch_SomeD:
  "checkpoint_batch h w = Some (h', w') \<Longrightarrow>
     timelite_batches_checkpoint (Some h) (Some ()) TIMELITE_BATCH_SCRATCH w = ((None, Some h'), w')"
  by (auto simp: checkpoint_batch_def split: prod.splits option.splits)

text \<open>The log a state holds: the batches of the segments and of the WAL, and the place of the cursor.\<close>

definition store_at :: "os \<Rightarrow> timelite_batches \<Rightarrow> timelite_record list list \<Rightarrow> nat \<Rightarrow> bool" where
  "store_at w h log i \<longleftrightarrow>
     (\<exists>ss bs. store_view w h ss bs \<and> store_cursor h ss bs i \<and> log = store_batches ss bs)"

lemma append_batch_store:
  assumes "list_all record_in_range b" "store_at w h log i" "append_batch b h w = Some (h', w')"
  shows "store_at w' h' (log @ [b]) i"
proof -
  from assms(2) obtain ss bs where s: "store_view w h ss bs" "store_cursor h ss bs i" "log = store_batches ss bs"
    by (auto simp: store_at_def)
  obtain sq where "timelite_batches_append (Some h) (Some b) (length b) (Some ()) TIMELITE_BATCH_SCRATCH (Some ()) w =
      ((Inr sq, Some h'), w')"
    using append_batch_SomeD [OF assms(3)] by blast
  note a = append_in_store [OF s(1) assms(1) this]
  show ?thesis unfolding store_at_def
    by (rule exI [of _ ss], rule exI [of _ "bs @ [b]"]) (use a s in \<open>simp add: store_batches_def\<close>)
qed

lemma next_batch_store:
  assumes "store_at w h log i" "next_batch h w = Some (b, h', w')"
  shows "i < length log \<and> b = log ! i \<and> store_at w' h' log (Suc i)"
proof -
  from assms(1) obtain ss bs where s: "store_view w h ss bs" "store_cursor h ss bs i" "log = store_batches ss bs"
    by (auto simp: store_at_def)
  obtain sq where n: "timelite_batches_next (Some h) (Some ()) TIMELITE_MAX_RECORDS (Some ()) (Some ()) (Some ())
      TIMELITE_BATCH_SCRATCH w = ((Inr (b, sq), Some h'), w')"
    using next_batch_SomeD [OF assms(2)] by blast
  from next_in_store [OF s(1,2) n] s(3) show ?thesis by (auto simp: store_at_def)
qed

lemma checkpoint_batch_store:
  assumes "store_at w h log i" "checkpoint_batch h w = Some (h', w')"
  shows "store_at w' h' log i"
proof -
  from assms(1) obtain ss bs where s: "store_view w h ss bs" "store_cursor h ss bs i" "log = store_batches ss bs"
    by (auto simp: store_at_def)
  note c = checkpoint_in_store [OF s(1) checkpoint_batch_SomeD [OF assms(2)]]
  show ?thesis
  proof (cases "bs = []")
    case True
    then show ?thesis using c(1) assms(1) by simp
  next
    case False
    let ?ss = "ss @ [(new_segment h (skip_link ss), bs)]"
    have "store_view w' h' ?ss []" "store_cursor h' ?ss [] i" using c(2,3) [OF False] s(2) by blast+
    moreover have "log = store_batches ?ss []" using s(3) by (simp add: store_batches_def)
    ultimately show ?thesis unfolding store_at_def by blast
  qed
qed

interpretation store: installing_log "list_all record_in_range" store_at append_batch next_batch checkpoint_batch
proof (unfold_locales, goal_cases)
  case (1 b w h bs i h' w')
  then show ?case by (rule append_batch_store)
next
  case (2 w h bs i b h' w')
  then show ?case using next_batch_store by blast
next
  case (3 w h bs i b h' w')
  then show ?case using next_batch_store by blast
next
  case (4 w h bs i h' w')
  then show ?case by (rule checkpoint_batch_store)
qed

section \<open>A sample store\<close>

lemma sample_store:
  "store_view (sample_os (replicate 160 0) (replicate 32 0)) sample_handle [] []"
  "store_cursor sample_handle [] [] 0"
proof -
  have "database_view (sample_os (replicate 160 0) (replicate 32 0)) sample_handle []"
    by (simp add: database_view_def links_ok_def span_ok_def seg_offset_def)
      (simp add: posix_alias_def sample_os_def sample_handle_eq)
  then show "store_view (sample_os (replicate 160 0) (replicate 32 0)) sample_handle [] []"
    using sample_view by (simp add: store_view_def wal_times_def)
  have "store_cursor sample_handle ([] @ []) [] (length (installed_batches []))"
    by (rule store_cursor.at_boundary) (simp_all add: boundary_cursor_def)
  then show "store_cursor sample_handle [] [] 0" by simp
qed

text \<open>One batch appended to the sample pair, and the state after it.\<close>

lemma sample_appended:
  obtains h w where "append_batch [sample_record] sample_handle (sample_os (replicate 160 0) (replicate 32 0)) = Some (h, w)"
    "script w = []" "store_view w h [] [[sample_record]]" "store_cursor h [] [[sample_record]] 0"
    "private_revision h = 0" "private_data_end h = 160" "private_end h = 116" "private_sequence h = 1"
proof -
  let ?w = "sample_os (replicate 160 0) (replicate 32 0)"
  obtain h w where a: "timelite_batches_append (Some sample_handle) (Some [sample_record])
      (length [sample_record]) (Some ()) TIMELITE_BATCH_SCRATCH (Some ()) ?w =
      ((Inr (private_sequence sample_handle + 1), Some h), w)" "script w = []"
    using append_live [OF _ sample_view sample_arguments] by auto
  note s = append_in_store [OF sample_store(1) _ a(1)]
  have "private_revision h = 0 \<and> private_data_end h = 160 \<and> private_end h = 116 \<and> private_sequence h = 1"
    using a(1) by (cases rule: append_cases) (simp_all add: append_commit_def Let_def)
  then show thesis using that [of h w] a s sample_store(2) by (simp add: append_batch_def)
qed

lemma sample_checkpoint_arguments:
  assumes "store_view w h [] [[sample_record]]" "private_revision h = 0" "private_data_end h = 160" "private_end h = 116"
  shows "checkpoint_arguments (Some h) (Some ()) TIMELITE_BATCH_SCRATCH = (None, True)"
proof -
  have "batch_ready (Some h) = None" using assms(1) by (auto simp: store_view_def intro: wal_view_ready)
  then show ?thesis using assms(2-4) by (simp add: checkpoint_arguments_def Let_def)
qed

section \<open>Properties\<close>

text \<open>
  C3. The store is a log.  Whatever sequence of appends, reads and checkpoints a program makes, and
  whatever calls the operating system interrupts, shortens or fails on the way, as long as every
  operation of the sequence reports success it returns exactly what the abstract log returns: batches
  come back record for record in the order they were appended, a checkpoint changes neither the
  batches nor the place of the reader, and the state at the end holds the whole log.
\<close>

theorem store_simulates:
  assumes "list_all (\<lambda>op. case op of Push b \<Rightarrow> list_all record_in_range b | _ \<Rightarrow> True) ops"
    and "store_view w h ss bs" "store_cursor h ss bs i"
    and "impl_run append_batch next_batch checkpoint_batch ops h w = Some (out, h', w')"
  shows "case spec_run ops (store_batches ss bs) i of (out', log, i') \<Rightarrow>
    out = out' \<and> (\<exists>ss' bs'. store_view w' h' ss' bs' \<and> store_cursor h' ss' bs' i' \<and> store_batches ss' bs' = log)"
proof -
  have "store_at w h (store_batches ss bs) i" using assms(2,3) by (auto simp: store_at_def)
  from store.simulates [OF assms(1) this assms(4)] show ?thesis by (auto simp: store_at_def split: prod.splits)
qed

theorem store_simulates_witness:
  "\<exists>h' w' ss' bs'. impl_run append_batch next_batch checkpoint_batch [Push [sample_record], Flush, Pull] sample_handle
      (sample_os (replicate 160 0) (replicate 32 0)) = Some ([[sample_record]], h', w') \<and>
    store_view w' h' ss' bs' \<and> store_batches ss' bs' = [[sample_record]]"
proof -
  let ?w = "sample_os (replicate 160 0) (replicate 32 0)" and ?ops = "[Push [sample_record], Flush, Pull]"
  obtain h1 w1 where a: "append_batch [sample_record] sample_handle ?w = Some (h1, w1)" "script w1 = []"
    "store_view w1 h1 [] [[sample_record]]" "store_cursor h1 [] [[sample_record]] 0"
    "private_revision h1 = 0" "private_data_end h1 = 160" "private_end h1 = 116"
    by (rule sample_appended)
  note args = sample_checkpoint_arguments [OF a(3,5-7)]
  obtain h2 w2 where c: "timelite_batches_checkpoint (Some h1) (Some ()) TIMELITE_BATCH_SCRATCH w1 = ((None, Some h2), w2)"
    "script w2 = []"
    using checkpoint_live [OF a(2,3) args] by blast
  let ?ss = "[(new_segment h1 (skip_link []), [[sample_record]])]"
  have v: "store_view w2 h2 ?ss []" "store_cursor h2 ?ss [] 0"
    using checkpoint_in_store(2,3) [OF a(3) c(1)] a(4) by auto
  have "store_batches ?ss [] = [[sample_record]]" by (simp add: store_batches_def)
  then obtain h3 where n: "timelite_batches_next (Some h2) (Some ()) TIMELITE_MAX_RECORDS (Some ()) (Some ()) (Some ())
      TIMELITE_BATCH_SCRATCH w2 = ((Inr ([sample_record], store_numbers (private_installed h2) ?ss [] ! 0), Some h3), w2)"
    using next_in_store_quiet [OF c(2) v, of TIMELITE_BATCH_SCRATCH TIMELITE_MAX_RECORDS] by auto
  have run: "impl_run append_batch next_batch checkpoint_batch ?ops sample_handle ?w = Some ([[sample_record]], h3, w2)"
    using a(1) c(1) n by (simp add: checkpoint_batch_def next_batch_def)
  have "list_all (\<lambda>op. case op of Push b \<Rightarrow> list_all record_in_range b | _ \<Rightarrow> True) ?ops" by simp
  from store_simulates [OF this sample_store run] run show ?thesis by (auto simp: store_batches_def)
qed

text \<open>
  C4. What a checkpoint does: when it reports success, the pending batches are the last segment of the
  database, with a header that states their numbers, their time bounds and the links to the segments
  before; database and WAL are durable, the WAL is cut back to its header, the reader keeps its place,
  and no other file changed.
\<close>

theorem checkpoint_installs:
  assumes "store_view w h ss bs" "bs \<noteq> []"
    and "timelite_batches_checkpoint (Some h) scratch n w = ((None, Some h'), w')"
  defines "db \<equiv> batch_file h False" and "wal \<equiv> batch_file h True"
    and "seg \<equiv> (new_segment h (skip_link ss), bs)"
  shows "store_view w' h' (ss @ [seg]) [] \<and> store_batches (ss @ [seg]) [] = store_batches ss bs \<and>
    private_installed h' = private_sequence h \<and>
    fdata w' db = checkpointed h (skip_link ss) bs (fdata w db) \<and> fsynced w' db = fdata w' db \<and>
    fdata w' wal = take 32 (fdata w wal) \<and> fsynced w' wal = fdata w' wal \<and>
    (\<forall>i. store_cursor h ss bs i \<longrightarrow> store_cursor h' (ss @ [seg]) [] i) \<and>
    (\<forall>k. \<not> posix_alias w db k \<longrightarrow> \<not> posix_alias w wal k \<longrightarrow> fdata w' k = fdata w k \<and> fsynced w' k = fsynced w k)"
  using checkpoint_in_store(2) [OF assms(1,3,2)] checkpoint_in_store(3) [OF assms(1,3,2)]
  by (simp add: db_def wal_def seg_def store_batches_def)

theorem checkpoint_installs_witness:
  "\<exists>h w h' w'. store_view w h [] [[sample_record]] \<and>
    timelite_batches_checkpoint (Some h) (Some ()) TIMELITE_BATCH_SCRATCH w = ((None, Some h'), w') \<and>
    store_view w' h' [(new_segment h 0, [[sample_record]])] []"
proof -
  obtain h1 w1 where a: "script w1 = []" "store_view w1 h1 [] [[sample_record]]"
    "private_revision h1 = 0" "private_data_end h1 = 160" "private_end h1 = 116"
    by (rule sample_appended) blast
  obtain h2 w2 where c: "timelite_batches_checkpoint (Some h1) (Some ()) TIMELITE_BATCH_SCRATCH w1 = ((None, Some h2), w2)"
    using checkpoint_live [OF a(1,2) sample_checkpoint_arguments [OF a(2-5)]] by blast
  have "skip_link [] = 0" by (simp add: skip_link_def low_bit_def seg_offset_def)
  then show ?thesis using checkpoint_installs [OF a(2) _ c] a(2) c by auto
qed

text \<open>
  C16. Without faults a checkpoint succeeds whenever there is room for the segment and a manifest revision
  left, and the caller gave the documented scratch buffer.
\<close>

theorem checkpoint_accepts:
  assumes "script w = []" "store_view w h ss bs" "TIMELITE_BATCH_SCRATCH \<le> n" "private_revision h \<noteq> UINT64_MAX"
    and "unat (private_data_end h) + 64 + length (encode_frames (private_installed h + 1) bs)
      \<le> unat TIMELITE_DATABASE_CAPACITY"
  shows "\<exists>h' w'. timelite_batches_checkpoint (Some h) (Some ()) n w = ((None, Some h'), w')"
proof -
  have v: "wal_view w h bs" "database_view w h ss" using assms(2) by (simp_all add: store_view_def)
  have e: "unat (private_end h - 32) = length (encode_frames (private_installed h + 1) bs)"
    using v(1) by (auto simp: wal_view_def u64_arith)
  have "\<not> private_end h - 32 + 64 > TIMELITE_DATABASE_CAPACITY - private_data_end h"
  proof -
    have "unat (private_end h - 32 + 64) = unat (private_end h - 32) + 64"
      using assms(5) e by (subst u64_add) simp_all
    moreover have "unat (TIMELITE_DATABASE_CAPACITY - private_data_end h) =
        unat TIMELITE_DATABASE_CAPACITY - unat (private_data_end h)"
      using assms(5) by (simp add: u64_arith)
    ultimately show ?thesis using assms(5) e unfolding word_less_nat_alt by simp
  qed
  then have "checkpoint_arguments (Some h) (Some ()) n = (None, private_end h \<noteq> 32)"
    using wal_view_ready [OF v(1)] assms(3,4) by (auto simp add: checkpoint_arguments_def Let_def not_less)
  then show ?thesis using checkpoint_live [OF assms(1,2)] by blast
qed

text \<open>A store with one pending batch: the checkpoint installs its first segment.\<close>

theorem checkpoint_accepts_witness:
  "\<exists>h w h' w'. store_view w h [] [[sample_record]] \<and> unat (private_end h) = 116 \<and>
    timelite_batches_checkpoint (Some h) (Some ()) TIMELITE_BATCH_SCRATCH w = ((None, Some h'), w') \<and>
    private_installed h' = 1 \<and> private_generation h' = 1"
proof -
  obtain h1 w1 where a: "script w1 = []" "store_view w1 h1 [] [[sample_record]]"
    "private_revision h1 = 0" "private_data_end h1 = 160" "private_end h1 = 116" "private_sequence h1 = 1"
    by (rule sample_appended) blast
  have "\<exists>h' w'. timelite_batches_checkpoint (Some h1) (Some ()) TIMELITE_BATCH_SCRATCH w1 = ((None, Some h'), w')"
    by (rule checkpoint_accepts [OF a(1,2)]) (simp_all add: a(3,4))
  then obtain h2 w2 where c: "timelite_batches_checkpoint (Some h1) (Some ()) TIMELITE_BATCH_SCRATCH w1 = ((None, Some h2), w2)"
    by blast
  have s: "store_view w2 h2 [(new_segment h1 (skip_link []), [[sample_record]])] []"
    using checkpoint_in_store(2) [OF a(2) c] by simp
  have "unat (private_installed h2) = 1" using checkpoint_in_store(2) [OF a(2) c] a(6) by simp
  moreover have "unat (private_generation h2) = 1"
    using s database_viewD [of w2 h2 "[(new_segment h1 (skip_link []), [[sample_record]])]"] by (simp add: store_view_def)
  ultimately have "private_installed h2 = 1" "private_generation h2 = 1" by (simp_all add: word_unat_eq_iff)
  moreover have "unat (private_end h1) = 116" using a(5) by simp
  ultimately show ?thesis using a(2) c by blast
qed

text \<open>
  C8. The skip links are an index: on a store the logarithmic search \<open>segment_at\<close> finds the same segment
  as the walk over the chain from its start, at the same offset; under faults it finds that segment
  or reports the error.
\<close>

theorem segment_at_is_walk:
  assumes "store_view w h ss bs" "0 < target" "target \<le> private_generation h"
  defines "db \<equiv> batch_file h False" and "end \<equiv> private_data_end h"
  shows "(\<forall>r w'. segment_at db end (private_generation h) (private_last_segment h) target w = (Inr r, w') \<longrightarrow>
      r = (seg_offset ss (unat target), fst (ss ! (unat target - 1)))) \<and>
    (script w = [] \<longrightarrow> segment_at db end (private_generation h) (private_last_segment h) target w =
      segment_walk db end target 1 TIMELITE_DATA_START w)"
proof -
  have v: "database_view w h ss" using assms(1) by (simp add: store_view_def)
  note d = database_viewD [OF v] and c = chain_in_view [OF v, folded db_def end_def]
  have t: "0 < unat target" "unat target \<le> unat (private_generation h)"
    using assms(2,3) by (simp_all add: word_less_nat_alt word_le_nat_alt)
  let ?a = "(seg_offset ss (unat target), fst (ss ! (unat target - 1)))"
  have at: "answers ?a w (segment_at db end (private_generation h) (private_last_segment h) target w)"
    using c d(5-7) t by (intro segment_at_answers) simp_all
  have wk: "answers ?a w (segment_walk db end target 1 160 w)"
    using c d(6) t by (intro segment_walk_answers) simp_all
  have "r = ?a" if "segment_at db end (private_generation h) (private_last_segment h) target w = (Inr r, w')" for r w'
    using answers_InrD [OF at [unfolded that]] by simp
  then show ?thesis using answers_quiet [OF at] answers_quiet [OF wk] by metis
qed

theorem segment_at_is_walk_witness:
  "\<exists>h w. private_generation h = 1 \<and>
    segment_at (batch_file h False) (private_data_end h) 1 (private_last_segment h) 1 w =
    segment_walk (batch_file h False) (private_data_end h) 1 1 TIMELITE_DATA_START w"
proof -
  obtain h1 w1 where a: "script w1 = []" "store_view w1 h1 [] [[sample_record]]"
    "private_revision h1 = 0" "private_data_end h1 = 160" "private_end h1 = 116"
    by (rule sample_appended) blast
  obtain h2 w2 where c: "timelite_batches_checkpoint (Some h1) (Some ()) TIMELITE_BATCH_SCRATCH w1 = ((None, Some h2), w2)"
    "script w2 = []"
    using checkpoint_live [OF a(1,2) sample_checkpoint_arguments [OF a(2-5)]] by blast
  have v: "store_view w2 h2 [(new_segment h1 (skip_link []), [[sample_record]])] []"
    using checkpoint_in_store(2) [OF a(2) c(1)] by simp
  then have g: "private_generation h2 = 1"
    by (auto simp: store_view_def word_unat_eq_iff dest: database_viewD(6))
  show ?thesis using segment_at_is_walk [OF v, of 1] g c(2) by auto
qed

end
