(* ===== verification/TL_Query.thy ===== *)
theory TL_Query
  imports TL_Cursor
begin

text \<open>
  Queries by time: \<open>timelite_batches_seek\<close> with its binary search over the ordered suffix of the
  segments, \<open>timelite_batches_next_range\<close> and \<open>timelite_batches_aggregate_range\<close>.
\<close>

section \<open>Seek\<close>

definition position_segment :: "timelite_batches \<Rightarrow> u64 \<Rightarrow> segment_info \<Rightarrow> timelite_batches" where
  "position_segment cursor offset segment =
     (let position = offset + of_nat (seg_header_size segment)
      in cursor\<lparr>private_cursor := position, private_segment_end := position + ucast (seg_body segment),
                private_read_sequence := seg_first segment, private_in_wal := False\<rparr>)"

text \<open>
  The cursor stays before the first batch whose last timestamp reaches \<open>from_us\<close>.  The cursor is
  returned also on an error: \<open>timelite_batches_seek\<close> goes on with it after \<open>TIMELITE_END\<close>.
\<close>

function seek_frames ::
  "timelite_batches \<Rightarrow> u64 \<Rightarrow> u64 \<Rightarrow> os \<Rightarrow> (error option \<times> timelite_batches) \<times> os" where
  "seek_frames cursor from_us limit w =
     (if private_read_sequence cursor \<le> limit then
        (case read_cursor cursor w of
           (Inl e, w') \<Rightarrow> ((Some e, cursor), w')
         | (Inr (bytes, count, sequence, next), w') \<Rightarrow>
             if frame_time bytes (count - 1) \<ge> from_us then ((None, cursor), w')
             else seek_frames (copy_cursor cursor next) from_us limit w')
      else ((Some END, cursor), w))"
  by pat_completeness auto
termination
proof (relation "measure (\<lambda>(cursor, from_us, limit, w). cursor_distance cursor)", simp, goal_cases)
  case (1 cursor from_us limit w r w' x bytes y count z sequence c)
  then have "read_cursor cursor w = (Inr (bytes, count, sequence, c), w')" by simp
  then show ?case by (simp add: read_cursor_InrD(6) cursor_moved_distance)
qed

declare seek_frames.simps [simp del]

text \<open>
  The prefix that may be unordered, segment by segment: whether a qualifying batch was found, and the
  cursor before it (or after the prefix).
\<close>

function seek_prefix ::
  "timelite_batches \<Rightarrow> timelite_batches \<Rightarrow> u64 \<Rightarrow> u64 \<Rightarrow> u64 \<Rightarrow> os
     \<Rightarrow> (error + bool \<times> timelite_batches) \<times> os" where
  "seek_prefix db cursor from_us n offset w =
     (if n < private_span_start db then
        (case read_segment (batch_file db False) offset (private_data_end db) w of
           (Inl e, w') \<Rightarrow> (Inl e, w')
         | (Inr segment, w') \<Rightarrow>
             (case seek_frames (position_segment cursor offset segment) from_us (seg_last segment) w' of
                ((None, cursor'), w'') \<Rightarrow> (Inr (True, cursor'), w'')
              | ((Some e, cursor'), w'') \<Rightarrow>
                  if e \<noteq> END then (Inl e, w'')
                  else seek_prefix db cursor' from_us (n + 1) (offset + segment_extent segment) w''))
      else (Inr (False, cursor), w))"
  by pat_completeness auto
termination
proof (relation "measure (\<lambda>(db, cursor, from_us, n, offset, w). unat (private_data_end db) - unat offset)",
    simp, goal_cases)
  case (1 db cursor from_us n offset w r w' segment)
  then have "read_segment (batch_file db False) offset (private_data_end db) w = (Inr segment, w')" by simp
  from read_segment_advance [OF this] show ?case by simp
qed

declare seek_prefix.simps [simp del]

text \<open>The binary search: the first segment of \<open>[low, high)\<close> whose maximum reaches \<open>from_us\<close>.\<close>

function seek_search :: "timelite_batches \<Rightarrow> u64 \<Rightarrow> u64 \<Rightarrow> u64 \<Rightarrow> os \<Rightarrow> (error + u64) \<times> os" where
  "seek_search db from_us low high w =
     (if low < high then
        (let middle = low + (high - low) div 2
         in case segment_at (batch_file db False) (private_data_end db) (private_generation db)
                   (private_last_segment db) middle w of
              (Inl e, w') \<Rightarrow> (Inl e, w')
            | (Inr (offset, segment), w') \<Rightarrow>
                if seg_maximum segment < from_us then seek_search db from_us (middle + 1) high w'
                else seek_search db from_us low middle w')
      else (Inr low, w))"
  by pat_completeness auto

lemma middle_bounds:
  fixes low high :: u64
  assumes "low < high"
  shows "unat (low + (high - low) div 2) = unat low + (unat high - unat low) div 2"
    "unat low \<le> unat (low + (high - low) div 2)" "unat (low + (high - low) div 2) < unat high"
    "unat (low + (high - low) div 2 + 1) = unat (low + (high - low) div 2) + 1"
proof -
  have l: "unat low < unat high" using assms by (simp add: word_less_nat_alt)
  have d: "unat ((high - low) div 2) = (unat high - unat low) div 2"
    using l by (simp add: unat_div u64_arith)
  show m: "unat (low + (high - low) div 2) = unat low + (unat high - unat low) div 2"
    using l u64_bound [of high] d by (subst u64_add) simp_all
  then show "unat low \<le> unat (low + (high - low) div 2)" by simp
  show h: "unat (low + (high - low) div 2) < unat high" using m l by simp
  then show "unat (low + (high - low) div 2 + 1) = unat (low + (high - low) div 2) + 1"
    using u64_bound [of high] by (subst u64_add) simp_all
qed

termination seek_search
proof (relation "measure (\<lambda>(db, from_us, low, high, w). unat high - unat low)", simp, goal_cases)
  case (1 db from_us low high w middle r w' x offset segment)
  then show ?case using middle_bounds [of low high] by simp linarith
next
  case (2 db from_us low high w middle r w' x offset segment)
  then show ?case using middle_bounds [of low high] by (simp add: word_less_nat_alt)
qed

declare seek_search.simps [simp del]

text \<open>The cursor from which the frames after the search are read.\<close>

definition seek_position :: "timelite_batches \<Rightarrow> timelite_batches \<Rightarrow> u64 \<Rightarrow> os \<Rightarrow> (error + timelite_batches) \<times> os" where
  "seek_position db cursor low w =
     (if low \<le> private_generation db then
        io_bind (segment_at (batch_file db False) (private_data_end db) (private_generation db)
                   (private_last_segment db) low)
          (\<lambda>(offset, segment) w. (Inr (position_segment cursor offset segment), w)) w
      else (Inr (cursor\<lparr>private_in_wal := True, private_cursor := 32,
                        private_read_sequence := private_installed db + 1\<rparr>), w))"

definition timelite_batches_seek ::
  "timelite_batches option \<Rightarrow> u64 \<Rightarrow> unit option \<Rightarrow> nat \<Rightarrow> os
     \<Rightarrow> (error option \<times> timelite_batches option) \<times> os" where
  "timelite_batches_seek db from_us scratch scratch_size w =
     (case read_arguments db scratch scratch_size of
        Some e \<Rightarrow> ((Some e, db), w)
      | None \<Rightarrow>
          (let h = the db
           in case seek_prefix h (reset_cursor h) from_us 1 160 w of
                (Inl e, w) \<Rightarrow> ((Some e, db), w)
              | (Inr (True, cursor), w) \<Rightarrow> ((None, Some (copy_cursor h cursor)), w)
              | (Inr (False, cursor), w) \<Rightarrow>
                  (case seek_search h from_us (private_span_start h) (private_generation h + 1) w of
                     (Inl e, w) \<Rightarrow> ((Some e, db), w)
                   | (Inr low, w) \<Rightarrow>
                       (case seek_position h cursor low w of
                          (Inl e, w) \<Rightarrow> ((Some e, db), w)
                        | (Inr cursor, w) \<Rightarrow>
                            (case seek_frames cursor from_us (private_sequence h) w of
                               ((None, cursor), w) \<Rightarrow> ((None, Some (copy_cursor h cursor)), w)
                             | ((Some e, cursor), w) \<Rightarrow>
                                 if e = END then
                                   ((Some END, Some (copy_cursor h
                                      (cursor\<lparr>private_in_wal := True, private_cursor := private_end h,
                                              private_read_sequence := private_sequence h + 1\<rparr>))), w)
                                 else ((Some e, db), w))))))"

section \<open>Range reads\<close>

record timelite_range =
  from_us :: u64
  until_us :: u64
  range_series :: u32
  filter_series :: int

definition record_matches :: "bytes \<Rightarrow> timelite_range \<Rightarrow> bool" where
  "record_matches record rg \<longleftrightarrow>
     (let time = decode64 (drop 4 record)
      in time \<ge> from_us rg \<and> time < until_us rg \<and>
         (filter_series rg = 0 \<or> decode32 record = range_series rg))"

definition bad_range :: "timelite_range option \<Rightarrow> bool" where
  "bad_range rg \<longleftrightarrow>
     (case rg of
        None \<Rightarrow> True
      | Some r \<Rightarrow> from_us r > until_us r \<or> (filter_series r \<noteq> 0 \<and> filter_series r \<noteq> 1))"

text \<open>The sequence from which on the batches are known to be ordered.\<close>

definition ordered_from :: "timelite_batches \<Rightarrow> os \<Rightarrow> (error + u64) \<times> os" where
  "ordered_from db w =
     (let file = batch_file db False
      in if \<not> private_wal_ordered db then (Inr (private_sequence db), w)
         else if \<not> private_span_start db \<le> private_generation db then (Inr (private_installed db + 1), w)
         else
           io_bind (segment_at file (private_data_end db) (private_generation db)
                      (private_last_segment db) (private_span_start db)) (\<lambda>(offset, segment).
             io_bind (\<lambda>w. if private_retention db \<and> private_end db \<noteq> 32
                        then read_segment file (private_last_segment db) (private_data_end db) w
                        else (Inr segment, w)) (\<lambda>final w.
               if private_end db = 32 \<or>
                  private_wal_first_time db \<ge>
                    (if private_retention db then seg_maximum final else private_installed_time db)
               then (Inr (seg_first segment), w)
               else (Inr (private_installed db + 1), w))) w)"

text \<open>The records of a frame that match, in order.\<close>

definition matching :: "bytes \<Rightarrow> nat \<Rightarrow> timelite_range \<Rightarrow> timelite_record list" where
  "matching bytes found rg =
     map decode_record
       (filter (\<lambda>record. record_matches record rg) (map (frame_record bytes) [0..<found]))"

text \<open>The loop over frames; \<open>cursor\<close> is the borrowed copy of the handle.\<close>

function range_loop ::
  "timelite_batches \<Rightarrow> timelite_range \<Rightarrow> nat \<Rightarrow> u64 \<Rightarrow> timelite_batches \<Rightarrow> os
     \<Rightarrow> (error + timelite_record list \<times> u64 \<times> timelite_batches) \<times> os" where
  "range_loop db rg capacity ordered_sequence cursor w =
     (case read_cursor cursor w of
        (Inl e, w') \<Rightarrow> (Inl e, w')
      | (Inr (bytes, found, batch, next), w') \<Rightarrow>
          (let matches = matching bytes found rg
           in if matches \<noteq> [] then
                (if length matches > capacity then (Inl BUFFER_TOO_SMALL, w')
                 else (Inr (matches, batch, next), w'))
              else if batch \<ge> ordered_sequence \<and> private_wal_ordered db \<and> frame_time bytes 0 \<ge> until_us rg
              then (Inl END, w')
              else range_loop db rg capacity ordered_sequence next w'))"
  by pat_completeness auto
termination
proof (relation "measure (\<lambda>(db, rg, capacity, ordered_sequence, cursor, w). cursor_distance cursor)",
    simp, goal_cases)
  case (1 db rg capacity ordered_sequence cursor w r w' x bytes y found z batch c)
  then have "read_cursor cursor w = (Inr (bytes, found, batch, c), w')" by simp
  then show ?case by (simp add: read_cursor_InrD(6) cursor_moved_distance)
qed

declare range_loop.simps [simp del]

definition timelite_batches_next_range ::
  "timelite_batches option \<Rightarrow> timelite_range option \<Rightarrow> unit option \<Rightarrow> nat \<Rightarrow> unit option \<Rightarrow> unit option
     \<Rightarrow> unit option \<Rightarrow> nat \<Rightarrow> os \<Rightarrow> ((error + timelite_record list \<times> u64) \<times> timelite_batches option) \<times> os" where
  "timelite_batches_next_range db rg records capacity count sequence scratch scratch_size w =
     (case batch_ready db of
        Some e \<Rightarrow> ((Inl e, db), w)
      | None \<Rightarrow>
          if bad_range rg \<or> (records = None \<and> capacity \<noteq> 0) \<or> count = None \<or> sequence = None \<or> scratch = None
          then ((Inl EINVAL, db), w)
          else (case read_arguments db scratch scratch_size of
                  Some e \<Rightarrow> ((Inl e, db), w)
                | None \<Rightarrow>
                    (let h = the db; r = the rg
                     in if from_us r = until_us r then ((Inl END, db), w)
                        else (case ordered_from h w of
                                (Inl e, w) \<Rightarrow> ((Inl e, db), w)
                              | (Inr ordered_sequence, w) \<Rightarrow>
                                  (case range_loop h r capacity ordered_sequence h w of
                                     (Inl e, w) \<Rightarrow> ((Inl e, db), w)
                                   | (Inr (matches, batch, cursor), w) \<Rightarrow>
                                       ((Inr (matches, batch), Some (copy_cursor h cursor)), w))))))"

section \<open>Aggregates\<close>

record timelite_aggregate =
  record_count :: u64
  minimum_value :: int
  maximum_value :: int

definition aggregate_record :: "timelite_aggregate \<Rightarrow> timelite_record \<Rightarrow> timelite_aggregate" where
  "aggregate_record a r =
     (let v = value_i64 r;
          a = (if record_count a = 0 \<or> v < minimum_value a then a\<lparr>minimum_value := v\<rparr> else a);
          a = (if record_count a = 0 \<or> v > maximum_value a then a\<lparr>maximum_value := v\<rparr> else a)
      in a\<lparr>record_count := record_count a + 1\<rparr>)"

lemma range_loop_moved:
  "range_loop db rg capacity os cursor w = (Inr (matches, batch, c), w') \<Longrightarrow>
     cursor_distance c < cursor_distance cursor"
proof (induction db rg capacity os cursor w rule: range_loop.induct)
  case (1 db rg capacity os cursor w)
  from "1.prems" obtain bytes found b c' u where r: "read_cursor cursor w = (Inr (bytes, found, b, c'), u)"
    by (subst (asm) range_loop.simps) (auto split: prod.splits sum.splits)
  then have d: "cursor_distance c' < cursor_distance cursor"
    by (simp add: read_cursor_InrD(6) cursor_moved_distance)
  show ?case
  proof (cases "matching bytes found rg \<noteq> []")
    case True
    then show ?thesis
      using "1.prems" r d by (subst (asm) range_loop.simps) (auto simp: Let_def split: if_splits)
  next
    case False
    moreover from this have "\<not> (os \<le> b \<and> private_wal_ordered db \<and> until_us rg \<le> frame_time bytes 0)"
      using "1.prems" r by (subst (asm) range_loop.simps) (auto simp: Let_def)
    moreover have "range_loop db rg capacity os c' u = (Inr (matches, batch, c), w')"
      using "1.prems" r calculation by (subst (asm) range_loop.simps) (auto simp: Let_def)
    ultimately have "cursor_distance c < cursor_distance c'"
      using r by (intro "1.IH") auto
    with d show ?thesis by simp
  qed
qed

lemma next_range_moved:
  assumes "timelite_batches_next_range (Some h) rg rec cap cnt sq scratch scratch_size w =
    ((Inr (records, batch), db'), w')"
  shows "\<exists>h'. db' = Some h' \<and> cursor_distance h' < cursor_distance h"
  using assms
  by (auto simp: timelite_batches_next_range_def Let_def dest: range_loop_moved
      split: option.splits if_splits prod.splits sum.splits)

function aggregate_loop ::
  "timelite_batches \<Rightarrow> timelite_range option \<Rightarrow> unit option \<Rightarrow> nat \<Rightarrow> timelite_aggregate \<Rightarrow> os
     \<Rightarrow> (error \<times> timelite_aggregate) \<times> os" where
  "aggregate_loop cursor rg scratch scratch_size aggregate w =
     (case timelite_batches_next_range (Some cursor) rg (Some ()) TIMELITE_MAX_RECORDS (Some ()) (Some ())
             scratch scratch_size w of
        ((Inl e, _), w') \<Rightarrow> ((e, aggregate), w')
      | ((Inr (records, sequence), cursor'), w') \<Rightarrow>
          aggregate_loop (the cursor') rg scratch scratch_size
            (foldl aggregate_record aggregate records) w')"
  by pat_completeness auto
termination
proof (relation "measure (\<lambda>(cursor, rg, scratch, scratch_size, aggregate, w). cursor_distance cursor)",
    simp, goal_cases)
  case (1 cursor rg scratch scratch_size aggregate w x w' y c z records sequence)
  then have "timelite_batches_next_range (Some cursor) rg (Some ()) TIMELITE_MAX_RECORDS (Some ()) (Some ())
      scratch scratch_size w = ((Inr (records, sequence), c), w')" by simp
  from next_range_moved [OF this] show ?case by auto
qed

declare aggregate_loop.simps [simp del]

definition timelite_batches_aggregate_range ::
  "timelite_batches option \<Rightarrow> timelite_range option \<Rightarrow> unit option \<Rightarrow> unit option \<Rightarrow> nat \<Rightarrow> os
     \<Rightarrow> (error + timelite_aggregate) \<times> os" where
  "timelite_batches_aggregate_range db rg result scratch scratch_size w =
     (case batch_ready db of
        Some e \<Rightarrow> (Inl e, w)
      | None \<Rightarrow>
          if bad_range rg \<or> result = None then (Inl EINVAL, w)
          else (case read_arguments db scratch scratch_size of
                  Some e \<Rightarrow> (Inl e, w)
                | None \<Rightarrow>
                    (case aggregate_loop (reset_cursor (the db)) rg scratch scratch_size
                            \<lparr>record_count = 0, minimum_value = 0, maximum_value = 0\<rparr> w of
                       ((e, aggregate), w) \<Rightarrow>
                         if e \<noteq> END then (Inl e, w) else (Inr aggregate, w))))"

section \<open>Queries leave the files alone\<close>

lemma seek_frames_same: "seek_frames c t l w = (r, w') \<Longrightarrow> same_files w w'"
proof (induction c t l w arbitrary: r w' rule: seek_frames.induct)
  case (1 c t l w)
  show ?case
  proof (cases "private_read_sequence c \<le> l")
    case False
    then show ?thesis using "1.prems" by (subst (asm) seek_frames.simps) simp
  next
    case True
    obtain x u where rc: "read_cursor c w = (x, u)" by force
    note wu = reads_onlyD [OF reads_only_read_cursor rc]
    obtain e c' where r: "r = (e, c')" by force
    show ?thesis
      using "1.prems" True rc wu r "1.IH" [OF True rc [symmetric]]
      by (subst (asm) seek_frames.simps) (auto split: sum.splits if_splits intro: same_files_trans)
  qed
qed

lemma seek_prefix_same: "seek_prefix db c t n off w = (r, w') \<Longrightarrow> same_files w w'"
proof (induction db c t n off w arbitrary: r w' rule: seek_prefix.induct)
  case (1 db c t n off w)
  show ?case
  proof (cases "n < private_span_start db")
    case False
    then show ?thesis using "1.prems" by (subst (asm) seek_prefix.simps) simp
  next
    case True
    obtain x u where rs: "read_segment (batch_file db False) off (private_data_end db) w = (x, u)" by force
    note wu = reads_onlyD [OF reads_only_read_segment rs]
    show ?thesis
    proof (cases x)
      case (Inl e)
      then show ?thesis using "1.prems" True rs wu by (subst (asm) seek_prefix.simps) simp
    next
      case (Inr s)
      obtain e c' v where sf: "seek_frames (position_segment c off s) t (seg_last s) u = ((e, c'), v)"
        by (metis surj_pair)
      have wv: "same_files w v" using same_files_trans [OF wu seek_frames_same [OF sf]] .
      show ?thesis
        using "1.prems" True rs Inr sf wv "1.IH" [OF True rs [symmetric] Inr sf [symmetric] refl]
        by (subst (asm) seek_prefix.simps) (auto split: option.splits if_splits intro: same_files_trans)
    qed
  qed
qed

lemma seek_search_same: "seek_search db t low high w = (r, w') \<Longrightarrow> same_files w w'"
proof (induction db t low high w arbitrary: r w' rule: seek_search.induct)
  case (1 db t low high w)
  show ?case
  proof (cases "low < high")
    case False
    then show ?thesis using "1.prems" by (subst (asm) seek_search.simps) simp
  next
    case True
    let ?m = "low + (high - low) div 2"
    obtain x u where sa: "segment_at (batch_file db False) (private_data_end db) (private_generation db)
        (private_last_segment db) ?m w = (x, u)" by force
    note wu = reads_onlyD [OF reads_only_segment_at sa]
    show ?thesis
      using "1.prems" True sa wu "1.IH"(1) [OF True refl sa [symmetric]] "1.IH"(2) [OF True refl sa [symmetric]]
      by (subst (asm) seek_search.simps)
        (auto simp: Let_def split: sum.splits prod.splits if_splits intro: same_files_trans)
  qed
qed

lemma reads_only_seek_position [reading]: "reads_only (seek_position db c low)"
  unfolding seek_position_def by (intro reading)

lemma seek_same:
  assumes "timelite_batches_seek db t scratch n w = (r, w')"
  shows "same_files w w'"
  using assms
  by (auto simp: timelite_batches_seek_def Let_def intro: same_files_trans
      dest!: seek_prefix_same seek_search_same seek_frames_same reads_onlyD [OF reads_only_seek_position]
      split: option.splits prod.splits sum.splits bool.splits if_splits)

lemma range_loop_same: "range_loop db rg cap os c w = (r, w') \<Longrightarrow> same_files w w'"
proof (induction db rg cap os c w arbitrary: r w' rule: range_loop.induct)
  case (1 db rg cap os c w)
  obtain x u where rc: "read_cursor c w = (x, u)" by force
  note wu = reads_onlyD [OF reads_only_read_cursor rc]
  show ?case
  proof (cases x)
    case (Inl e)
    then show ?thesis using "1.prems" rc wu by (subst (asm) range_loop.simps) simp
  next
    case (Inr y)
    obtain bytes found batch c' where y: "y = (bytes, found, batch, c')" by (metis surj_pair)
    have "same_files u w'" if "range_loop db rg cap os c' u = (r, w')"
      "matching bytes found rg = []" "\<not> (os \<le> batch \<and> private_wal_ordered db \<and> until_us rg \<le> frame_time bytes 0)"
      using "1.IH" [OF rc [symmetric] Inr y [symmetric] refl refl refl] that by auto
    then show ?thesis
      using "1.prems" rc wu Inr y
      by (subst (asm) range_loop.simps) (auto simp: Let_def split: if_splits intro: same_files_trans)
  qed
qed

lemma reads_only_ordered_from [reading]: "reads_only (ordered_from db)"
  unfolding ordered_from_def Let_def by (intro reading)

lemma next_range_same:
  assumes "timelite_batches_next_range db rg rec cap cnt sq scr n w = (r, w')"
  shows "same_files w w'"
  using assms
  by (auto simp: timelite_batches_next_range_def Let_def
      dest!: range_loop_same reads_onlyD [OF reads_only_ordered_from]
      split: option.splits prod.splits sum.splits if_splits) (blast intro: same_files_trans)+

lemma aggregate_loop_same: "aggregate_loop c rg scr n a w = (r, w') \<Longrightarrow> same_files w w'"
proof (induction c rg scr n a w arbitrary: r w' rule: aggregate_loop.induct)
  case (1 c rg scr n a w)
  obtain x c' u where nr: "timelite_batches_next_range (Some c) rg (Some ()) TIMELITE_MAX_RECORDS (Some ()) (Some ())
      scr n w = ((x, c'), u)" by (metis surj_pair)
  note wu = next_range_same [OF nr]
  show ?case
  proof (cases x)
    case (Inl e)
    then show ?thesis using "1.prems" nr wu by (subst (asm) aggregate_loop.simps) simp
  next
    case (Inr y)
    obtain e a' where r: "r = (e, a')" by force
    from Inr show ?thesis
      using "1.prems" nr wu r "1.IH" [OF nr [symmetric] refl Inr]
      by (subst (asm) aggregate_loop.simps) (auto split: prod.splits intro: same_files_trans)
  qed
qed

lemma aggregate_same:
  assumes "timelite_batches_aggregate_range db rg res scr n w = (r, w')"
  shows "same_files w w'"
  using assms
  by (auto simp: timelite_batches_aggregate_range_def dest!: aggregate_loop_same
      split: option.splits prod.splits if_splits)

end
