(* ===== verification/TL_Handle.thy ===== *)
theory TL_Handle
  imports TL_StoreLog TL_Retention TL_Query
begin

text \<open>
  The handle as a state machine: what every handle of the library satisfies, whatever happens to the
  files between two calls, and what it means for the fixed array of skip links.
\<close>

section \<open>Extents\<close>

text \<open>The smallest frame has one record: 84 bytes; the smallest segment 116.\<close>

lemma segment_frames:
  assumes "parse_segment h hs ord off end = Inr s"
  shows "84 \<le> unat (seg_body s)"
proof -
  have f: "seg_first s \<noteq> 0" "seg_first s \<le> seg_last s"
    and l: "seg_last s - seg_first s + 1 \<le> ucast (seg_body s div 84)"
    using assms by (auto simp: parse_segment_def Let_def not_less not_le split: if_splits)
  have "unat (seg_last s - seg_first s) = unat (seg_last s) - unat (seg_first s)"
    using f(2) by (simp add: u64_arith)
  moreover have "0 < unat (seg_first s)" using f(1) by (simp add: unat_gt_0)
  ultimately have "unat (seg_last s - seg_first s + 1) = unat (seg_last s) - unat (seg_first s) + 1"
    using u64_bound [of "seg_last s"] by (subst u64_add) simp_all
  moreover have "unat (ucast (seg_body s div 84) :: u64) = unat (seg_body s) div 84"
    by (simp add: unsigned_ucast_eq unat_div take_bit_nat_eq_self
        order.strict_trans1 [OF div_le_dividend order.strict_trans [OF u32_bound]])
  ultimately have "1 \<le> unat (seg_body s) div 84" using l by (simp add: word_le_nat_alt)
  then show ?thesis by simp
qed

lemma read_segment_minimum:
  assumes "read_segment f off end w = (Inr s, w')"
  shows "116 \<le> unat (segment_extent s)"
proof -
  from assms obtain h hs ord where "parse_segment h hs ord off end = Inr s"
    by (auto simp: read_segment_def io_bind_Inr Let_def split: if_splits)
  then show ?thesis using segment_frames read_segment_InrD(2,5) [OF assms] by fastforce
qed

section \<open>The array of skip links\<close>

lemma link_bit_bound:
  assumes "n \<noteq> 0" "unat n < 2 ^ 24"
  shows "link_bit n < 24"
proof -
  have "(2 :: nat) ^ link_bit n < 2 ^ 24" using low_bit_props(5) [OF assms(1)] assms(2) by simp
  then show ?thesis by (rule power_less_imp_less_exp [rotated]) simp
qed

lemma link_offsets_append:
  "b < length xs \<Longrightarrow> link_offsets b off (xs @ junk) = link_offsets b off xs @ junk"
  by (simp add: link_offsets_def)

lemma length_link_offsets [simp]: "b < length xs \<Longrightarrow> length (link_offsets b off xs) = length xs"
  by (simp add: link_offsets_def)

text \<open>The same result, with the memory behind the array as it was.\<close>

definition chain_behind :: "u64 list \<Rightarrow> chain \<Rightarrow> chain" where
  "chain_behind junk c = c\<lparr>ch_offsets := ch_offsets c @ junk\<rparr>"

definition copying_behind :: "u64 list \<Rightarrow> copying \<Rightarrow> copying" where
  "copying_behind junk c = c\<lparr>cp_offsets := cp_offsets c @ junk\<rparr>"

lemma check_link_behind:
  assumes "link_bit n < length (ch_offsets c)"
  shows "check_link en n s (chain_behind junk c) = map_sum (\<lambda>e. e) (chain_behind junk) (check_link en n s c)"
  using assms by (auto simp: check_link_def chain_behind_def nth_append link_offsets_append)

lemma check_links_behind:
  assumes "length (ch_offsets c) = 24" "n \<noteq> 0"
    and "116 * (unat n - 1) + (unat end - unat (ch_offset c)) \<le> 2 ^ 30"
  shows "check_links f end en g n (chain_behind junk c) w =
    apfst (map_sum (\<lambda>e. e) (chain_behind junk)) (check_links f end en g n c w)"
  using assms
proof (induction f "end" en g n c w rule: check_links.induct)
  case (1 f e en g n c w)
  obtain x u where rs: "read_segment f (ch_offset c) e w = (x, u)" by force
  have o: "ch_offset (chain_behind junk c) = ch_offset c" by (simp add: chain_behind_def)
  show ?case
  proof (cases "n \<le> g \<and> (\<exists>s. x = Inr s)")
    case False
    then show ?thesis
      using rs o by (cases x) (auto simp: check_links.simps [of f e en g n] not_le)
  next
    case True
    then obtain s where s: "x = Inr s" and n: "n \<le> g" by blast
    note a = read_segment_advance [OF rs [unfolded s]] and m = read_segment_minimum [OF rs [unfolded s]]
    have room: "116 * unat n + (unat e - unat (ch_offset c + segment_extent s)) \<le> 2 ^ 30"
      using "1.prems"(2,3) a m by (simp add: unat_gt_0 [symmetric])
    then have small: "unat n < 2 ^ 24" by simp
    have b: "link_bit n < length (ch_offsets c)" using link_bit_bound [OF "1.prems"(2) small] "1.prems"(1) by simp
    note cb = check_link_behind [OF b, of en s junk]
    show ?thesis
    proof (cases "check_link en n s c")
      case (Inl err)
      then show ?thesis using n rs s o cb by (simp add: check_links.simps [of f e en g n])
    next
      case (Inr c')
      note c' = check_link_InrD [OF Inr]
      have n1: "unat (n + 1) = unat n + 1" using small by (subst u64_add) simp_all
      then have "n + 1 \<noteq> 0" by (metis add_is_0 one_neq_zero unat_0)
      then have "check_links f e en g (n + 1) (chain_behind junk c') u =
          apfst (map_sum (\<lambda>e. e) (chain_behind junk)) (check_links f e en g (n + 1) c' u)"
        using "1.IH" [OF n rs [symmetric] s Inr] c' b "1.prems"(1) room n1 by simp
      then show ?thesis using n rs s o cb Inr by (simp add: check_links.simps [of f e en g n])
    qed
  qed
qed

lemma copy_segment_behind:
  assumes "link_bit (cp_count c + 1) < length (cp_offsets c)"
  shows "copy_segment f off s (copying_behind junk c) w =
    apfst (map_sum (\<lambda>e. e) (copying_behind junk)) (copy_segment f off s c w)"
  using assms
  by (simp add: copy_segment_def copying_behind_def Let_def io_bind_def io_seq_def nth_append
      link_offsets_append split: prod.splits sum.splits option.splits)

lemma copy_segment_InrD:
  assumes "copy_segment f off s c w = (Inr c', w')"
  shows "cp_count c' = cp_count c + 1"
    "cp_offsets c' = link_offsets (link_bit (cp_count c + 1)) (cp_destination c) (cp_offsets c)"
  using assms by (auto simp: copy_segment_def Let_def io_bind_Inr io_seq_Inr split: if_splits)

lemma copy_loop_behind:
  assumes "length (cp_offsets c) = 24" "116 * unat (cp_count c) + (unat end - unat off) \<le> 2 ^ 30"
  shows "copy_loop f end filt cutoff off (copying_behind junk c) w =
    apfst (map_sum (\<lambda>e. e) (copying_behind junk)) (copy_loop f end filt cutoff off c w)"
  using assms
proof (induction f "end" filt cutoff off c w rule: copy_loop.induct)
  case (1 f e filt cutoff off c w)
  note step = copy_loop.simps [of f e filt cutoff off]
  obtain x u where rs: "read_segment f off e w = (x, u)" by force
  show ?case
  proof (cases "off < e \<and> (\<exists>s. x = Inr s)")
    case False
    then show ?thesis using rs by (cases x) (auto simp: step not_less)
  next
    case True
    then obtain s where s: "x = Inr s" and off: "off < e" by blast
    note a = read_segment_advance [OF rs [unfolded s]] and m = read_segment_minimum [OF rs [unfolded s]]
    have room: "116 * (unat (cp_count c) + 1) + (unat e - unat (off + segment_extent s)) \<le> 2 ^ 30"
      using "1.prems"(2) a m by simp
    then have n: "unat (cp_count c + 1) = unat (cp_count c) + 1" by (subst u64_add) simp_all
    then have "cp_count c + 1 \<noteq> 0" by (metis add_is_0 one_neq_zero unat_0)
    then have b: "link_bit (cp_count c + 1) < length (cp_offsets c)"
      using link_bit_bound [of "cp_count c + 1"] n room "1.prems"(1) by simp
    obtain y v where ex: "(if filt then segment_expires f off s cutoff u else (Inr False, u)) = (y, v)" by force
    show ?thesis
    proof (cases y)
      case (Inl err)
      then show ?thesis using off rs s ex by (simp add: step)
    next
      case (Inr expires)
      obtain z q where cs: "(if expires then (Inr c, v) else copy_segment f off s c v) = (z, q)" by force
      have cs': "(if expires then (Inr (copying_behind junk c), v) else copy_segment f off s (copying_behind junk c) v) =
          (map_sum (\<lambda>e. e) (copying_behind junk) z, q)"
        using cs copy_segment_behind [OF b, of f off s junk v] by (auto split: if_splits)
      show ?thesis
      proof (cases z)
        case (Inl err)
        then show ?thesis using off rs s ex Inr cs cs' by (simp add: step)
      next
        case fine: (Inr c')
        have "length (cp_offsets c') = 24 \<and>
            116 * unat (cp_count c') + (unat e - unat (off + segment_extent s)) \<le> 2 ^ 30"
          using cs fine "1.prems" b n room a(1,2) copy_segment_InrD [of f off s c v c' q] by (cases expires) auto
        then have "copy_loop f e filt cutoff (off + segment_extent s) (copying_behind junk c') q =
            apfst (map_sum (\<lambda>e. e) (copying_behind junk)) (copy_loop f e filt cutoff (off + segment_extent s) c' q)"
          using "1.IH" [OF off rs [symmetric] s ex [symmetric] Inr cs [symmetric] fine] by simp
        then show ?thesis using off rs s ex Inr cs cs' fine by (simp add: step)
      qed
    qed
  qed
qed

section \<open>How far the loops get\<close>

lemma scan_frames_progress:
  assumes "scan_frames step t f end p q a w = (Inr (p', q', a'), w')" "p \<le> end"
  shows "p' \<le> end \<and> (\<not> t \<longrightarrow> p' = end) \<and> (p' = p \<or> unat p + 84 \<le> unat p')"
  using assms
proof (induction step t f "end" p q a w rule: scan_frames.induct)
  case (1 step t f e p q a w)
  show ?case
  proof (cases "p < e")
    case False
    then show ?thesis using "1.prems" by (subst (asm) scan_frames.simps) auto
  next
    case True
    obtain x u where rf: "read_frame f p e q w = (x, u)" by force
    show ?thesis
    proof (cases x)
      case (Inl err)
      then show ?thesis using "1.prems" True rf by (subst (asm) scan_frames.simps) (auto split: if_splits)
    next
      case (Inr y)
      obtain bytes len n where y: "y = (bytes, len, n)" by (cases y)
      note r = read_frame_InrD [OF rf [unfolded Inr y]] read_frame_advance [OF rf [unfolded Inr y]]
      obtain a1 v where st: "step bytes len n p a u = (Inr a1, v)"
        and rest: "scan_frames step t f e (p + of_nat len) (q + 1) a1 v = (Inr (p', q', a'), w')"
        using "1.prems"(1) True rf Inr y
        by (subst (asm) scan_frames.simps) (auto split: prod.splits sum.splits)
      have "unat (of_nat len :: u64) = len" using r(2,3) by (intro u64_of_nat) simp
      then have "unat p + len \<le> unat e" using r(6) True by (simp add: u64_arith)
      then have "p + of_nat len \<le> e" using r(7) by (simp add: word_le_nat_alt)
      from "1.IH" [OF True rf [symmetric] Inr y [symmetric] refl st [symmetric] refl rest this]
      show ?thesis using r(1,3,7) by auto
    qed
  qed
qed

lemma scan_frames_copied:
  assumes "scan_frames step t f end p q d w = (Inr (p', q', d'), w')"
    and "\<And>b l r p d w d' w'. step b l r p d w = (Inr d', w') \<Longrightarrow> d' = d + of_nat l"
  shows "d' - d = p' - p"
  using assms
proof (induction step t f "end" p q d w rule: scan_frames.induct)
  case (1 step t f e p q d w)
  show ?case
  proof (cases "p < e")
    case False
    then show ?thesis using "1.prems" by (subst (asm) scan_frames.simps) auto
  next
    case True
    obtain x u where rf: "read_frame f p e q w = (x, u)" by force
    show ?thesis
    proof (cases x)
      case (Inl err)
      then show ?thesis using "1.prems" True rf by (subst (asm) scan_frames.simps) (auto split: if_splits)
    next
      case (Inr y)
      obtain bytes len n where y: "y = (bytes, len, n)" by (cases y)
      obtain d1 v where st: "step bytes len n p d u = (Inr d1, v)"
        and rest: "scan_frames step t f e (p + of_nat len) (q + 1) d1 v = (Inr (p', q', d'), w')"
        using "1.prems"(1) True rf Inr y
        by (subst (asm) scan_frames.simps) (auto split: prod.splits sum.splits)
      have "d' - d1 = p' - (p + of_nat len)"
        using "1.IH" [OF True rf [symmetric] Inr y [symmetric] refl st [symmetric] refl rest "1.prems"(2)] .
      then show ?thesis using "1.prems"(2) [OF st] by (simp add: algebra_simps)
    qed
  qed
qed

lemma copy_segment_extent:
  assumes "copy_segment f off s c w = (Inr c', w')" "read_segment f off end u = (Inr s, u')"
  shows "cp_destination c' = cp_destination c + segment_extent s"
proof -
  let ?p = "off + of_nat (seg_header_size s)"
  let ?b = "?p + ucast (seg_body s)"
  from assms(1) obtain p q v where
    sc: "scan_frames (\<lambda>bytes len records position destination. io_seq (write_exact f destination bytes)
           (\<lambda>w. (Inr (destination + of_nat len), w))) False f ?b ?p (seg_first s)
           (cp_destination c + of_nat (seg_header_size s)) v = (Inr (p, q, cp_destination c'), w')"
    by (auto simp: copy_segment_def Let_def io_bind_Inr io_seq_Inr split: if_splits)
  note r = read_segment_InrD [OF assms(2)]
  have "unat ?p = unat off + seg_header_size s"
    using r(3,5) u64_bound [of "end"] by (intro u64_offset) simp
  moreover have "unat (ucast (seg_body s) :: u64) = unat (seg_body s)"
    by (simp add: unsigned_ucast_eq take_bit_nat_eq_self unsigned_less [THEN order.strict_trans])
  ultimately have "unat ?b = unat ?p + unat (seg_body s)"
    using r(3,5) u64_bound [of "end"] by (subst u64_add) simp_all
  then have "?p \<le> ?b" by (simp add: word_le_nat_alt)
  with scan_frames_progress [OF sc] have "p = ?b" by simp
  moreover have "cp_destination c' - (cp_destination c + of_nat (seg_header_size s)) = p - ?p"
    by (rule scan_frames_copied [OF sc]) (simp add: io_seq_Inr)
  ultimately show ?thesis by (simp add: segment_extent_def algebra_simps)
qed

text \<open>Copying moves the destination by what is copied: all of the range, unless segments expire.\<close>

lemma copy_loop_extent:
  assumes "copy_loop f end filt cutoff off c w = (Inr c', w')" "off \<le> end"
  shows "\<exists>d. cp_destination c' = cp_destination c + d \<and> unat d \<le> unat end - unat off \<and>
    (\<not> filt \<longrightarrow> d = end - off)"
  using assms
proof (induction f "end" filt cutoff off c w rule: copy_loop.induct)
  case (1 f e filt cutoff off c w)
  show ?case
  proof (cases "off < e")
    case False
    then show ?thesis using "1.prems" by (subst (asm) copy_loop.simps) (auto intro: exI [of _ 0])
  next
    case True
    obtain s u y v c1 q where rs: "read_segment f off e w = (Inr s, u)"
      and ex: "(if filt then segment_expires f off s cutoff u else (Inr False, u)) = (Inr y, v)"
      and cs: "(if y then (Inr c, v) else copy_segment f off s c v) = (Inr c1, q)"
      and rest: "copy_loop f e filt cutoff (off + segment_extent s) c1 q = (Inr c', w')"
      using "1.prems"(1) True by (subst (asm) copy_loop.simps) (auto split: prod.splits sum.splits)
    note a = read_segment_advance [OF rs]
    then have "off + segment_extent s \<le> e" by (simp add: word_le_nat_alt)
    from "1.IH" [OF True rs [symmetric] refl ex [symmetric] refl cs [symmetric] refl rest this]
    obtain d where d: "cp_destination c' = cp_destination c1 + d"
      "unat d \<le> unat e - unat (off + segment_extent s)" "\<not> filt \<longrightarrow> d = e - (off + segment_extent s)"
      by blast
    show ?thesis
    proof (cases y)
      case True
      then have "filt" using ex by (auto split: if_splits)
      then show ?thesis using True cs d a by (intro exI [of _ d]) auto
    next
      case False
      have "unat (segment_extent s + d) \<le> unat (segment_extent s) + unat d"
        by (simp add: unat_word_ariths)
      then show ?thesis
        using False cs d a copy_segment_extent [OF _ rs, of c v c1 q]
        by (intro exI [of _ "segment_extent s + d"]) (auto simp: algebra_simps)
    qed
  qed
qed

lemma copy_segments_extent:
  assumes "copy_segments f root end dest filt cutoff w = (Inr (new_end, tail), w')" "root \<le> end"
  shows "\<exists>d. new_end = dest + d \<and> unat d \<le> unat end - unat root \<and> (\<not> filt \<longrightarrow> d = end - root)"
  using assms(1) copy_loop_extent [OF _ assms(2)]
  by (fastforce simp: copy_segments_def io_bind_Inr io_seq_Inr)

lemma publish_retention_InrD:
  assumes "publish_retention f st c e l t tail root ph w = (Inr st', w')"
  shows "rs_root st' = root" "rs_phase st' = ph"
  using assms by (auto simp: publish_retention_def Let_def io_seq_Inr split: if_splits)

lemma finish_retention_extent:
  assumes "finish_retention f st n end l t tail w = (Inr (st', end', tail'), w')" "rs_root st \<le> end"
  shows "rs_root st' = 160" "end' = (if rs_phase st = 2 then 160 + (end - rs_root st) else end)"
proof -
  from assms(1) show "rs_root st' = 160"
    by (auto simp: finish_retention_def io_bind_Inr io_seq_Inr dest: publish_retention_InrD split: if_splits)
  show "end' = (if rs_phase st = 2 then 160 + (end - rs_root st) else end)"
    using assms(1) copy_segments_extent [OF _ assms(2), where dest = 160 and filt = False]
    by (fastforce simp: finish_retention_def io_bind_Inr io_seq_Inr split: if_splits)
qed

text \<open>A validated chain of \<open>generation\<close> segments fills the data area.\<close>

lemma check_links_extent:
  assumes "check_links f end en g n c w = (Inr c', w')"
  shows "unat (ch_offset c) + 116 * (unat g + 1 - unat n) \<le> unat (ch_offset c')"
  using assms
proof (induction f "end" en g n c w rule: check_links.induct)
  case (1 f e en g n c w)
  show ?case
  proof (cases "n \<le> g")
    case False
    then show ?thesis using "1.prems" by (subst (asm) check_links.simps) (simp add: word_le_nat_alt)
  next
    case True
    obtain s u c1 where rs: "read_segment f (ch_offset c) e w = (Inr s, u)"
      and cl: "check_link en n s c = Inr c1" and rest: "check_links f e en g (n + 1) c1 u = (Inr c', w')"
      using "1.prems" True by (subst (asm) check_links.simps) (auto split: prod.splits sum.splits)
    note a = read_segment_advance [OF rs] and m = read_segment_minimum [OF rs]
    have ih: "unat (ch_offset c1) + 116 * (unat g + 1 - unat (n + 1)) \<le> unat (ch_offset c')"
      using "1.IH" [OF True rs [symmetric] refl cl rest] .
    have "unat (n + 1) \<le> unat n + 1" by (simp add: unat_word_ariths)
    then show ?thesis using ih a m True check_link_InrD(1) [OF cl] by (simp add: word_le_nat_alt)
  qed
qed

lemma check_segments_extent:
  assumes "check_segments f g end l tail t ht st w = (Inr r, w')"
  shows "unat (rs_root st) + 116 * unat g \<le> unat end"
proof -
  obtain c u where "check_links f end (rs_enabled st) g 1 (chain_start (rs_root st)) w = (Inr c, u)"
    "ch_offset c = end"
    using assms by (auto simp: check_segments_def io_bind_Inr split: if_splits)
  from check_links_extent [OF this(1)] this(2) show ?thesis by (simp add: chain_start_def)
qed

section \<open>The bounds of a handle\<close>

text \<open>
  The committed end of the WAL is that of an empty WAL or of one with a batch, and within the capacity;
  the data area has room for the segments it counts and is within the capacity.
\<close>

definition handle_bounds :: "timelite_batches \<Rightarrow> bool" where
  "handle_bounds h \<longleftrightarrow>
     (private_end h = 32 \<or> 116 \<le> private_end h) \<and> private_end h \<le> TIMELITE_WAL_CAPACITY \<and>
     TIMELITE_DATA_START \<le> private_data_end h \<and> private_data_end h \<le> TIMELITE_DATABASE_CAPACITY \<and>
     private_generation h \<le> (private_data_end h - TIMELITE_DATA_START) div TIMELITE_SEGMENT_MIN"

lemma handle_bounds_nat:
  "handle_bounds h \<longleftrightarrow>
     (unat (private_end h) = 32 \<or> 116 \<le> unat (private_end h)) \<and> unat (private_end h) \<le> 67108864 \<and>
     160 + 116 * unat (private_generation h) \<le> unat (private_data_end h) \<and>
     unat (private_data_end h) \<le> 1073741824"
proof -
  have e: "private_end h = 32 \<longleftrightarrow> unat (private_end h) = 32" by (simp add: word_unat_eq_iff)
  show ?thesis
  proof (cases "160 \<le> unat (private_data_end h)")
    case True
    then have "unat ((private_data_end h - 160) div 116) = (unat (private_data_end h) - 160) div 116"
      by (simp add: unat_div u64_arith)
    then show ?thesis
      using True unfolding handle_bounds_def e
      by (simp add: word_le_nat_alt less_eq_div_iff_mult_less_eq) linarith
  qed (auto simp: handle_bounds_def word_le_nat_alt)
qed

lemma handle_bounds_failed [simp]: "handle_bounds (h\<lparr>private_failed := b\<rparr>) = handle_bounds h"
  by (simp add: handle_bounds_def)

lemma handle_bounds_cursor [simp]:
  "handle_bounds (copy_cursor h c) = handle_bounds h" "handle_bounds (reset_cursor h) = handle_bounds h"
  by (simp_all add: handle_bounds_def copy_cursor_def reset_cursor_def)

lemma append_in_bounds:
  assumes "timelite_batches_append (Some h) rs n scratch m sq w = ((r, Some h'), w')" "handle_bounds h"
    and "case rs of None \<Rightarrow> True | Some recs \<Rightarrow> n \<le> length recs"
  shows "handle_bounds h'"
proof (cases "h' = h \<or> h' = h\<lparr>private_failed := True\<rparr>")
  case False
  then obtain recs where g: "append_arguments (Some h) rs n scratch m sq = None"
    and h': "h' = append_commit recs (private_sequence h + 1) (h\<lparr>private_failed := True\<rparr>)"
    and recs: "recs = take n (the rs)"
    using assms(1) by (auto simp: timelite_batches_append_def Let_def split: option.splits prod.splits)
  have n: "0 < n" "n \<le> 64" "of_nat (64 + n * 20) \<le> TIMELITE_WAL_CAPACITY - private_end h"
    using g by (auto simp: append_arguments_def Let_def not_less add.commute split: option.splits if_splits)
  have len: "length recs = n"
    using g assms(3) recs by (auto simp: append_arguments_def Let_def min_def split: option.splits if_splits)
  have b: "unat (private_end h) \<le> 67108864" using assms(2) by (simp add: handle_bounds_nat)
  have u: "unat (of_nat (64 + n * 20) :: u64) = 64 + n * 20" using n(2) by (intro u64_of_nat) simp
  have room: "unat (private_end h) + (64 + n * 20) \<le> 67108864"
    using n(3) b u by (simp add: word_le_nat_alt u64_sub del: of_nat_add of_nat_mult)
  then have "unat (private_end h + of_nat (64 + n * 20)) = unat (private_end h) + (64 + n * 20)"
    by (intro u64_offset) simp
  moreover have "private_end h' = private_end h + of_nat (64 + n * 20)"
    "private_data_end h' = private_data_end h" "private_generation h' = private_generation h"
    unfolding h' by (simp_all add: append_commit_def Let_def len add.commute add.left_commute)
  ultimately show ?thesis using assms(2) n(1) room by (auto simp: handle_bounds_nat)
qed (use assms(2) in auto)

lemma checkpoint_in_bounds:
  assumes "timelite_batches_checkpoint (Some h) scratch m w = ((r, Some h'), w')" "handle_bounds h"
  shows "handle_bounds h'"
proof -
  have arg: ?thesis if "checkpoint_arguments (Some h) scratch m \<noteq> (None, True)"
    using assms that by (auto simp: timelite_batches_checkpoint_def split: prod.splits option.splits bool.splits)
  {
    assume a: "checkpoint_arguments (Some h) scratch m = (None, True)"
    let ?new = "private_data_end h + 64 + (private_end h - 32)"
    have g: "private_end h \<noteq> 32" "private_end h - 32 + 64 \<le> TIMELITE_DATABASE_CAPACITY - private_data_end h"
      using a by (auto simp: checkpoint_arguments_def Let_def not_less split: option.splits if_splits)
    have b: "116 \<le> unat (private_end h)" "unat (private_end h) \<le> 67108864"
      "160 + 116 * unat (private_generation h) \<le> unat (private_data_end h)"
      "unat (private_data_end h) \<le> 1073741824"
      using assms(2) g(1) by (auto simp: handle_bounds_nat word_unat_eq_iff)
    have e: "unat (private_end h - 32) = unat (private_end h) - 32" using b by (simp add: u64_arith)
    have u: "unat ?new = unat (private_data_end h) + 64 + (unat (private_end h) - 32)"
      using b e by (simp add: u64_add)
    have room: "unat (private_end h) - 32 + 64 \<le> 1073741824 - unat (private_data_end h)"
      using g(2) b e by (simp add: word_le_nat_alt u64_add u64_sub)
    have gen: "unat (private_generation h + 1) = unat (private_generation h) + 1"
      using b by (subst u64_add) simp_all
    have ok: "handle_bounds (installed_handle k p q)"
      "handle_bounds ((installed_handle k p q)\<lparr>private_end := 32, private_wal_ordered := x, private_failed := y\<rparr>)"
      if "private_end k = private_end h" "private_data_end k = private_data_end h"
        "private_generation k = private_generation h" for k p q x y
      using that b u room gen by (auto simp: handle_bounds_nat installed_handle_def Let_def)
    have "handle_bounds (h\<lparr>private_failed := x, private_legacy := y\<rparr>)" for x y
      using assms(2) by (simp add: handle_bounds_def)
    then have ?thesis
      using assms a ok
      by (auto simp: timelite_batches_checkpoint_def Let_def split: prod.splits option.splits sum.splits)
  }
  with arg show ?thesis by blast
qed

lemma relocate_same:
  assumes "relocate wanted c w = (Inr (found, c'), w')"
  shows "handle_bounds c' = handle_bounds c"
  using assms
proof (induction wanted c w rule: relocate.induct)
  case (1 wanted c w)
  show ?case
  proof (cases "wanted = 0")
    case True
    then show ?thesis using "1.prems" by (subst (asm) relocate.simps) simp
  next
    case False
    obtain x u where rc: "read_cursor c w = (x, u)" by force
    show ?thesis
    proof (cases x)
      case (Inl e)
      then show ?thesis using "1.prems" False rc by (subst (asm) relocate.simps) (simp split: if_splits)
    next
      case (Inr y)
      obtain bytes n q c1 where y: "y = (bytes, n, q, c1)" by (metis surj_pair)
      have c1: "handle_bounds c1 = handle_bounds c"
        using rc [unfolded Inr y] by (cases rule: read_cursor_cases) (simp_all add: handle_bounds_def)
      have "handle_bounds c' = handle_bounds c1" if "\<not> wanted \<le> q" "relocate wanted c1 u = (Inr (found, c'), w')"
        using "1.IH" [OF False rc [symmetric] Inr y [symmetric] refl refl that] .
      then show ?thesis
        using "1.prems" False rc Inr y c1 by (subst (asm) relocate.simps) (auto split: if_splits)
    qed
  qed
qed

lemma expire_phases_extent:
  assumes "expire_phases h cutoff n w = (Inr (st, end, tail), w')" "handle_bounds h"
  shows "rs_root st = 160" "unat end \<le> unat (private_data_end h)"
proof -
  let ?e = "private_data_end h"
  from assms(1) obtain st1 u1 new_end tail1 u2 st2 u3 where
      c: "copy_segments (batch_file h False) 160 ?e ?e True cutoff u1 = (Inr (new_end, tail1), u2)"
    and p: "publish_retention (batch_file h False) st1 n new_end (private_installed h)
              (private_installed_time h) tail1 ?e 2 u2 = (Inr st2, u3)"
    and f: "finish_retention (batch_file h False) st2 n new_end (private_installed h)
              (private_installed_time h) tail1 u3 = (Inr (st, end, tail), w')"
    by (auto simp: expire_phases_def Let_def io_bind_Inr)
  have b: "160 \<le> unat ?e" "unat ?e \<le> 1073741824" using assms(2) by (auto simp: handle_bounds_nat)
  then have le: "(160 :: u64) \<le> ?e" by (simp add: word_le_nat_alt)
  obtain d where d: "new_end = ?e + d" "unat d \<le> unat ?e - 160"
    using copy_segments_extent [OF c le] by auto
  have new: "unat new_end = unat ?e + unat d" unfolding d(1) using b d(2) by (subst u64_add) simp_all
  note st2 = publish_retention_InrD [OF p]
  have "rs_root st2 \<le> new_end" using st2 new by (simp add: word_le_nat_alt)
  note fin = finish_retention_extent [OF f this]
  show "rs_root st = 160" by (fact fin)
  have "end = 160 + d" using fin(2) st2 d(1) by simp
  then show "unat end \<le> unat ?e" using b d(2) by (simp add: u64_add)
qed

lemma expired_handle_in_bounds:
  assumes "expired_handle h n live (st, end, tail) w = (Inr h', w')" "handle_bounds h"
    and "rs_root st = 160" "unat end \<le> unat (private_data_end h)"
  shows "handle_bounds h'"
proof -
  from assms(1) obtain r u tm sp c found v where
      chk: "check_segments (batch_file h False) n end (private_installed h) tail
              (private_installed_time h) True st w = (Inr r, u)"
    and rel: "relocate (private_read_sequence h) (reset_cursor (h\<lparr>private_generation := n,
         private_revision := rs_revision st, private_retention := True, private_live_batches := live,
         private_data_end := end, private_last_segment := tail, private_installed_time := tm,
         private_span_start := sp\<rparr>)) u = (Inr (found, c), v)"
    and h': "handle_bounds h' = handle_bounds c"
    by (auto simp: expired_handle_def Let_def io_bind_Inr handle_bounds_def split: if_splits)
  have "160 + 116 * unat n \<le> unat end" using check_segments_extent [OF chk] assms(3) by simp
  then have "handle_bounds (h\<lparr>private_generation := n,
         private_revision := rs_revision st, private_retention := True, private_live_batches := live,
         private_data_end := end, private_last_segment := tail, private_installed_time := tm,
         private_span_start := sp\<rparr>)"
    using assms(2,4) by (auto simp: handle_bounds_nat)
  then show ?thesis using relocate_same [OF rel] h' by simp
qed

lemma expire_effects_in_bounds:
  assumes "expire_phases h cutoff n w = (Inr result, u)" "expired_handle h n live result u = (Inr h', w')"
    and "handle_bounds h"
  shows "handle_bounds h'"
proof -
  obtain st e t where p: "result = (st, e, t)" by (metis surj_pair)
  from expired_handle_in_bounds [OF assms(2) [unfolded p] assms(3)] expire_phases_extent [OF assms(1) [unfolded p] assms(3)]
  show ?thesis by simp
qed

lemma expire_in_bounds:
  assumes "timelite_batches_expire_before (Some h) cutoff scratch m w = ((r, Some h'), w')" "handle_bounds h"
  shows "handle_bounds h'"
  using assms
  by (auto simp: timelite_batches_expire_before_def Let_def
      split: option.splits prod.splits sum.splits if_splits
      dest: expire_effects_in_bounds)

lemma seek_in_bounds:
  assumes "timelite_batches_seek (Some h) t scratch m w = ((r, Some h'), w')" "handle_bounds h"
  shows "handle_bounds h'"
  using assms
  by (auto simp: timelite_batches_seek_def Let_def split: option.splits prod.splits sum.splits bool.splits if_splits)

lemma next_in_bounds:
  assumes "timelite_batches_next (Some h) recs cap cnt sq scratch m w = ((r, Some h'), w')" "handle_bounds h"
  shows "handle_bounds h'"
  using assms
  by (auto simp: timelite_batches_next_def split: option.splits prod.splits sum.splits if_splits)

lemma next_range_in_bounds:
  assumes "timelite_batches_next_range (Some h) rg recs cap cnt sq scratch m w = ((r, Some h'), w')" "handle_bounds h"
  shows "handle_bounds h'"
  using assms
  by (auto simp: timelite_batches_next_range_def Let_def split: option.splits prod.splits sum.splits if_splits)

lemma rewind_in_bounds:
  assumes "timelite_batches_rewind (Some h) = (r, Some h')" "handle_bounds h"
  shows "handle_bounds h'"
  using assms by (auto simp: timelite_batches_rewind_def split: option.splits)

lemma init_in_bounds:
  assumes "timelite_batches_init db = (r, Some h)"
  shows "handle_bounds h"
  using assms by (auto simp: timelite_batches_init_def batch_set_file_def handle_bounds_def reset_cursor_def split: option.splits)

lemma close_in_bounds:
  assumes "timelite_batches_close (Some h) w = ((r, Some h'), w')" "handle_bounds h"
  shows "handle_bounds h'"
proof (cases "h' = h")
  case False
  then have "timelite_batches_init (Some h) = (None, Some h')"
    using assms(1) by (auto simp: timelite_batches_close_def timelite_batches_init_def Let_def
        split: prod.splits if_splits)
  then show ?thesis by (rule init_in_bounds)
qed (use assms(2) in simp)

section \<open>What recovery accepts\<close>

text \<open>The data area of a view: where the chain starts, and room for the segments counted.\<close>

definition view_bounds :: "manifest_view \<Rightarrow> bool" where
  "view_bounds v \<longleftrightarrow>
     unat (rs_root (mv_state v)) + 116 * unat (mv_generation v) \<le> unat (mv_data_end v) \<and>
     unat (mv_data_end v) \<le> 1073741824 \<and> 160 \<le> unat (rs_root (mv_state v)) \<and>
     (rs_phase (mv_state v) = 2 \<longrightarrow> unat (mv_data_end v) - unat (rs_root (mv_state v)) \<le> 1073741664) \<and>
     (rs_phase (mv_state v) \<noteq> 2 \<longrightarrow> rs_root (mv_state v) = 160)"

lemma retention_manifest_bounds:
  assumes "retention_manifest m n"
  shows "view_bounds (v\<lparr>mv_generation := ucast (decode32 (drop 52 m)), mv_data_end := decode64 (drop 16 m),
    mv_state := \<lparr>rs_revision = r, rs_root = ucast (decode32 (drop 44 m)), rs_phase = decode32 (drop 56 m), rs_enabled = b\<rparr>\<rparr>)"
proof -
  let ?c = "ucast (decode32 (drop 52 m)) :: u64" and ?e = "decode64 (drop 16 m)"
    and ?r = "ucast (decode32 (drop 44 m)) :: u64"
  have m: "?r \<ge> 160" "?r \<le> ?e" "?e \<le> TIMELITE_DATABASE_CAPACITY" "?c \<le> (?e - ?r) div 116"
    "if decode32 (drop 56 m) = 2 then ?e - ?r \<le> ?r - 160 else ?r = 160"
    using assms by (auto simp: retention_manifest_def Let_def)
  have "unat ((?e - ?r) div 116) = (unat ?e - unat ?r) div 116"
    using m(2) by (simp add: unat_div u64_arith)
  then have "116 * unat ?c \<le> unat ?e - unat ?r"
    using m(4) by (simp add: word_le_nat_alt less_eq_div_iff_mult_less_eq)
  then show ?thesis
    using m(1,2,3,5) by (auto simp: view_bounds_def word_le_nat_alt split: if_splits)
qed

lemma check_manifest_bounds:
  assumes "check_manifest m n = Some (g, d, l)"
  shows "160 + 116 * unat g \<le> unat d" "unat d \<le> 1073741824" "\<not> has_magic m ''TLRETAIN''"
proof -
  have m: "manifest_extent g d l n" "has_magic m ''TLINSTAL''"
    using check_manifest_SomeD [OF assms] by blast+
  show "\<not> has_magic m ''TLRETAIN''" using m(2) by (simp add: has_magic_def ascii_def)
  show "unat d \<le> 1073741824" using m(1) by (simp add: manifest_extent_def word_le_nat_alt)
  show "160 + 116 * unat g \<le> unat d"
  proof (cases "g = 0")
    case False
    then have g: "g \<le> 9256393" "160 + g * 116 \<le> d" using m(1) by (simp_all add: manifest_extent_def)
    then have "unat g \<le> 9256393" by (simp add: word_le_nat_alt)
    then have "unat (160 + g * 116) = 160 + unat g * 116" by (simp add: unat_word_ariths)
    then show ?thesis using g(2) by (simp add: word_le_nat_alt)
  qed (use m(1) in \<open>simp add: manifest_extent_def\<close>)
qed

lemma consider_slot_bounds:
  assumes "consider_slot i slot n (found, v) = (found', v')" "view_bounds v"
  shows "view_bounds v'"
proof (cases "v' = v")
  case False
  then obtain g d l where s: "slot_fields slot n = Some (g, d, l)"
    and v': "v' = (let enabled = has_magic slot ''TLRETAIN'' in
       v\<lparr>mv_generation := g, mv_data_end := d, mv_last := l, mv_last_time := decode64 (drop 32 slot),
         mv_tail := (if enabled then ucast (decode32 (drop 40 slot)) else decode64 (drop 40 slot)),
         mv_has_time := (enabled \<or> decode32 (drop 48 slot) = 7),
         mv_state := \<lparr>rs_revision = decode64 (drop 8 slot),
           rs_root = (if enabled then ucast (decode32 (drop 44 slot)) else 160),
           rs_phase = (if enabled then decode32 (drop 56 slot) else 0), rs_enabled = enabled\<rparr>\<rparr>)"
    using assms(1) by (auto simp: consider_slot_def Let_def split: if_splits option.splits)
  show ?thesis
  proof (cases "retention_manifest slot n")
    case True
    then have "has_magic slot ''TLRETAIN''" by (simp add: retention_manifest_def Let_def)
    then show ?thesis
      using s v' True retention_manifest_bounds [OF True]
      by (simp add: slot_fields_def view_bounds_def)
  next
    case False
    with s have "check_manifest slot n = Some (g, d, l)" by (simp add: slot_fields_def)
    from check_manifest_bounds [OF this] show ?thesis by (simp add: v' view_bounds_def)
  qed
qed (use assms(2) in simp)

lemma read_manifests_bounds:
  assumes "read_manifests f n w = (Inr v, w')"
  shows "view_bounds v"
proof (cases "n = 32")
  case True
  then show ?thesis using assms by (auto simp: read_manifests_def empty_view_def view_bounds_def)
next
  case False
  then obtain s0 s1 where v: "v = snd (consider_slot 1 s1 n (consider_slot 0 s0 n (False, empty_view n)))"
    using assms by (auto simp: read_manifests_def io_bind_Inr Let_def case_prod_beta split: if_splits)
  obtain found where c: "consider_slot 1 s1 n (consider_slot 0 s0 n (False, empty_view n)) = (found, v)"
    using v by (metis prod.collapse)
  obtain b v0 where c0: "consider_slot 0 s0 n (False, empty_view n) = (b, v0)" by force
  have "view_bounds (empty_view n)" by (simp add: view_bounds_def empty_view_def)
  from consider_slot_bounds [OF c0 this] consider_slot_bounds [OF c [unfolded c0]] show ?thesis by blast
qed

lemma recover_wal_bounds:
  assumes "recover_wal f n installed w = (Inr (offset, q, s, stale), w')" "32 \<le> n"
  shows "offset \<le> n" "unat offset = 32 \<or> 116 \<le> unat offset"
proof -
  obtain b sq q' a u where "scan_frames wal_frame b f n 32 sq wal_empty u = (Inr (offset, q', a), w')"
    using assms(1) by (auto simp: recover_wal_def io_bind_Inr split: if_splits)
  from scan_frames_progress [OF this assms(2)] show "offset \<le> n" "unat offset = 32 \<or> 116 \<le> unat offset"
    by auto
qed

lemma repair_pair_extent:
  assumes "repair_pair d l dp wp p off w = (Inr (st, end, tail), w')" "view_bounds (op_view p)"
  shows "160 + 116 * unat (mv_generation (op_view p)) \<le> unat end" "unat end \<le> 1073741824"
proof -
  let ?v = "op_view p"
  let ?e = "mv_data_end ?v" and ?r = "rs_root (mv_state ?v)"
  have b: "unat ?r + 116 * unat (mv_generation ?v) \<le> unat ?e" "unat ?e \<le> 1073741824" "160 \<le> unat ?r"
    "rs_phase (mv_state ?v) = 2 \<longrightarrow> unat ?e - unat ?r \<le> 1073741664" "rs_phase (mv_state ?v) \<noteq> 2 \<longrightarrow> ?r = 160"
    using assms(2) unfolding view_bounds_def by blast+
  have re: "?r \<le> ?e" using b(1) by (simp add: word_le_nat_alt)
  have "end = (if rs_phase (mv_state ?v) = 2 then 160 + (?e - ?r) else ?e)"
    using assms(1) finish_retention_extent(2) [OF _ re]
    by (auto simp: repair_pair_def Let_def io_bind_Inr io_seq_Inr split: if_splits)
  moreover have "unat (160 + (?e - ?r)) = 160 + (unat ?e - unat ?r)"
    using b(1,2) by (simp add: u64_add u64_sub)
  ultimately show "160 + 116 * unat (mv_generation ?v) \<le> unat end" "unat end \<le> 1073741824"
    using b by (auto split: if_splits)
qed

lemma open_recovered:
  assumes "timelite_batches_open (Some h) dp wp mode scratch m w = ((r, Some h'), w')" "h' \<noteq> h"
  obtains d l dp' wp' u v where "recover_pair h d l dp' wp' u = (Inr h', v)"
proof -
  obtain dp' wp' where args: "dp = Some dp'" "wp = Some wp'" "scratch = Some ()"
    using assms by (cases dp; cases wp; cases scratch) (auto simp: timelite_batches_open_def)
  note step = assms(1) [unfolded args timelite_batches_open_def, simplified prod.case option.case unit.case]
  obtain e d l create u where a: "acquire_pair dp' wp' mode w = ((e, d, l, create), u)" by (metis surj_pair)
  obtain x v where c: "(if create then (Inr l, u) else claim_existing d wp' u) = (x, v)" by force
  show thesis
  proof (cases "e = None \<and> (\<exists>f. x = Inr f)")
    case False
    then show thesis using step a c assms(2) by (cases e; cases x) (simp_all split: if_split_asm)
  next
    case True
    then obtain f where e: "e = None" "x = Inr f" by blast
    obtain y z where r: "recover_pair h d f dp' wp' v = (y, z)" by force
    have "y = Inr h'" using step a c e r assms(2) by (cases y) (simp_all split: if_split_asm)
    with r show thesis by (auto intro: that)
  qed
qed

lemma open_in_bounds:
  assumes "timelite_batches_open (Some h) dp wp mode scratch m w = ((r, Some h'), w')" "handle_bounds h"
  shows "handle_bounds h'"
proof (cases "h' = h")
  case False
  then obtain d l dp' wp' u v where "recover_pair h d l dp' wp' u = (Inr h', v)"
    using open_recovered [OF assms(1)] by blast
  then obtain p u1 off q s stale u2 repaired u3 u4 where
      val: "validate_pair d l u = (Inr p, u1)"
    and rec: "recover_wal l (op_wal_size p) (mv_last (op_view p)) u1 = (Inr (off, q, s, stale), u2)"
    and rep: "repair_pair d l dp' wp' p (if stale then 32 else off) u2 = (Inr repaired, u3)"
    and h': "h' = opened_handle h d l p (if stale then 32 else off) q s stale repaired"
    by (auto simp: recover_pair_def io_bind_Inr Let_def split: if_splits)
  obtain st e t where r: "repaired = (st, e, t)" by (metis surj_pair)
  have size: "32 \<le> op_wal_size p" "op_wal_size p \<le> TIMELITE_WAL_CAPACITY" and view: "view_bounds (op_view p)"
    using val by (auto simp: validate_pair_def io_bind_Inr not_less split: if_splits dest: read_manifests_bounds)
  note w = recover_wal_bounds [OF rec size(1)] and x = repair_pair_extent [OF rep [unfolded r] view]
  have "unat (private_end h') = 32 \<or> 116 \<le> unat (private_end h')" "unat (private_end h') \<le> 67108864"
    using w size by (auto simp: h' r opened_handle_def Let_def reset_cursor_def word_le_nat_alt)
  moreover have "private_data_end h' = e" "private_generation h' = mv_generation (op_view p)"
    by (simp_all add: h' r opened_handle_def Let_def reset_cursor_def)
  ultimately show ?thesis using x by (simp add: handle_bounds_nat)
qed (use assms(2) in simp)

section \<open>Runs of operations on one handle\<close>

text \<open>
  One call on a handle, with any arguments, on any state of the files: the operating system and other
  programs may have done anything since the call before, and the call may have failed.  The caller's
  array of an append has the records announced.
\<close>

inductive batch_step :: "timelite_batches \<Rightarrow> timelite_batches \<Rightarrow> bool" where
  init: "timelite_batches_init (Some h) = (e, Some h') \<Longrightarrow> batch_step h h'"
| opened: "timelite_batches_open (Some h) dp wp mode scratch m w = ((e, Some h'), w') \<Longrightarrow> batch_step h h'"
| closed: "timelite_batches_close (Some h) w = ((e, Some h'), w') \<Longrightarrow> batch_step h h'"
| append: "timelite_batches_append (Some h) rs n scratch m sq w = ((r, Some h'), w') \<Longrightarrow>
    (case rs of None \<Rightarrow> True | Some recs \<Rightarrow> n \<le> length recs) \<Longrightarrow> batch_step h h'"
| checkpoint: "timelite_batches_checkpoint (Some h) scratch m w = ((e, Some h'), w') \<Longrightarrow> batch_step h h'"
| expire: "timelite_batches_expire_before (Some h) cutoff scratch m w = ((e, Some h'), w') \<Longrightarrow> batch_step h h'"
| seek: "timelite_batches_seek (Some h) t scratch m w = ((e, Some h'), w') \<Longrightarrow> batch_step h h'"
| rewind: "timelite_batches_rewind (Some h) = (e, Some h') \<Longrightarrow> batch_step h h'"
| "next": "timelite_batches_next (Some h) recs cap cnt sq scratch m w = ((x, Some h'), w') \<Longrightarrow> batch_step h h'"
| range: "timelite_batches_next_range (Some h) rg recs cap cnt sq scratch m w = ((x, Some h'), w') \<Longrightarrow> batch_step h h'"

inductive batch_run :: "timelite_batches \<Rightarrow> timelite_batches \<Rightarrow> bool" where
  start: "batch_run h h"
| step: "batch_run h h' \<Longrightarrow> batch_step h' h'' \<Longrightarrow> batch_run h h''"

lemmas operations_in_bounds =
  init_in_bounds open_in_bounds close_in_bounds append_in_bounds checkpoint_in_bounds expire_in_bounds
  seek_in_bounds rewind_in_bounds next_in_bounds next_range_in_bounds

lemma step_in_bounds: "batch_step h h' \<Longrightarrow> handle_bounds h \<Longrightarrow> handle_bounds h'"
  by (induction rule: batch_step.induct) (rule operations_in_bounds; assumption)+

text \<open>An append to the empty store and the checkpoint that installs it: the handle, and its segment.\<close>

lemma sample_run:
  obtains h w s where "batch_run sample_handle h" "private_generation h = 1"
    "unat (private_data_end h) \<le> unat TIMELITE_DATABASE_CAPACITY"
    "read_segment (batch_file h False) 160 (private_data_end h) w = (Inr s, w)" "seg_previous s = 0" "seg_skip s = 0"
proof -
  obtain h w where a: "append_batch [sample_record] sample_handle (sample_os (replicate 160 0) (replicate 32 0)) = Some (h, w)"
    "script w = []" "store_view w h [] [[sample_record]]" "private_revision h = 0" "private_data_end h = 160"
    "private_end h = 116"
    by (rule sample_appended) blast
  obtain h' w' where c: "timelite_batches_checkpoint (Some h) (Some ()) TIMELITE_BATCH_SCRATCH w = ((None, Some h'), w')"
    "script w' = []"
    using checkpoint_live [OF a(2,3) sample_checkpoint_arguments [OF a(3-6)]] by blast
  let ?s = "new_segment h (skip_link [])"
  have v: "database_view w' h' [(?s, [[sample_record]])]"
    using checkpoint_in_store(2) [OF a(3) c(1)] by (simp add: store_view_def)
  note d = database_viewD [OF v]
  have "batch_step sample_handle h"
    using a(1) by (auto simp: append_batch_def split: prod.splits sum.splits option.splits
        intro: batch_step.append [where rs = "Some [sample_record]" and n = "length [sample_record]"])
  then have "batch_run sample_handle h'"
    by (rule batch_run.step [OF batch_run.step [OF batch_run.start] batch_step.checkpoint [OF c(1)]])
  moreover have "private_generation h' = 1" using d(6) by (simp add: word_unat_eq_iff)
  moreover have "read_segment (batch_file h' False) 160 (private_data_end h') w' = (Inr ?s, w')"
    using answers_quiet [OF read_segment_answers [OF chain_in_view [OF v], of 1] c(2)]
    by (simp add: seg_offset_def)
  moreover have "seg_header_size ?s = 64" by (simp add: new_segment_def)
  ultimately show thesis
    using d(3,5) by (intro that [of h' w' ?s]) (simp_all add: links_ok_def seg_offset_def low_bit_def)
qed

section \<open>The claims\<close>

text \<open>
  C9. The bounds of a handle hold through every run of the ten operations that change it, in any order, with
  any arguments, whether they succeed or fail, and whatever happens to the files between two of them: the
  end of the WAL is that of an empty WAL or of one with at least one batch and within its capacity,
  and the data area is within its capacity and has room for the segments counted.  Recovery, the install of
  a segment and the three phases of retention each compute these fields from what they read or copied.
\<close>

theorem handle_stays_in_bounds:
  assumes "batch_run h h'" "handle_bounds h \<or> timelite_batches_init db = (e, Some h)"
  shows "handle_bounds h'"
  using assms
proof (induction rule: batch_run.induct)
  case (start h)
  then show ?case using init_in_bounds by blast
next
  case (step h h' h'')
  then show ?case using step_in_bounds by blast
qed

text \<open>From the handle of an empty store: an append, and the checkpoint that installs it.\<close>

theorem handle_stays_in_bounds_witness:
  "\<exists>h. batch_run sample_handle h \<and> private_generation h = 1 \<and> handle_bounds h"
proof -
  obtain h w s where r: "batch_run sample_handle h" "private_generation h = 1"
    by (rule sample_run)
  have "handle_bounds sample_handle" by (simp add: handle_bounds_def)
  with handle_stays_in_bounds [OF r(1)] r show ?thesis by blast
qed

text \<open>
  C10. The loops that validate the chain and that copy it for retention stay inside their array of 24
  skip links: over a data area no larger than the capacity their result, errors included, is the same
  whatever memory stands behind the array, and that memory is unchanged.  A segment takes at least
  116 bytes, so that the ordinal whose lowest bit selects the link is below \<open>2 ^ 24\<close>.
\<close>

theorem links_in_array:
  fixes destination :: u64
  assumes "unat end \<le> unat root + unat TIMELITE_DATABASE_CAPACITY"
  defines "copy \<equiv> \<lparr>cp_destination = destination, cp_previous = 0, cp_count = 0, cp_offsets = replicate 24 0\<rparr>"
  shows "check_links file end enabled generation 1 (chain_behind memory (chain_start root)) w =
      apfst (map_sum (\<lambda>e. e) (chain_behind memory))
        (check_links file end enabled generation 1 (chain_start root) w) \<and>
    copy_loop file end filtering cutoff root (copying_behind memory copy) w =
      apfst (map_sum (\<lambda>e. e) (copying_behind memory)) (copy_loop file end filtering cutoff root copy w)"
  using assms(1)
  by (intro conjI check_links_behind copy_loop_behind) (simp_all add: copy_def chain_start_def)

text \<open>The validation of a database with one installed segment, whose link is checked.\<close>

theorem links_in_array_witness:
  "\<exists>f end w c. check_links f end True 1 1 (chain_behind [7] (chain_start 160)) w = (Inr (chain_behind [7] c), w) \<and>
     ch_previous c = 160 \<and> ch_segment c \<noteq> None"
proof -
  obtain h w s where a: "unat (private_data_end h) \<le> unat TIMELITE_DATABASE_CAPACITY"
    "read_segment (batch_file h False) 160 (private_data_end h) w = (Inr s, w)" "seg_previous s = 0" "seg_skip s = 0"
    by (rule sample_run)
  let ?links = "check_links (batch_file h False) (private_data_end h) True 1 1"
  have "\<not> seg_first s \<le> 0" using read_segment_InrD(6) [OF a(2)] by simp
  moreover have "link_bit 1 < 24" by (rule link_bit_bound) simp_all
  ultimately obtain c where c: "check_link True 1 s (chain_start 160) = Inr c" "ch_previous c = 160" "ch_segment c = Some s"
    using a(3,4) by (simp add: check_link_def chain_start_def)
  have "?links (chain_start 160) w = (Inr c, w)"
    using a(2) c(1) by (simp add: check_links.simps [of _ _ _ 1 1] check_links.simps [of _ _ _ 1 2] chain_start_def word_le_nat_alt)
  with links_in_array [of "private_data_end h" 160 "batch_file h False" True 1 "[7]" w] a(1)
  have "?links (chain_behind [7] (chain_start 160)) w = (Inr (chain_behind [7] c), w)" by simp
  with c show ?thesis by blast
qed

end
