(* ===== verification/TL_InspectParse.thy ===== *)
theory TL_InspectParse
  imports TL_Installed
begin

text \<open>
  The lower half of \<open>tools/inspect/inspect.c\<close>: the tool's own copies of the format primitives, its reads
  over standard I/O, and the parser of each structure on disk.  The tool shares no code with the library;
  the lemmas here show that each parser accepts exactly what the library's reader of the same structure
  accepts, and finds the same fields.
\<close>

section \<open>Sources\<close>

text \<open>
  A source is a stream over the bytes of a file.  Its error indicator is sticky, as \<open>fseek\<close> does not
  clear it; \<open>src_faults\<close> decides the outcome of each positioned read, which succeeds once the list is empty.
\<close>

datatype stdio = Stdio_ok | Seek_fails | Read_fails

record inspect_source =
  src_bytes :: bytes
  src_size :: u64
  src_ferror :: bool
  src_faults :: "stdio list"

abbreviation LONG_MAX :: u64 where "LONG_MAX \<equiv> 0x7FFFFFFFFFFFFFFF"

text \<open>\<open>None\<close> stands for the result \<open>-1\<close>; otherwise the bytes read, short at the end of the file.\<close>

definition inspect_read :: "inspect_source \<Rightarrow> u64 \<Rightarrow> nat \<Rightarrow> bytes option \<times> inspect_source" where
  "inspect_read source offset len =
     (if offset \<ge> src_size source \<or> offset > LONG_MAX then (Some [], source)
      else
        (let outcome = (case src_faults source of [] \<Rightarrow> Stdio_ok | oc # _ \<Rightarrow> oc);
             source = source\<lparr>src_faults := tl (src_faults source)\<rparr>;
             got = block (unat offset) len (src_bytes source)
         in if outcome = Seek_fails then (None, source)
            else if outcome = Read_fails then (None, source\<lparr>src_ferror := True\<rparr>)
            else if length got \<noteq> len \<and> src_ferror source then (None, source)
            else (Some got, source)))"

section \<open>Format primitives\<close>

definition inspect_decode32 :: "bytes \<Rightarrow> u32" where
  "inspect_decode32 p = foldl (\<lambda>value i. value OR push_bit (8 * i) (ucast (p ! i))) 0 [0..<4]"

definition inspect_decode64 :: "bytes \<Rightarrow> u64" where
  "inspect_decode64 p = foldl (\<lambda>value i. value OR push_bit (8 * i) (ucast (p ! i))) 0 [0..<8]"

definition inspect_checksum :: "bytes \<Rightarrow> nat \<Rightarrow> u32" where
  "inspect_checksum p len =
     NOT (foldl (\<lambda>crc b. foldl (\<lambda>crc _. drop_bit 1 crc XOR (if crc AND 1 \<noteq> 0 then 0xedb88320 else 0))
                            (crc XOR ucast b) [0..<8])
            0xffffffff (take len p))"

definition inspect_low_bit :: "u64 \<Rightarrow> u64" where
  "inspect_low_bit n = n AND (NOT n + 1)"

text \<open>\<open>for (bit = 0; bit < 23 && (UINT64_C(1) << bit) != inspect_low_bit(n); bit++)\<close>\<close>

definition inspect_bit :: "u64 \<Rightarrow> nat" where
  "inspect_bit n = length (takeWhile (\<lambda>b. push_bit b 1 \<noteq> inspect_low_bit n) [0..<23])"

section \<open>Manifest slots\<close>

record inspect_slot =
  sl_present :: bool
  sl_well_formed :: bool
  sl_valid :: bool
  sl_retention :: bool
  sl_has_time :: bool
  sl_revision :: u64
  sl_data_end :: u64
  sl_last :: u64
  sl_last_time :: u64
  sl_tail :: u64
  sl_root :: u64
  sl_count :: u64
  sl_phase :: u32
  sl_marker :: u32
  sl_kind :: string
  sl_reason :: string

definition slot_zero :: inspect_slot where
  "slot_zero =
     \<lparr>sl_present = False, sl_well_formed = False, sl_valid = False, sl_retention = False,
      sl_has_time = False, sl_revision = 0, sl_data_end = 0, sl_last = 0, sl_last_time = 0, sl_tail = 0,
      sl_root = 0, sl_count = 0, sl_phase = 0, sl_marker = 0, sl_kind = '''', sl_reason = ''''\<rparr>"

text \<open>The branch for \<open>TLRETAIN\<close> and the branch for \<open>TLINSTAL\<close> of \<open>inspect_slot_parse\<close>.\<close>

definition inspect_retention_slot :: "bytes \<Rightarrow> u64 \<Rightarrow> inspect_slot \<Rightarrow> inspect_slot" where
  "inspect_retention_slot m file_size slot =
     (let slot = slot\<lparr>sl_kind := ''TLRETAIN'', sl_retention := True, sl_has_time := True,
                      sl_tail := ucast (inspect_decode32 (drop 40 m)),
                      sl_root := ucast (inspect_decode32 (drop 44 m)),
                      sl_count := ucast (inspect_decode32 (drop 52 m)),
                      sl_phase := inspect_decode32 (drop 56 m)\<rparr>
      in if inspect_checksum m 60 \<noteq> inspect_decode32 (drop 60 m) then slot\<lparr>sl_reason := ''checksum mismatch''\<rparr>
         else if sl_marker slot \<noteq> 10 then slot\<lparr>sl_reason := ''format marker is not 10''\<rparr>
         else
           (let slot = slot\<lparr>sl_well_formed := True\<rparr>
            in if sl_revision slot = 0 \<or> sl_phase slot > 3
               then slot\<lparr>sl_reason := ''revision 0 or phase above 3''\<rparr>
               else if sl_root slot < 160 \<or> sl_root slot > sl_data_end slot \<or> sl_data_end slot > file_size \<or>
                       sl_data_end slot > TIMELITE_DATABASE_CAPACITY
               then slot\<lparr>sl_reason := ''root or data_end outside the file or capacity''\<rparr>
               else if sl_count slot > (sl_data_end slot - sl_root slot) div 116 \<or> sl_count slot > sl_last slot
               then slot\<lparr>sl_reason := ''segment count exceeds the extent or the sequence high-water''\<rparr>
               else if (if sl_count slot \<noteq> 0
                        then \<not> (sl_tail slot \<ge> sl_root slot \<and> sl_tail slot < sl_data_end slot)
                        else \<not> (sl_tail slot = 0 \<and> sl_root slot = sl_data_end slot))
               then slot\<lparr>sl_reason := ''last segment offset disagrees with the count''\<rparr>
               else if (if sl_phase slot = 2 then sl_data_end slot - sl_root slot > sl_root slot - 160
                        else sl_root slot \<noteq> 160)
               then slot\<lparr>sl_reason := ''root disagrees with the phase''\<rparr>
               else slot\<lparr>sl_valid := True\<rparr>))"

definition inspect_install_slot :: "bytes \<Rightarrow> u64 \<Rightarrow> inspect_slot \<Rightarrow> inspect_slot" where
  "inspect_install_slot m file_size slot =
     (let slot = slot\<lparr>sl_kind := ''TLINSTAL'', sl_count := sl_revision slot,
                      sl_tail := inspect_decode64 (drop 40 m), sl_root := 160,
                      sl_has_time := (sl_marker slot = 7)\<rparr>
      in if block 32 28 m \<noteq> replicate 28 0 \<and>
            (sl_marker slot \<noteq> 7 \<or> block 52 8 m \<noteq> replicate 8 0 \<or> sl_revision slot = 0)
         then slot\<lparr>sl_reason := ''reserved bytes are not zero''\<rparr>
         else if inspect_checksum m 60 \<noteq> inspect_decode32 (drop 60 m)
         then slot\<lparr>sl_reason := ''checksum mismatch''\<rparr>
         else
           (let slot = slot\<lparr>sl_well_formed := True\<rparr>
            in if sl_data_end slot < 160 \<or> sl_data_end slot > TIMELITE_DATABASE_CAPACITY \<or> sl_data_end slot > file_size
               then slot\<lparr>sl_reason := ''data_end outside the file or capacity''\<rparr>
               else if (if sl_revision slot = 0 then sl_data_end slot \<noteq> 160 \<or> sl_last slot \<noteq> 0
                        else sl_revision slot > (TIMELITE_DATABASE_CAPACITY - 160) div 116 \<or>
                             sl_last slot < sl_revision slot \<or>
                             sl_data_end slot < 160 + sl_revision slot * 116)
               then slot\<lparr>sl_reason := ''generation disagrees with data_end or the last sequence''\<rparr>
               else slot\<lparr>sl_valid := True\<rparr>))"

definition inspect_slot_parse :: "bytes \<Rightarrow> u64 \<Rightarrow> inspect_slot" where
  "inspect_slot_parse m file_size =
     (let slot = slot_zero\<lparr>sl_present := (take 64 m \<noteq> replicate 64 0), sl_kind := ''unknown''\<rparr>
      in if \<not> sl_present slot then slot\<lparr>sl_reason := ''empty''\<rparr>
         else
           (let slot = slot\<lparr>sl_revision := inspect_decode64 (drop 8 m),
                            sl_data_end := inspect_decode64 (drop 16 m),
                            sl_last := inspect_decode64 (drop 24 m),
                            sl_last_time := inspect_decode64 (drop 32 m),
                            sl_marker := inspect_decode32 (drop 48 m)\<rparr>
            in if has_magic m ''TLRETAIN'' then inspect_retention_slot m file_size slot
               else if \<not> has_magic m ''TLINSTAL'' then slot\<lparr>sl_reason := ''unknown magic''\<rparr>
               else inspect_install_slot m file_size slot))"

section \<open>Segment headers\<close>

record inspect_segment =
  sg_first :: u64
  sg_last :: u64
  sg_minimum :: u64
  sg_maximum :: u64
  sg_previous :: u64
  sg_skip :: u64
  sg_body :: u32
  sg_header_size :: nat
  sg_ordered :: bool
  sg_kind :: string
  sg_reason :: string

definition segment_zero :: inspect_segment where
  "segment_zero =
     \<lparr>sg_first = 0, sg_last = 0, sg_minimum = 0, sg_maximum = 0, sg_previous = 0, sg_skip = 0,
      sg_body = 0, sg_header_size = 0, sg_ordered = False, sg_kind = '''', sg_reason = ''''\<rparr>"

text \<open>The fields of a header whose magic and length are known; the flag is the result of the parser.\<close>

definition inspect_segment_fields ::
  "bytes \<Rightarrow> u64 \<Rightarrow> u64 \<Rightarrow> inspect_segment \<Rightarrow> bool \<times> inspect_segment" where
  "inspect_segment_fields header offset end segment =
     (if inspect_checksum header (sg_header_size segment - 4) \<noteq>
         inspect_decode32 (drop (sg_header_size segment - 4) header)
      then (False, segment\<lparr>sg_reason := ''segment header checksum mismatch''\<rparr>)
      else
        (let segment = segment\<lparr>sg_first := inspect_decode64 (drop 8 header),
                               sg_last := inspect_decode64 (drop 16 header),
                               sg_body := inspect_decode32 (drop 24 header)\<rparr>;
             frames = sg_last segment - sg_first segment + 1
         in if sg_first segment = 0 \<or> sg_last segment < sg_first segment \<or>
               ucast (sg_body segment) > TIMELITE_WAL_CAPACITY - 32 \<or>
               ucast (sg_body segment) > end - offset - of_nat (sg_header_size segment)
            then (False, segment\<lparr>sg_reason := ''segment sequences or body length out of range''\<rparr>)
            else if frames > ucast (sg_body segment div 84) \<or>
                    ucast (sg_body segment) > frames * of_nat TIMELITE_BATCH_SCRATCH
            then (False, segment\<lparr>sg_reason := ''frame count disagrees with body length''\<rparr>)
            else
              (let segment = segment\<lparr>sg_minimum := 0, sg_maximum := UINT64_MAX\<rparr>
               in if sg_header_size segment = 64 then
                    (let segment = segment\<lparr>sg_minimum := inspect_decode64 (drop 28 header),
                                           sg_maximum := inspect_decode64 (drop 36 header),
                                           sg_previous := inspect_decode64 (drop 44 header),
                                           sg_skip := inspect_decode64 (drop 52 header)\<rparr>
                     in if sg_minimum segment > sg_maximum segment \<or>
                           (sg_previous segment \<noteq> 0 \<and> (sg_previous segment < 160 \<or> sg_previous segment \<ge> offset)) \<or>
                           (sg_skip segment \<noteq> 0 \<and> (sg_skip segment < 160 \<or> sg_skip segment \<ge> offset))
                        then (False, segment\<lparr>sg_reason := ''span or backward links out of range''\<rparr>)
                        else (True, segment))
                  else (True, segment))))"

definition inspect_segment_parse ::
  "inspect_source \<Rightarrow> u64 \<Rightarrow> u64 \<Rightarrow> (bool \<times> inspect_segment) \<times> inspect_source" where
  "inspect_segment_parse source offset end =
     (if offset > end \<or> end - offset < 32
      then ((False, segment_zero\<lparr>sg_reason := ''no room for a segment header before data_end''\<rparr>), source)
      else
        (case inspect_read source offset 64 of
           (None, source) \<Rightarrow> ((False, segment_zero\<lparr>sg_reason := ''read error''\<rparr>), source)
         | (Some header, source) \<Rightarrow>
             if length header < 32
             then ((False, segment_zero\<lparr>sg_reason := ''segment header cut short''\<rparr>), source)
             else
               (let found = (if has_magic header ''TLSPAN07''
                             then Some (segment_zero\<lparr>sg_kind := ''TLSPAN07'', sg_ordered := True, sg_header_size := 64\<rparr>)
                             else if has_magic header ''TLUNOR07''
                             then Some (segment_zero\<lparr>sg_kind := ''TLUNOR07'', sg_header_size := 64\<rparr>)
                             else if has_magic header ''TLSEGMNT''
                             then Some (segment_zero\<lparr>sg_kind := ''TLSEGMNT'', sg_header_size := 32\<rparr>)
                             else None)
                in case found of
                     None \<Rightarrow> ((False, segment_zero\<lparr>sg_reason := ''unknown segment magic''\<rparr>), source)
                   | Some segment \<Rightarrow>
                       if sg_header_size segment = 64 \<and> (end - offset < 64 \<or> length header < 64)
                       then ((False, segment\<lparr>sg_reason := ''64-byte segment header cut short''\<rparr>), source)
                       else (inspect_segment_fields header offset end segment, source))))"

section \<open>Frames\<close>

record inspect_frame =
  fr_length :: nat
  fr_records :: nat
  fr_first_time :: u64
  fr_last_time :: u64
  fr_minimum :: u64
  fr_maximum :: u64
  fr_ordered :: bool
  fr_reason :: string

definition frame_zero :: inspect_frame where
  "frame_zero =
     \<lparr>fr_length = 0, fr_records = 0, fr_first_time = 0, fr_last_time = 0, fr_minimum = 0, fr_maximum = 0,
      fr_ordered = True, fr_reason = ''''\<rparr>"

text \<open>The body of the loop over the records of a frame.\<close>

definition inspect_frame_record :: "bytes \<Rightarrow> inspect_frame \<Rightarrow> nat \<Rightarrow> inspect_frame" where
  "inspect_frame_record bytes frame i =
     (let time = inspect_decode64 (drop (32 + i * 20 + 4) bytes);
          frame = (if i = 0 then frame\<lparr>fr_first_time := time, fr_minimum := time, fr_maximum := time\<rparr>
                   else if time < fr_last_time frame then frame\<lparr>fr_ordered := False\<rparr> else frame);
          frame = (if time < fr_minimum frame then frame\<lparr>fr_minimum := time\<rparr> else frame);
          frame = (if time > fr_maximum frame then frame\<lparr>fr_maximum := time\<rparr> else frame)
      in frame\<lparr>fr_last_time := time\<rparr>)"

text \<open>The result code is \<open>None\<close> for 0; the reason of a failure is in the frame.\<close>

definition inspect_frame_parse ::
  "inspect_source \<Rightarrow> u64 \<Rightarrow> u64 \<Rightarrow> u64 \<Rightarrow> (error option \<times> inspect_frame) \<times> inspect_source" where
  "inspect_frame_parse source offset end sequence =
     (let fail = (\<lambda>e reason source. ((Some e, frame_zero\<lparr>fr_reason := reason\<rparr>), source))
      in if end - offset < 32
         then fail INVALID_DATABASE ''fewer than 32 bytes remain for a frame header'' source
         else
           (case inspect_read source offset 32 of
              (None, source) \<Rightarrow> fail EIO ''read error'' source
            | (Some header, source) \<Rightarrow>
                if length header < 32 then fail INVALID_DATABASE ''frame header cut short'' source
                else
                  (let count = inspect_decode32 (drop 16 header);
                       body_length = inspect_decode32 (drop 20 header);
                       total = unat body_length + 32
                   in if \<not> has_magic header ''TLBATCH!'' \<or> count = 0 \<or> count > of_nat TIMELITE_MAX_RECORDS \<or>
                         inspect_decode32 (drop 20 header) \<noteq> 32 + count * 20 \<or>
                         inspect_decode32 (drop 24 header) \<noteq> 0 \<or>
                         inspect_checksum header 28 \<noteq> inspect_decode32 (drop 28 header)
                      then fail INVALID_DATABASE ''frame header invalid'' source
                      else if inspect_decode64 (drop 8 header) \<noteq> sequence
                      then fail INVALID_DATABASE ''frame sequence is not the expected next sequence'' source
                      else if of_nat total > end - offset
                      then fail END ''validated header, but the frame ends past the available bytes'' source
                      else
                        (case inspect_read source (offset + 32) (total - 32) of
                           (None, source) \<Rightarrow> fail EIO ''read error'' source
                         | (Some rest, source) \<Rightarrow>
                             if length rest \<noteq> total - 32
                             then fail INVALID_DATABASE ''frame body cut short'' source
                             else
                               (let bytes = header @ rest; commit = drop (unat body_length) bytes
                                in if \<not> has_magic commit ''TLCOMMIT'' \<or>
                                      inspect_decode64 (drop 8 commit) \<noteq> sequence \<or>
                                      inspect_decode32 (drop 16 commit) \<noteq> count \<or>
                                      inspect_decode32 (drop 20 commit) \<noteq> body_length \<or>
                                      inspect_decode32 (drop 28 commit) \<noteq> inspect_checksum commit 28
                                   then fail INVALID_DATABASE ''commit record invalid'' source
                                   else if inspect_decode32 (drop 24 commit) \<noteq> inspect_checksum bytes (unat body_length)
                                   then fail INVALID_DATABASE ''body checksum mismatch'' source
                                   else ((None, foldl (inspect_frame_record bytes)
                                                  (frame_zero\<lparr>fr_length := total, fr_records := unat count\<rparr>)
                                                  [0..<unat count]), source))))))"

section \<open>The primitives are the library's\<close>

lemma inspect_decode [simp]: "inspect_decode32 = decode32" "inspect_decode64 = decode64"
  by (simp_all add: fun_eq_iff inspect_decode32_def decode32_def inspect_decode64_def decode64_def)

lemma foldl_const: "foldl (\<lambda>x _. f x) a [0..<n] = (f ^^ n) a"
  by (induction n) simp_all

lemma inspect_checksum [simp]: "inspect_checksum = checksum"
proof -
  have "foldl (\<lambda>crc _. drop_bit 1 crc XOR (if crc AND 1 \<noteq> 0 then 0xedb88320 else 0)) (crc XOR ucast b) [0..<8] =
      crc_byte crc b" for crc b
    by (simp only: foldl_const crc_byte_def crc_bit_def [abs_def])
  then show ?thesis by (simp only: fun_eq_iff inspect_checksum_def checksum_def) simp
qed

lemma inspect_bit:
  assumes "n \<noteq> 0" "unat n < 2 ^ 24"
  shows "inspect_bit n = link_bit n" "link_bit n < 24"
proof -
  have "(2 :: nat) ^ link_bit n < 2 ^ 24" using low_bit_props(5) [OF assms(1)] assms(2) by (rule le_less_trans)
  then show b: "link_bit n < 24" by (rule power_less_imp_less_exp [rotated]) simp
  let ?P = "\<lambda>b. push_bit b 1 \<noteq> low_bit n"
  have "low_bit n = push_bit (link_bit n) 1" using low_bit_props(3) [OF assms(1)] by simp
  then have eq: "?P j \<longleftrightarrow> j \<noteq> link_bit n" for j
    using power_of_two_eq [of "link_bit n" j] b by (simp add: push_bit_eq_mult)
  have "[0..<23] = [0..<link_bit n] @ [link_bit n..<23]" using b upt_add_eq_append [of 0 "link_bit n" "23 - link_bit n"] by simp
  moreover have "takeWhile ?P [link_bit n..<23] = []"
    using eq by (cases "link_bit n < 23") (simp_all add: upt_conv_Cons)
  moreover have "takeWhile ?P ([0..<link_bit n] @ [link_bit n..<23]) = [0..<link_bit n] @ takeWhile ?P [link_bit n..<23]"
    using eq by (intro takeWhile_append2) simp
  ultimately have "takeWhile ?P [0..<23] = [0..<link_bit n]" by simp
  then show "inspect_bit n = link_bit n"
    by (simp add: inspect_bit_def inspect_low_bit_def low_bit_def)
qed

section \<open>Reads without faults\<close>

definition sound_source :: "inspect_source \<Rightarrow> bool" where
  "sound_source s \<longleftrightarrow> src_faults s = [] \<and> \<not> src_ferror s \<and> length (src_bytes s) < 2 ^ 63 \<and>
     src_size s = of_nat (length (src_bytes s))"

lemma inspect_read_sound:
  assumes "sound_source s"
  shows "inspect_read s off n = (Some (block (unat off) n (src_bytes s)), s)"
proof -
  have z: "unat (src_size s) = length (src_bytes s)" "length (src_bytes s) < 2 ^ 63"
    using assms by (simp_all add: sound_source_def u64_of_nat)
  show ?thesis
  proof (cases "off \<ge> src_size s \<or> off > LONG_MAX")
    case True
    then have "length (src_bytes s) \<le> unat off" using z by (auto simp: word_le_nat_alt word_less_nat_alt)
    then have "block (unat off) n (src_bytes s) = []" by (simp add: block_def)
    then show ?thesis using True by (auto simp: inspect_read_def)
  next
    case False
    have "s\<lparr>src_faults := []\<rparr> = s" using assms by (simp add: sound_source_def)
    then show ?thesis using False assms by (simp add: inspect_read_def Let_def sound_source_def)
  qed
qed

section \<open>Manifest slots against the library\<close>

lemma slot_zero_simps [simp]:
  "sl_valid slot_zero = False" "sl_retention slot_zero = False" "sl_phase slot_zero = 0"
  by (simp_all add: slot_zero_def)

text \<open>An empty slot has neither magic.\<close>

lemma magic_absent:
  assumes "take 64 m = replicate 64 0"
  shows "\<not> has_magic m ''TLRETAIN''" "\<not> has_magic m ''TLINSTAL''"
proof -
  have "take 8 (take 64 m) = take 8 (replicate 64 (0 :: byte))" by (simp only: assms)
  then have "hd (take 8 m) = 0" by simp
  then show "\<not> has_magic m ''TLRETAIN''" "\<not> has_magic m ''TLINSTAL''"
    by (cases m; auto simp add: has_magic_def ascii_def)+
qed

lemma magic_distinct: "has_magic m ''TLRETAIN'' \<Longrightarrow> \<not> has_magic m ''TLINSTAL''"
  by (simp add: has_magic_def ascii_def)

text \<open>A cascade of rejecting tests is a conjunction.\<close>

lemma guard_cascade:
  "(if c then False else P) \<longleftrightarrow> \<not> c \<and> P" "\<not> (if c then P else Q) \<longleftrightarrow> (if c then \<not> P else \<not> Q)"
  "\<not> (P \<or> Q) \<longleftrightarrow> \<not> P \<and> \<not> Q" "\<not> (P \<and> Q) \<longleftrightarrow> \<not> P \<or> \<not> Q"
  by simp_all

lemma retention_slot_valid:
  assumes "has_magic m ''TLRETAIN''" "\<not> sl_valid slot"
    and "sl_revision slot = decode64 (drop 8 m)" "sl_data_end slot = decode64 (drop 16 m)"
    and "sl_last slot = decode64 (drop 24 m)" "sl_marker slot = decode32 (drop 48 m)"
  shows "sl_valid (inspect_retention_slot m z slot) \<longleftrightarrow> retention_manifest m z"
proof -
  have if_valid: "sl_valid (if c then x else y) \<longleftrightarrow> (if c then sl_valid x else sl_valid y)" for c x y by simp
  show ?thesis
    using assms
    by (cases slot) (simp only: inspect_retention_slot_def retention_manifest_def Let_def if_valid
        inspect_slot.select_convs inspect_slot.update_convs inspect_decode inspect_checksum
        guard_cascade not_less not_le not_not conj_assoc simp_thms)
qed

lemma install_slot_valid:
  assumes "has_magic m ''TLINSTAL''" "\<not> sl_valid slot"
    and "sl_revision slot = decode64 (drop 8 m)" "sl_data_end slot = decode64 (drop 16 m)"
    and "sl_last slot = decode64 (drop 24 m)" "sl_marker slot = decode32 (drop 48 m)"
  shows "sl_valid (inspect_install_slot m z slot) \<longleftrightarrow> check_manifest m z \<noteq> None"
  using assms by (simp add: inspect_install_slot_def check_manifest_def Let_def)

lemma retention_slot_fields [simp]:
  "sl_retention (inspect_retention_slot m z slot)" "sl_has_time (inspect_retention_slot m z slot)"
  "sl_present (inspect_retention_slot m z slot) = sl_present slot"
  "sl_revision (inspect_retention_slot m z slot) = sl_revision slot"
  "sl_data_end (inspect_retention_slot m z slot) = sl_data_end slot"
  "sl_last (inspect_retention_slot m z slot) = sl_last slot"
  "sl_last_time (inspect_retention_slot m z slot) = sl_last_time slot"
  "sl_tail (inspect_retention_slot m z slot) = ucast (decode32 (drop 40 m))"
  "sl_root (inspect_retention_slot m z slot) = ucast (decode32 (drop 44 m))"
  "sl_count (inspect_retention_slot m z slot) = ucast (decode32 (drop 52 m))"
  "sl_phase (inspect_retention_slot m z slot) = decode32 (drop 56 m)"
  by (simp_all add: inspect_retention_slot_def Let_def)

lemma install_slot_fields [simp]:
  "sl_retention (inspect_install_slot m z slot) = sl_retention slot"
  "sl_has_time (inspect_install_slot m z slot) \<longleftrightarrow> sl_marker slot = 7"
  "sl_present (inspect_install_slot m z slot) = sl_present slot"
  "sl_revision (inspect_install_slot m z slot) = sl_revision slot"
  "sl_data_end (inspect_install_slot m z slot) = sl_data_end slot"
  "sl_last (inspect_install_slot m z slot) = sl_last slot"
  "sl_last_time (inspect_install_slot m z slot) = sl_last_time slot"
  "sl_tail (inspect_install_slot m z slot) = decode64 (drop 40 m)"
  "sl_root (inspect_install_slot m z slot) = 160"
  "sl_count (inspect_install_slot m z slot) = sl_revision slot"
  "sl_phase (inspect_install_slot m z slot) = sl_phase slot"
  by (simp_all add: inspect_install_slot_def Let_def)

text \<open>What the library takes from a slot it accepts, read off the tool's slot.\<close>

definition slot_view :: "inspect_slot \<Rightarrow> manifest_view \<Rightarrow> manifest_view" where
  "slot_view s v =
     v\<lparr>mv_generation := sl_count s, mv_data_end := sl_data_end s, mv_last := sl_last s,
       mv_last_time := sl_last_time s, mv_tail := sl_tail s, mv_has_time := sl_has_time s,
       mv_state := \<lparr>rs_revision = sl_revision s, rs_root = sl_root s, rs_phase = sl_phase s,
                    rs_enabled = sl_retention s\<rparr>\<rparr>"

lemma slot_parse_valid:
  "sl_valid (inspect_slot_parse m z) \<longleftrightarrow> slot_fields m z \<noteq> None"
proof (cases "take 64 m = replicate 64 0")
  case True
  then show ?thesis
    using magic_absent [OF True]
    by (simp add: inspect_slot_parse_def slot_fields_def retention_manifest_def check_manifest_def Let_def)
next
  case False
  show ?thesis
  proof (cases "has_magic m ''TLRETAIN''")
    case True
    then show ?thesis
      using False retention_slot_valid [OF True] magic_distinct [OF True]
      by (simp add: inspect_slot_parse_def slot_fields_def check_manifest_def Let_def)
  next
    case no: False
    then have r: "\<not> retention_manifest m z" by (simp add: retention_manifest_def Let_def)
    show ?thesis
    proof (cases "has_magic m ''TLINSTAL''")
      case True
      then show ?thesis
        using False no r install_slot_valid [OF True]
        by (simp add: inspect_slot_parse_def slot_fields_def Let_def)
    next
      case none: False
      then show ?thesis using no r
        by (simp add: inspect_slot_parse_def slot_fields_def check_manifest_def Let_def)
    qed
  qed
qed

text \<open>The library's round over a slot it accepts, in terms of the tool's fields.\<close>

lemma slot_parse_fields:
  assumes "sl_valid (inspect_slot_parse m z)"
  defines "s \<equiv> inspect_slot_parse m z"
  shows "sl_present s" "sl_revision s = decode64 (drop 8 m)"
    "slot_fields m z = Some (sl_count s, sl_data_end s, sl_last s)"
    "sl_last_time s = decode64 (drop 32 m)" "sl_retention s = has_magic m ''TLRETAIN''"
    "sl_tail s = (if sl_retention s then ucast (decode32 (drop 40 m)) else decode64 (drop 40 m))"
    "sl_has_time s = (sl_retention s \<or> decode32 (drop 48 m) = 7)"
    "sl_root s = (if sl_retention s then ucast (decode32 (drop 44 m)) else 160)"
    "sl_phase s = (if sl_retention s then decode32 (drop 56 m) else 0)"
proof -
  have p: "take 64 m \<noteq> replicate 64 0" using assms by (auto simp: inspect_slot_parse_def)
  have i: "slot_fields m z \<noteq> None" using assms by (simp add: slot_parse_valid)
  have "sl_present s \<and> sl_revision s = decode64 (drop 8 m) \<and>
    slot_fields m z = Some (sl_count s, sl_data_end s, sl_last s) \<and>
    sl_last_time s = decode64 (drop 32 m) \<and> sl_retention s = has_magic m ''TLRETAIN'' \<and>
    sl_tail s = (if sl_retention s then ucast (decode32 (drop 40 m)) else decode64 (drop 40 m)) \<and>
    sl_has_time s = (sl_retention s \<or> decode32 (drop 48 m) = 7) \<and>
    sl_root s = (if sl_retention s then ucast (decode32 (drop 44 m)) else 160) \<and>
    sl_phase s = (if sl_retention s then decode32 (drop 56 m) else 0)"
  proof (cases "has_magic m ''TLRETAIN''")
    case True
    with i have "retention_manifest m z" using magic_distinct [OF True]
      by (auto simp: slot_fields_def check_manifest_def split: if_splits)
    then show ?thesis using True p by (simp add: s_def inspect_slot_parse_def slot_fields_def Let_def)
  next
    case False
    then have r: "\<not> retention_manifest m z" by (simp add: retention_manifest_def Let_def)
    with i obtain g d l where c: "check_manifest m z = Some (g, d, l)" by (auto simp: slot_fields_def)
    then have "has_magic m ''TLINSTAL''" "g = decode64 (drop 8 m)" "d = decode64 (drop 16 m)" "l = decode64 (drop 24 m)"
      by (auto simp: check_manifest_def Let_def split: if_splits)
    then show ?thesis using False p r c by (simp add: s_def inspect_slot_parse_def slot_fields_def Let_def)
  qed
  then show "sl_present s" "sl_revision s = decode64 (drop 8 m)"
    "slot_fields m z = Some (sl_count s, sl_data_end s, sl_last s)"
    "sl_last_time s = decode64 (drop 32 m)" "sl_retention s = has_magic m ''TLRETAIN''"
    "sl_tail s = (if sl_retention s then ucast (decode32 (drop 40 m)) else decode64 (drop 40 m))"
    "sl_has_time s = (sl_retention s \<or> decode32 (drop 48 m) = 7)"
    "sl_root s = (if sl_retention s then ucast (decode32 (drop 44 m)) else 160)"
    "sl_phase s = (if sl_retention s then decode32 (drop 56 m) else 0)" by blast+
qed

section \<open>Segments against the library\<close>

definition segment_view :: "inspect_segment \<Rightarrow> segment_info" where
  "segment_view s =
     \<lparr>seg_first = sg_first s, seg_last = sg_last s, seg_minimum = sg_minimum s, seg_maximum = sg_maximum s,
      seg_previous = sg_previous s, seg_skip = sg_skip s, seg_body = sg_body s,
      seg_header_size = sg_header_size s, seg_ordered = sg_ordered s\<rparr>"

lemma segment_view_simps [simp]:
  "seg_first (segment_view s) = sg_first s" "seg_last (segment_view s) = sg_last s"
  "seg_minimum (segment_view s) = sg_minimum s" "seg_maximum (segment_view s) = sg_maximum s"
  "seg_previous (segment_view s) = sg_previous s" "seg_skip (segment_view s) = sg_skip s"
  "seg_body (segment_view s) = sg_body s" "seg_header_size (segment_view s) = sg_header_size s"
  "seg_ordered (segment_view s) = sg_ordered s"
  by (simp_all add: segment_view_def)

text \<open>A result of the tool and a result of the library about the same header.\<close>

definition same_segment :: "bool \<times> inspect_segment \<Rightarrow> error + segment_info \<Rightarrow> bool" where
  "same_segment r l \<longleftrightarrow> (case r of (valid, s) \<Rightarrow> l = (if valid then Inr (segment_view s) else Inl INVALID_DATABASE))"

lemma same_segment_guard:
  "(\<not> c \<Longrightarrow> same_segment r l) \<Longrightarrow>
     same_segment (if c then (False, x) else r) (if c then Inl INVALID_DATABASE else l)"
  by (simp add: same_segment_def)

lemma same_segment_if:
  "(c \<Longrightarrow> same_segment r l) \<Longrightarrow> (\<not> c \<Longrightarrow> same_segment r' l') \<Longrightarrow>
     same_segment (if c then r else r') (if c then l else l')"
  by simp

lemma segment_fields_same:
  assumes "sg_header_size s = hs" "sg_ordered s = ord" "sg_previous s = 0" "sg_skip s = 0"
  shows "same_segment (inspect_segment_fields h off end s) (parse_segment h hs ord off end)"
  using assms
  by (cases s, simp only: inspect_segment_fields_def parse_segment_def Let_def inspect_segment.select_convs
      inspect_segment.update_convs inspect_decode inspect_checksum)
    (intro same_segment_guard same_segment_if, simp_all add: same_segment_def segment_view_def)

lemma parse_segment_take:
  "parse_segment (take 32 h) 32 ord off end = parse_segment h 32 ord off end"
proof -
  have d: "decode64 (drop i (take 32 h)) = decode64 (drop i h)" if "i + 8 \<le> 32" for i
    using u64_codec.dec_block [of "32 - i" i h] that by (simp add: block_def drop_take)
  have e: "decode32 (drop i (take 32 h)) = decode32 (drop i h)" if "i + 4 \<le> 32" for i
    using u32_codec.dec_block [of "32 - i" i h] that by (simp add: block_def drop_take)
  have "checksum (take 32 h) 28 = checksum h 28" by (simp add: checksum_def)
  then show ?thesis by (simp add: parse_segment_def d e Let_def)
qed

lemma has_magic_take: "8 \<le> n \<Longrightarrow> has_magic (take n p) m = has_magic p m"
  by (simp add: has_magic_def min_def)

lemma segment_parse_same:
  assumes "sound_source src"
  obtains r where "inspect_segment_parse src off end = (r, src)"
    "same_segment r (decode_segment (src_bytes src) off end)"
proof (cases "off > end \<or> end - off < 32")
  case True
  then show thesis
    by (intro that [of "(False, segment_zero\<lparr>sg_reason := ''no room for a segment header before data_end''\<rparr>)"])
      (auto simp: inspect_segment_parse_def same_segment_def decode_segment_def Let_def)
next
  case room: False
  let ?D = "src_bytes src" and ?h = "block (unat off) 64 (src_bytes src)"
  note read = inspect_read_sound [OF assms, of off 64]
  have t: "block (unat off) 32 ?D = take 32 ?h" by (simp add: block_def)
  have l: "length ?h < 32 \<longleftrightarrow> length ?D < unat off + 32" "length ?h < 64 \<longleftrightarrow> length ?D < unat off + 64"
    by (auto simp: length_block)
  define r where "r = fst (inspect_segment_parse src off end)"
  have p: "inspect_segment_parse src off end = (r, src)"
    using room read by (auto simp: r_def inspect_segment_parse_def Let_def split: option.splits if_splits)
  have zero: "sg_previous segment_zero = 0" "sg_skip segment_zero = 0" "\<not> sg_ordered segment_zero"
    by (simp_all add: segment_zero_def)
  have lib: "decode_segment ?D off end =
    (if length ?h < 32 then Inl INVALID_DATABASE
     else if has_magic ?h ''TLSPAN07'' \<or> has_magic ?h ''TLUNOR07'' then
       (if end - off < 64 \<or> length ?h < 64 then Inl INVALID_DATABASE
        else parse_segment ?h 64 (has_magic ?h ''TLSPAN07'') off end)
     else if \<not> has_magic ?h ''TLSEGMNT'' then Inl INVALID_DATABASE
     else parse_segment ?h 32 (has_magic ?h ''TLSPAN07'') off end)"
    using room unfolding decode_segment_def Let_def l t by (simp add: has_magic_take parse_segment_take)
  have "same_segment r (decode_segment ?D off end)"
    unfolding r_def lib inspect_segment_parse_def read
    using room zero by (auto simp: Let_def same_segment_def [of "(False, _)"] intro!: segment_fields_same)
  with p show thesis by (rule that)
qed

section \<open>Frames against the library\<close>

definition frame_summary :: "bytes \<Rightarrow> nat \<Rightarrow> nat \<Rightarrow> inspect_frame" where
  "frame_summary bytes len records =
     foldl (inspect_frame_record bytes) (frame_zero\<lparr>fr_length := len, fr_records := records\<rparr>) [0..<records]"

lemma frame_record_fields [simp]:
  "fr_length (inspect_frame_record bytes fr i) = fr_length fr"
  "fr_records (inspect_frame_record bytes fr i) = fr_records fr"
  "fr_last_time (inspect_frame_record bytes fr i) = frame_time bytes i"
  "fr_first_time (inspect_frame_record bytes fr i) = (if i = 0 then frame_time bytes i else fr_first_time fr)"
  by (simp_all add: inspect_frame_record_def Let_def frame_time_def add.commute)

lemma frame_summary_fields [simp]:
  "fr_length (frame_summary bytes len records) = len" "fr_records (frame_summary bytes len records) = records"
proof -
  have "fr_length (foldl (inspect_frame_record bytes) fr is) = fr_length fr \<and>
      fr_records (foldl (inspect_frame_record bytes) fr is) = fr_records fr" for fr "is"
    by (induction "is" arbitrary: fr) simp_all
  then show "fr_length (frame_summary bytes len records) = len" "fr_records (frame_summary bytes len records) = records"
    by (simp_all add: frame_summary_def)
qed

lemma frame_summary_times:
  assumes "0 < records"
  shows "fr_last_time (frame_summary bytes len records) = frame_time bytes (records - 1)"
    "fr_first_time (frame_summary bytes len records) = frame_time bytes 0"
proof -
  obtain k where "records = Suc k" using assms gr0_implies_Suc by blast
  then show "fr_last_time (frame_summary bytes len records) = frame_time bytes (records - 1)"
    by (simp add: frame_summary_def)
  have "fr_first_time (foldl (inspect_frame_record bytes) fr [0..<Suc n]) = frame_time bytes 0" for fr n
    by (induction n) (simp_all add: frame_time_def)
  then show "fr_first_time (frame_summary bytes len records) = frame_time bytes 0"
    using \<open>records = Suc k\<close> by (simp only: frame_summary_def)
qed

text \<open>A result of the tool and a result of the library about the same frame.\<close>

definition same_frame :: "error option \<times> inspect_frame \<Rightarrow> error + bytes \<times> nat \<times> nat \<Rightarrow> bool" where
  "same_frame r l \<longleftrightarrow>
     (case fst r of
        Some e \<Rightarrow> l = Inl e \<and> (e = INVALID_DATABASE \<or> e = END)
      | None \<Rightarrow> \<exists>bytes len records. l = Inr (bytes, len, records) \<and> snd r = frame_summary bytes len records \<and> 0 < records)"

text \<open>The tool's test of a frame header, spelled out in two places, is the library's.\<close>

lemma header_tests:
  "(\<not> has_magic h ''TLBATCH!'' \<or> decode32 (drop 16 h) = 0 \<or> decode32 (drop 16 h) > of_nat TIMELITE_MAX_RECORDS \<or>
     decode32 (drop 20 h) \<noteq> 32 + decode32 (drop 16 h) * 20 \<or> decode32 (drop 24 h) \<noteq> 0 \<or>
     checksum h 28 \<noteq> decode32 (drop 28 h)) = (\<not> check_frame_header h)"
  by (auto simp: check_frame_header_def Let_def not_le)

lemma frame_parse_same:
  assumes "sound_source src" "script w = []" "is_opened w f" "fdata w f = src_bytes src"
    and "off \<le> end" "unat end < 2 ^ 62"
  obtains r l where "inspect_frame_parse src off end seq = (r, src)" "read_frame f off end seq w = (l, w)" "same_frame r l"
proof (cases "end - off < 32")
  case True
  then show thesis
    by (intro that [of "(Some INVALID_DATABASE, frame_zero\<lparr>fr_reason := ''fewer than 32 bytes remain for a frame header''\<rparr>)" "Inl INVALID_DATABASE"])
      (simp_all add: inspect_frame_parse_def read_frame_def same_frame_def Let_def)
next
  case room: False
  let ?D = "src_bytes src" and ?h = "block (unat off) 32 (src_bytes src)"
  have o: "unat off \<le> unat end" using assms(5) by (simp add: word_le_nat_alt)
  then have i: "in_off_t off 32" using assms(6) by (simp add: in_off_t_def)
  note read = inspect_read_sound [OF assms(1)]
  note parse = inspect_frame_parse_def [of src off "end" seq, unfolded Let_def inspect_decode inspect_checksum header_tests]
  note lib = read_exact_quiet_any [OF assms(2,3) i, unfolded assms(4)]
  have l: "length ?h < 32 \<longleftrightarrow> \<not> unat off + 32 \<le> length ?D" by (auto simp: length_block)
  define count where "count = decode32 (drop 16 ?h)"
  define body where "body = decode32 (drop 20 ?h)"
  show thesis
  proof (cases "unat off + 32 \<le> length ?D \<and> check_frame_header ?h \<and> decode64 (drop 8 ?h) = seq \<and>
      \<not> of_nat (unat body + 32) > end - off")
    case False
    have "of_nat (unat body + 32) > end - off \<Longrightarrow> unat off + 32 \<le> length ?D \<Longrightarrow> check_frame_header ?h \<Longrightarrow>
        decode64 (drop 8 ?h) = seq \<Longrightarrow> thesis"
      using room l lib
      by (intro that [of "(Some END, frame_zero\<lparr>fr_reason := ''validated header, but the frame ends past the available bytes''\<rparr>)" "Inl END"])
        (simp_all add: parse read_frame_def same_frame_def io_bind_def read Let_def body_def)
    moreover have "\<not> unat off + 32 \<le> length ?D \<Longrightarrow> thesis"
      using room l lib
      by (intro that [of "(Some INVALID_DATABASE, frame_zero\<lparr>fr_reason := ''frame header cut short''\<rparr>)" "Inl INVALID_DATABASE"])
        (simp_all add: parse read_frame_def same_frame_def io_bind_def read Let_def body_def)
    moreover have "unat off + 32 \<le> length ?D \<Longrightarrow> \<not> check_frame_header ?h \<Longrightarrow> thesis"
      using room l lib
      by (intro that [of "(Some INVALID_DATABASE, frame_zero\<lparr>fr_reason := ''frame header invalid''\<rparr>)" "Inl INVALID_DATABASE"])
        (simp_all add: parse read_frame_def same_frame_def io_bind_def read Let_def body_def)
    moreover have "unat off + 32 \<le> length ?D \<Longrightarrow> check_frame_header ?h \<Longrightarrow> decode64 (drop 8 ?h) \<noteq> seq \<Longrightarrow> thesis"
      using room l lib
      by (intro that [of "(Some INVALID_DATABASE, frame_zero\<lparr>fr_reason := ''frame sequence is not the expected next sequence''\<rparr>)" "Inl INVALID_DATABASE"])
        (simp_all add: parse read_frame_def same_frame_def io_bind_def read Let_def body_def)
    ultimately show thesis using False by blast
  next
    case True
    then have fits: "of_nat (unat body + 32) \<le> end - off" by (simp add: not_less)
    have hl: "length ?h = 32" using True by (auto simp: length_block)
    note counts = check_frame_header_counts [of ?h, folded count_def body_def]
    have blen: "unat body \<le> 1312" "0 < unat count" "unat count \<le> 64" using counts True by auto
    have o32: "unat (off + 32) = unat off + 32" by (rule unat_offset_32 [OF i])
    then have i2: "in_off_t (off + 32) (unat body)" using blen o assms(6) by (simp add: in_off_t_def)
    note lib2 = read_exact_quiet_any [OF assms(2,3) i2, unfolded assms(4) o32]
    define rest where "rest = block (unat off + 32) (unat body) ?D"
    have rl: "length rest = unat body \<longleftrightarrow> unat off + 32 + unat body \<le> length ?D \<or> unat body = 0"
      by (auto simp: rest_def length_block)
    have tool: "inspect_frame_parse src off end seq =
      ((if length rest \<noteq> unat body then (Some INVALID_DATABASE, frame_zero\<lparr>fr_reason := ''frame body cut short''\<rparr>)
        else if \<not> has_magic (drop (unat body) (?h @ rest)) ''TLCOMMIT'' \<or>
              decode64 (drop 8 (drop (unat body) (?h @ rest))) \<noteq> seq \<or>
              decode32 (drop 16 (drop (unat body) (?h @ rest))) \<noteq> count \<or>
              decode32 (drop 20 (drop (unat body) (?h @ rest))) \<noteq> body \<or>
              decode32 (drop 28 (drop (unat body) (?h @ rest))) \<noteq> checksum (drop (unat body) (?h @ rest)) 28
        then (Some INVALID_DATABASE, frame_zero\<lparr>fr_reason := ''commit record invalid''\<rparr>)
        else if decode32 (drop 24 (drop (unat body) (?h @ rest))) \<noteq> checksum (?h @ rest) (unat body)
        then (Some INVALID_DATABASE, frame_zero\<lparr>fr_reason := ''body checksum mismatch''\<rparr>)
        else (None, frame_summary (?h @ rest) (unat body + 32) (unat count))), src)"
      using room hl True unfolding frame_summary_def
      by (simp add: parse read count_def body_def o32 rest_def del: drop_append drop_drop)
    have lib_frame: "read_frame f off end seq w =
      ((if length rest \<noteq> unat body \<or> \<not> check_commit (?h @ rest) seq count body then Inl INVALID_DATABASE
        else Inr (?h @ rest, unat body + 32, unat count)), w)"
      using room True lib lib2 rl unfolding rest_def
      by (simp add: read_frame_def io_bind_def Let_def count_def body_def)
    show thesis
      by (rule that [OF tool lib_frame])
        (use blen in \<open>auto simp: same_frame_def check_commit_def Let_def simp del: drop_append drop_drop\<close>)
  qed
qed

end
