(* ===== verification/TL_Inspect.thy ===== *)
theory TL_Inspect
  imports TL_InspectParse TL_Open
begin

text \<open>
  The \<open>verify\<close> command of \<open>tools/inspect/inspect.c\<close>: its state, one definition for each stage in the order
  of the library's open, and the summary it prints.  The output is the list of lines written, each a
  \<open>key=value\<close> fact.  \<open>verify\<close> reads the two files through standard I/O; it has no operation that
  could change them.
\<close>

section \<open>Printing\<close>

definition digit :: "nat \<Rightarrow> char" where
  "digit n = char_of (if n < 10 then 48 + n else 87 + n)"

text \<open>\<open>%u\<close>, \<open>%d\<close> of a flag and \<open>%02x\<close>.\<close>

fun dec :: "nat \<Rightarrow> string" where
  "dec n = (if n < 10 then [digit n] else dec (n div 10) @ [digit (n mod 10)])"

declare dec.simps [simp del]

definition flag :: "bool \<Rightarrow> string" where
  "flag b = (if b then ''1'' else ''0'')"

definition hex2 :: "byte \<Rightarrow> string" where
  "hex2 b = [digit (unat b div 16), digit (unat b mod 16)]"

definition inspect_error_name :: "error option \<Rightarrow> string" where
  "inspect_error_name error =
     (case error of
        None \<Rightarrow> ''ok''
      | Some e \<Rightarrow>
          (case e of
             INVALID_DATABASE \<Rightarrow> ''TIMELITE_INVALID_DATABASE''
           | UNSUPPORTED_VERSION \<Rightarrow> ''TIMELITE_UNSUPPORTED_VERSION''
           | END \<Rightarrow> ''TIMELITE_END''
           | BUFFER_TOO_SMALL \<Rightarrow> ''TIMELITE_BUFFER_TOO_SMALL''
           | RECOVERY_REQUIRED \<Rightarrow> ''TIMELITE_RECOVERY_REQUIRED''
           | WAL_FULL \<Rightarrow> ''TIMELITE_WAL_FULL''
           | PAIR_MISMATCH \<Rightarrow> ''TIMELITE_PAIR_MISMATCH''
           | DATABASE_FULL \<Rightarrow> ''TIMELITE_DATABASE_FULL''
           | OUT_OF_ORDER \<Rightarrow> ''TIMELITE_OUT_OF_ORDER''
           | EINVAL \<Rightarrow> ''EINVAL''
           | ENOENT \<Rightarrow> ''ENOENT''
           | ENOTSUP \<Rightarrow> ''ENOTSUP''
           | EBADF \<Rightarrow> ''EBADF''
           | EACCES \<Rightarrow> ''EACCES''
           | EBUSY \<Rightarrow> ''EBUSY''
           | EEXIST \<Rightarrow> ''EEXIST''
           | EIO \<Rightarrow> ''EIO''
           | ENOSPC \<Rightarrow> ''ENOSPC''
           | EOVERFLOW \<Rightarrow> ''EOVERFLOW''
           | _ \<Rightarrow> ''errno''))"

definition inspect_phase_name :: "u32 \<Rightarrow> string" where
  "inspect_phase_name phase =
     (if phase \<le> 3 then [''NORMAL'', ''PREPARE'', ''TAIL'', ''CLEANUP''] ! unat phase else ''unknown'')"

section \<open>The state\<close>

record inspect_state =
  st_out :: "string list"
  st_database :: inspect_source
  st_wal :: inspect_source
  st_problems :: u32
  st_predicted_error :: "error option"
  st_predicted_stage :: string
  st_io_error :: bool
  st_slots :: "inspect_slot list"
  st_active :: "nat option"
  st_legacy :: bool
  st_retention :: bool
  st_has_time :: bool
  st_phase :: u32
  st_generation :: u64
  st_data_end :: u64
  st_installed :: u64
  st_installed_time :: u64
  st_root :: u64
  st_tail :: u64
  st_live :: u64
  st_records :: u64
  st_first_live :: u64
  st_unreadable :: u64
  st_time_min :: u64
  st_time_max :: u64
  st_floor_time :: u64
  st_have_times :: bool
  st_floor_known :: bool
  st_floor_source :: string
  st_stale :: bool
  st_wal_ordered :: bool
  st_sequence :: u64
  st_wal_end :: u64
  st_wal_frames :: u64
  st_wal_first_sequence :: u64
  st_wal_first_time :: u64
  st_wal_last_time :: u64

text \<open>\<open>memset(&state, 0, sizeof(state))\<close> and the assignments after it in \<open>inspect_verify\<close>.\<close>

definition inspect_start :: "string list \<Rightarrow> inspect_source \<Rightarrow> inspect_source \<Rightarrow> inspect_state" where
  "inspect_start out database wal =
     \<lparr>st_out = out, st_database = database, st_wal = wal, st_problems = 0, st_predicted_error = None,
      st_predicted_stage = '''', st_io_error = False, st_slots = [slot_zero, slot_zero], st_active = None,
      st_legacy = False, st_retention = False, st_has_time = False, st_phase = 0, st_generation = 0,
      st_data_end = 160, st_installed = 0, st_installed_time = 0, st_root = 160, st_tail = 0, st_live = 0,
      st_records = 0, st_first_live = 0, st_unreadable = 0, st_time_min = 0, st_time_max = 0,
      st_floor_time = 0, st_have_times = False, st_floor_known = False, st_floor_source = ''none'',
      st_stale = False, st_wal_ordered = False, st_sequence = 0, st_wal_end = 0, st_wal_frames = 0,
      st_wal_first_sequence = 0, st_wal_first_time = 0, st_wal_last_time = 0\<rparr>"

text \<open>\<open>fprintf(out, "key=value\n")\<close>, and the same with a number.\<close>

definition say :: "string \<Rightarrow> string \<Rightarrow> inspect_state \<Rightarrow> inspect_state" where
  "say key value st = st\<lparr>st_out := st_out st @ [key @ ''='' @ value]\<rparr>"

definition say_number :: "string \<Rightarrow> u64 \<Rightarrow> inspect_state \<Rightarrow> inspect_state" where
  "say_number key value st = say key (dec (unat value)) st"

definition inspect_problem :: "inspect_state \<Rightarrow> u64 \<Rightarrow> string \<Rightarrow> string \<Rightarrow> inspect_state" where
  "inspect_problem st offset file detail =
     (let st = st\<lparr>st_problems := st_problems st + 1\<rparr>;
          key = ''inconsistency.'' @ dec (unat (st_problems st))
      in if st_problems st \<le> 32
         then say (key @ ''.detail'') detail
                (say_number (key @ ''.offset'') offset (say (key @ ''.file'') file st))
         else st)"

definition inspect_predict :: "inspect_state \<Rightarrow> error \<Rightarrow> string \<Rightarrow> inspect_state" where
  "inspect_predict st error stage =
     (if st_predicted_error st = None
      then st\<lparr>st_predicted_error := Some error, st_predicted_stage := stage\<rparr>
      else st)"

text \<open>A check that reports a problem and predicts that the library fails.\<close>

definition inspect_mismatch ::
  "(inspect_state \<Rightarrow> bool) \<Rightarrow> (inspect_state \<Rightarrow> u64) \<Rightarrow> string \<Rightarrow> string \<Rightarrow> string \<Rightarrow> inspect_state \<Rightarrow> inspect_state" where
  "inspect_mismatch c offset file detail stage st =
     (if c st then inspect_predict (inspect_problem st (offset st) file detail) INVALID_DATABASE stage else st)"

section \<open>Headers\<close>

definition set_source :: "bool \<Rightarrow> inspect_source \<Rightarrow> inspect_state \<Rightarrow> inspect_state" where
  "set_source wal source st = (if wal then st\<lparr>st_wal := source\<rparr> else st\<lparr>st_database := source\<rparr>)"

text \<open>The pair header of the database or of the WAL; \<open>None\<close> is the code 0, with the header's bytes.\<close>

definition inspect_pair_header ::
  "inspect_state \<Rightarrow> bool \<Rightarrow> string \<Rightarrow> string \<Rightarrow> (error option \<times> bytes) \<times> inspect_state" where
  "inspect_pair_header st wal label magic =
     (case inspect_read (if wal then st_wal st else st_database st) 0 32 of
        (None, source) \<Rightarrow>
          ((Some EIO, []),
           (say ''error'' (''cannot read '' @ label @ '' header'') (set_source wal source st))\<lparr>st_io_error := True\<rparr>)
      | (Some header, source) \<Rightarrow>
          (let st = set_source wal source st; got = length header; version = inspect_decode32 (drop 8 header)
           in if got < 12 \<or> \<not> has_magic header magic
              then ((Some INVALID_DATABASE, header),
                    inspect_problem st 0 label
                      (if got < 12 then ''shorter than a pair header'' else ''wrong magic''))
              else
                (let st = say (label @ ''_magic'') (map (\<lambda>b. char_of (unat b)) (take 8 header)) st;
                     st = say (label @ ''_version'') (dec (unat version)) st
                 in if version = 0
                    then ((Some INVALID_DATABASE, header), inspect_problem st 8 label ''version 0'')
                    else if version \<noteq> 2
                    then ((Some UNSUPPORTED_VERSION, header),
                          inspect_problem st 8 label
                            (if version = 1
                             then ''version 1 lifecycle file; the batch API rejects it without migration''
                             else ''unknown version''))
                    else if got < 32
                    then ((Some INVALID_DATABASE, header),
                          inspect_problem st (of_nat got) label ''version 2 header cut short'')
                    else if inspect_checksum header 28 \<noteq> inspect_decode32 (drop 28 header)
                    then ((Some INVALID_DATABASE, header),
                          inspect_problem st 28 label ''pair header checksum mismatch'')
                    else ((None, header),
                          say (label @ ''_identity'') (concat (map hex2 (block 12 16 header))) st))))"

definition inspect_headers :: "inspect_state \<Rightarrow> inspect_state" where
  "inspect_headers st =
     (case inspect_pair_header st False ''database'' ''TIMELITE'' of
        ((Some e, _), st) \<Rightarrow> inspect_predict st e ''database header''
      | ((None, header), st) \<Rightarrow>
          (case inspect_pair_header st True ''wal'' ''TIMEWAL!'' of
             ((Some e, _), st) \<Rightarrow> inspect_predict st e ''wal header''
           | ((None, wal_header), st) \<Rightarrow>
               if block 12 16 header \<noteq> block 12 16 wal_header
               then inspect_predict
                      (inspect_problem (say ''pair_identity'' ''mismatch'' st) 12 ''wal''
                         ''identity differs from the database identity'')
                      PAIR_MISMATCH ''pair identity''
               else say ''pair_identity'' ''match'' st))"

section \<open>Manifests\<close>

text \<open>A slot from the bytes read, with the test of its parity.\<close>

definition parity_slot :: "nat \<Rightarrow> bytes \<Rightarrow> u64 \<Rightarrow> inspect_slot" where
  "parity_slot index got file_size =
     (let slot = (if length got < 64
                  then slot_zero\<lparr>sl_kind := ''unknown'', sl_reason := ''cut short'', sl_present := (got \<noteq> [])\<rparr>
                  else inspect_slot_parse got file_size)
      in if sl_present slot \<and> sl_valid slot \<and> sl_revision slot AND 1 \<noteq> of_nat index
         then slot\<lparr>sl_valid := False, sl_well_formed := False,
                   sl_reason := ''revision parity does not select this slot''\<rparr>
         else slot)"

text \<open>One round of the first loop of \<open>inspect_manifests\<close>; after an I/O error the function returns.\<close>

definition inspect_slot_read :: "nat \<Rightarrow> inspect_state \<Rightarrow> inspect_state" where
  "inspect_slot_read index st =
     (case inspect_read (st_database st) (32 + 64 * of_nat index) 64 of
        (None, source) \<Rightarrow>
          (say ''error'' (''cannot read database slot '' @ dec index) (st\<lparr>st_database := source\<rparr>))\<lparr>st_io_error := True\<rparr>
      | (Some got, source) \<Rightarrow>
          (let st = st\<lparr>st_database := source\<rparr>;
               slot = parity_slot index got (src_size source);
               st = st\<lparr>st_slots := (st_slots st)[index := slot]\<rparr>
           in if sl_valid slot \<and>
                 (case st_active st of
                    None \<Rightarrow> True
                  | Some a \<Rightarrow> sl_revision slot > sl_revision (st_slots st ! a))
              then st\<lparr>st_active := Some index\<rparr>
              else st))"

text \<open>One round of the second loop.\<close>

definition inspect_slot_report :: "nat \<Rightarrow> inspect_state \<Rightarrow> inspect_state" where
  "inspect_slot_report index st =
     (let slot = st_slots st ! index;
          superseded = (sl_present slot \<and> \<not> sl_valid slot \<and> sl_well_formed slot \<and>
                        (case st_active st of
                           None \<Rightarrow> False
                         | Some a \<Rightarrow> sl_revision slot < sl_revision (st_slots st ! a)));
          key = ''slot.'' @ dec index;
          st = say (key @ ''.state'')
                 (if \<not> sl_present slot then ''empty'' else if sl_valid slot then ''valid''
                  else if superseded then ''superseded'' else ''invalid'') st;
          st = (if sl_present slot
                then say_number (key @ ''.revision'') (sl_revision slot) (say (key @ ''.kind'') (sl_kind slot) st)
                else st)
      in if sl_present slot \<and> \<not> sl_valid slot then
           (let st = say (key @ ''.reason'') (sl_reason slot) st
            in if superseded then st
               else inspect_problem st (32 + 64 * of_nat index) ''database'' (sl_reason slot))
         else st)"

text \<open>The branch of \<open>inspect_manifests\<close> that has an active slot.\<close>

definition inspect_active :: "nat \<Rightarrow> inspect_state \<Rightarrow> inspect_state" where
  "inspect_active index st =
     (let active = st_slots st ! index;
          st = say ''active_slot'' (if index = 0 then ''0'' else ''1'') st;
          st = say ''manifest_kind''
                 (if sl_retention active then ''retention-010''
                  else if sl_has_time active then ''install-007'' else ''install-006'') st;
          st = say_number ''revision'' (sl_revision active) st;
          st = st\<lparr>st_generation := sl_count active, st_data_end := sl_data_end active,
                  st_installed := sl_last active, st_installed_time := sl_last_time active,
                  st_has_time := sl_has_time active, st_retention := sl_retention active,
                  st_root := sl_root active, st_tail := sl_tail active,
                  st_phase := (if sl_retention active then sl_phase active else 0)\<rparr>;
          st = say_number ''generation'' (st_generation st) st;
          st = say_number ''installed_last_sequence'' (st_installed st) st;
          st = (if st_has_time st then say_number ''installed_last_timestamp_us'' (st_installed_time st) st else st);
          st = say_number ''root'' (st_root st) st;
          st = say_number ''last_segment_offset'' (st_tail st) st
      in if st_retention st then say ''retention_phase'' (inspect_phase_name (st_phase st)) st else st)"

text \<open>\<open>inspect_manifests\<close> for a database that has slots.\<close>

definition inspect_choice :: "inspect_state \<Rightarrow> inspect_state" where
  "inspect_choice st =
     (let st = inspect_slot_read 0 st;
          st = (if st_io_error st then st else inspect_slot_read 1 st)
      in if st_io_error st then st
         else
           (let st = inspect_slot_report 1 (inspect_slot_report 0 st);
                st = (case st_active st of
                        None \<Rightarrow>
                          (let st = say ''active_slot'' ''none'' st
                           in if src_size (st_database st) > 160
                              then inspect_predict
                                     (inspect_problem st 32 ''database''
                                        ''no valid manifest slot in a database larger than 160 bytes'')
                                     INVALID_DATABASE ''manifests''
                              else say ''manifest'' ''none (database of at most 160 bytes is treated as empty)'' st)
                      | Some index \<Rightarrow> inspect_active index st)
            in say_number ''database_logical_end'' (st_data_end st) st))"

definition inspect_manifests :: "inspect_state \<Rightarrow> inspect_state" where
  "inspect_manifests st =
     (let st = st\<lparr>st_legacy := (src_size (st_database st) = 32)\<rparr>;
          st = say ''database_layout'' (if st_legacy st then ''legacy-004'' else ''manifest'') st
      in if st_legacy st
         then say_number ''database_logical_end'' (st_data_end st)
                (say ''manifest'' ''legacy-004 (32-byte database, nothing installed)''
                  (say ''active_slot'' ''none'' st))
         else inspect_choice st)"

section \<open>Segments\<close>

definition inspect_count_frame :: "inspect_state \<Rightarrow> inspect_frame \<Rightarrow> inspect_state" where
  "inspect_count_frame st frame =
     (let st = st\<lparr>st_records := st_records st + of_nat (fr_records frame)\<rparr>;
          st = (if \<not> st_have_times st
                then st\<lparr>st_time_min := fr_minimum frame, st_time_max := fr_maximum frame, st_have_times := True\<rparr>
                else st);
          st = (if fr_minimum frame < st_time_min st then st\<lparr>st_time_min := fr_minimum frame\<rparr> else st)
      in if fr_maximum frame > st_time_max st then st\<lparr>st_time_max := fr_maximum frame\<rparr> else st)"

lemma frame_parse_length:
  assumes "inspect_frame_parse src off end seq = ((None, fr), src')"
  shows "32 \<le> fr_length fr" "unat (of_nat (fr_length fr) :: u64) = fr_length fr" "of_nat (fr_length fr) \<le> end - off"
proof -
  have f: "fr_length (foldl (inspect_frame_record b) (frame_zero\<lparr>fr_length := n, fr_records := m\<rparr>) is) = n" for b n m "is"
    by (induction "is" arbitrary: m rule: rev_induct) simp_all
  from assms have "(\<exists>b :: u32. fr_length fr = unat b + 32) \<and> of_nat (fr_length fr) \<le> end - off"
    unfolding inspect_frame_parse_def Let_def
    by (auto split: if_splits option.splits prod.splits simp: f not_less)
  then obtain b :: u32 where "fr_length fr = unat b + 32" "of_nat (fr_length fr) \<le> end - off" by blast
  then show "32 \<le> fr_length fr" "unat (of_nat (fr_length fr) :: u64) = fr_length fr" "of_nat (fr_length fr) \<le> end - off"
    using u32_bound [of b] u64_of_nat [of "fr_length fr"] by simp_all
qed

lemma frame_parse_advance:
  assumes "inspect_frame_parse src off end seq = ((None, fr), src')"
  shows "unat (end - (off + of_nat (fr_length fr))) < unat (end - off)"
proof -
  note f = frame_parse_length [OF assms]
  have eq: "end - (off + of_nat (fr_length fr)) = (end - off) - of_nat (fr_length fr)" by (simp add: algebra_simps)
  have "fr_length fr \<le> unat (end - off)" using f(2,3) by (simp add: word_le_nat_alt)
  then show ?thesis unfolding eq using f u64_sub [of "of_nat (fr_length fr)" "end - off"] by simp
qed

text \<open>The loop of \<open>inspect_segment_frames\<close>: whether it broke off, the position and the sequence at its end.\<close>

function inspect_frames_loop ::
  "inspect_segment \<Rightarrow> u64 \<Rightarrow> u64 \<Rightarrow> u64 \<Rightarrow> inspect_state \<Rightarrow> (bool \<times> u64 \<times> u64) \<times> inspect_state" where
  "inspect_frames_loop segment end position sequence st =
     (if position < end then
        (case inspect_frame_parse (st_database st) position end sequence of
           ((Some e, frame), source) \<Rightarrow>
             (let st = inspect_problem (st\<lparr>st_database := source\<rparr>) position ''database'' (fr_reason frame)
              in ((True, position, sequence),
                  if st_unreadable st = 0 then st\<lparr>st_unreadable := sequence\<rparr> else st))
         | ((None, frame), source) \<Rightarrow>
             (let st = inspect_count_frame (st\<lparr>st_database := source\<rparr>) frame;
                  st = (if sg_ordered segment \<and>
                           (\<not> fr_ordered frame \<or> fr_first_time frame < sg_minimum segment \<or>
                            fr_last_time frame > sg_maximum segment)
                        then inspect_problem st position ''database'' ''record times leave the ordered segment span''
                        else st);
                  st = st\<lparr>st_floor_time := fr_last_time frame, st_floor_known := True,
                          st_floor_source := ''segment_scan''\<rparr>
              in inspect_frames_loop segment end (position + of_nat (fr_length frame)) (sequence + 1) st))
      else ((False, position, sequence), st))"
  by pat_completeness auto
termination
  by (relation "measure (\<lambda>(segment, end, position, sequence, st). unat (end - position))")
    (auto dest!: sym [of "((None, _), _)" "inspect_frame_parse _ _ _ _", THEN frame_parse_advance] simp del: unat_sub)

declare inspect_frames_loop.simps [simp del]

definition inspect_segment_frames ::
  "inspect_state \<Rightarrow> u64 \<Rightarrow> inspect_segment \<Rightarrow> u64 \<times> inspect_state" where
  "inspect_segment_frames st offset segment =
     (let position = offset + of_nat (sg_header_size segment);
          end = position + ucast (sg_body segment)
      in case inspect_frames_loop segment end position (sg_first segment) st of
           ((broken, position, sequence), st) \<Rightarrow>
             (sequence - sg_first segment,
              if \<not> broken \<and> sequence - 1 \<noteq> sg_last segment
              then inspect_problem st position ''database''
                     ''segment body holds a different number of frames than its header''
              else st))"

text \<open>The local variables of \<open>inspect_segments\<close>.\<close>

record inspect_walk =
  wk_n :: u64
  wk_offset :: u64
  wk_previous :: u64
  wk_sequence :: u64
  wk_offsets :: "u64 list"
  wk_segment :: inspect_segment
  wk_damaged :: bool

definition walk_start :: "u64 \<Rightarrow> inspect_walk" where
  "walk_start root =
     \<lparr>wk_n = 1, wk_offset = root, wk_previous = 0, wk_sequence = 0, wk_offsets = replicate 24 0,
      wk_segment = segment_zero, wk_damaged = False\<rparr>"

text \<open>The body of the loop after a header was parsed.\<close>

definition inspect_segment_report :: "inspect_segment \<Rightarrow> inspect_walk \<Rightarrow> inspect_state \<Rightarrow> inspect_state" where
  "inspect_segment_report segment k st =
     (let key = ''segment.'' @ dec (unat (wk_n k));
          st = say_number (key @ ''.offset'') (wk_offset k) st;
          st = say (key @ ''.kind'') (sg_kind segment) st;
          st = say_number (key @ ''.first_sequence'') (sg_first segment) st;
          st = say_number (key @ ''.last_sequence'') (sg_last segment) st;
          st = say (key @ ''.body_bytes'') (dec (unat (sg_body segment))) st
      in if sg_header_size segment = 64
         then say_number (key @ ''.maximum_us'') (sg_maximum segment)
                (say_number (key @ ''.minimum_us'') (sg_minimum segment) st)
         else st)"

definition inspect_segment_checks :: "inspect_segment \<Rightarrow> inspect_walk \<Rightarrow> inspect_state \<Rightarrow> inspect_state" where
  "inspect_segment_checks segment k st =
     (let st = inspect_mismatch (\<lambda>st. wk_sequence k = UINT64_MAX \<or> sg_first segment \<le> wk_sequence k \<or>
                   (\<not> st_retention st \<and> sg_first segment \<noteq> wk_sequence k + 1)) (\<lambda>_. wk_offset k + 8) ''database''
                 ''segment sequence does not continue from the previous segment'' ''segment sequence'' st
      in inspect_mismatch (\<lambda>st. sg_header_size segment = 64 \<and>
            (sg_previous segment \<noteq> wk_previous k \<or> sg_skip segment \<noteq> wk_offsets k ! inspect_bit (wk_n k)))
           (\<lambda>_. wk_offset k + 44) ''database'' ''backward links do not match the walked chain'' ''segment links'' st)"

definition inspect_segment_step ::
  "inspect_segment \<Rightarrow> inspect_walk \<Rightarrow> inspect_state \<Rightarrow> inspect_walk \<times> inspect_state" where
  "inspect_segment_step segment k st =
     (let st = inspect_segment_report segment k st;
          st = inspect_segment_checks segment k st;
          expected = sg_last segment - sg_first segment + 1;
          st = (if st_live st = 0 then st\<lparr>st_first_live := sg_first segment\<rparr> else st);
          st = st\<lparr>st_live := st_live st + expected\<rparr>;
          (frames, st) = inspect_segment_frames st (wk_offset k) segment;
          st = say_number (''segment.'' @ dec (unat (wk_n k)) @ ''.frames_read'') frames st
      in (\<lparr>wk_n = wk_n k + 1,
           wk_offset = wk_offset k + (of_nat (sg_header_size segment) + ucast (sg_body segment)),
           wk_previous = wk_offset k, wk_sequence = sg_last segment,
           wk_offsets = link_offsets (inspect_bit (wk_n k)) (wk_offset k) (wk_offsets k),
           wk_segment = segment, wk_damaged = (frames \<noteq> expected)\<rparr>, st))"

lemma segment_parse_advance:
  assumes "inspect_segment_parse src off end = ((True, s), src')"
  shows "unat end - unat (off + (of_nat (sg_header_size s) + ucast (sg_body s))) < unat end - unat off"
    "unat (off + (of_nat (sg_header_size s) + ucast (sg_body s))) = unat off + sg_header_size s + unat (sg_body s)"
    "unat off + sg_header_size s + unat (sg_body s) \<le> unat end"
    "sg_header_size s = 32 \<or> sg_header_size s = 64"
proof -
  from assms obtain h s0 where p: "inspect_segment_fields h off end s0 = (True, s)"
    and hs: "sg_header_size s0 = 32 \<or> sg_header_size s0 = 64" "of_nat (sg_header_size s0) \<le> end - off"
    and le: "off \<le> end"
    unfolding inspect_segment_parse_def Let_def
    by (force split: if_splits option.splits prod.splits simp: not_less)
  have same: "same_segment (inspect_segment_fields h off end (s0\<lparr>sg_previous := 0, sg_skip := 0\<rparr>))
      (parse_segment h (sg_header_size s0) (sg_ordered s0) off end)"
    by (rule segment_fields_same) simp_all
  have "fst (inspect_segment_fields h off end (s0\<lparr>sg_previous := 0, sg_skip := 0\<rparr>))"
    "sg_body (snd (inspect_segment_fields h off end (s0\<lparr>sg_previous := 0, sg_skip := 0\<rparr>))) = sg_body s"
    "sg_header_size s = sg_header_size s0"
    using p unfolding inspect_segment_fields_def Let_def by (auto split: if_splits)
  with same obtain z where z: "parse_segment h (sg_header_size s0) (sg_ordered s0) off end = Inr z" "seg_body z = sg_body s"
    by (auto simp: same_segment_def split: prod.splits)
  note e = parse_segment_extent [OF z(1) hs le] and hh = \<open>sg_header_size s = sg_header_size s0\<close>
  show "sg_header_size s = 32 \<or> sg_header_size s = 64" using hs hh by simp
  have x: "segment_extent z = of_nat (sg_header_size s) + ucast (sg_body s)" using e(1) hh z(2) by (simp add: segment_extent_def)
  show f: "unat off + sg_header_size s + unat (sg_body s) \<le> unat end" using e z(2) hh by simp
  have "unat (off + segment_extent z) = unat off + unat (segment_extent z)"
    using e(2) u64_bound [of "end"] by (intro u64_add) simp
  then show "unat (off + (of_nat (sg_header_size s) + ucast (sg_body s))) = unat off + sg_header_size s + unat (sg_body s)"
    using e z(2) hh x by simp
  then show "unat end - unat (off + (of_nat (sg_header_size s) + ucast (sg_body s))) < unat end - unat off"
    using f hs hh by auto
qed

text \<open>The loop of \<open>inspect_segments\<close>; a header that does not parse breaks it off.\<close>

function inspect_segments_loop ::
  "u64 \<Rightarrow> u64 \<Rightarrow> inspect_walk \<Rightarrow> inspect_state \<Rightarrow> inspect_walk \<times> inspect_state" where
  "inspect_segments_loop generation data_end k st =
     (if wk_n k \<le> generation then
        (case inspect_segment_parse (st_database st) (wk_offset k) data_end of
           ((False, segment), source) \<Rightarrow>
             (k, inspect_predict
                   (inspect_problem (st\<lparr>st_database := source\<rparr>) (wk_offset k) ''database'' (sg_reason segment))
                   INVALID_DATABASE ''segment header'')
         | ((True, segment), source) \<Rightarrow>
             (case inspect_segment_step segment k (st\<lparr>st_database := source\<rparr>) of
                (k, st) \<Rightarrow> inspect_segments_loop generation data_end k st))
      else (k, st))"
  by pat_completeness auto
termination
proof (relation "measure (\<lambda>(generation, data_end, k, st). unat data_end - unat (wk_offset k))", simp, goal_cases)
  case (1 generation data_end k st r source valid segment k' st')
  then have "inspect_segment_parse (st_database st) (wk_offset k) data_end = ((True, segment), source)" by simp
  moreover have "wk_offset k' = wk_offset k + (of_nat (sg_header_size segment) + ucast (sg_body segment))"
    using 1 by (auto simp: inspect_segment_step_def Let_def split: prod.splits)
  ultimately show ?case using segment_parse_advance(1) by simp
qed

declare inspect_segments_loop.simps [simp del]

text \<open>The checks after the loop.\<close>

definition inspect_chain_end :: "inspect_walk \<Rightarrow> inspect_state \<Rightarrow> inspect_state" where
  "inspect_chain_end k st =
     (let st = inspect_mismatch (\<lambda>st. wk_offset k \<noteq> st_data_end st) (\<lambda>_. wk_offset k) ''database''
                 ''segment chain does not end at data_end'' ''segment chain end'' st
      in if st_generation st \<noteq> 0 then
           (let st = inspect_mismatch (\<lambda>st. wk_sequence k > st_installed st \<or>
                         (\<not> st_retention st \<and> wk_sequence k \<noteq> st_installed st)) (\<lambda>_. 24) ''database''
                       ''manifest last sequence disagrees with the final segment'' ''installed sequence'' st;
                st = inspect_mismatch (\<lambda>st. st_has_time st \<and> st_tail st \<noteq> wk_previous k) (\<lambda>_. 40) ''database''
                       ''manifest last segment offset disagrees with the chain'' ''last segment offset'' st;
                st = inspect_mismatch (\<lambda>st. st_has_time st \<and> sg_ordered (wk_segment k) \<and> \<not> st_retention st \<and>
                         st_installed_time st \<noteq> sg_maximum (wk_segment k)) (\<lambda>_. 32) ''database''
                       ''manifest timestamp disagrees with the final segment span'' ''installed timestamp'' st
            in if \<not> st_has_time st \<and> wk_damaged k
               then inspect_predict st INVALID_DATABASE ''final legacy segment scan''
               else st)
         else st)"

definition inspect_segments :: "inspect_state \<Rightarrow> inspect_state" where
  "inspect_segments st =
     (case inspect_segments_loop (st_generation st) (st_data_end st) (walk_start (st_root st)) st of
        (k, st) \<Rightarrow>
          (let st = (if st_predicted_error st = None \<and> wk_n k > st_generation st
                     then inspect_chain_end k st else st);
               st = (if st_has_time st
                     then st\<lparr>st_floor_time := st_installed_time st, st_floor_known := True,
                             st_floor_source := ''manifest''\<rparr>
                     else if st_generation st = 0
                     then st\<lparr>st_floor_time := 0, st_floor_known := True, st_floor_source := ''none''\<rparr>
                     else st)
           in say_number ''installed_batches'' (st_live st) st))"

section \<open>The WAL\<close>

text \<open>The look at the first frame header; \<open>True\<close> where the function goes on.\<close>

definition inspect_wal_first :: "inspect_state \<Rightarrow> bool \<times> inspect_state" where
  "inspect_wal_first st =
     (if src_size (st_wal st) > 32 then
        (case inspect_read (st_wal st) 32 32 of
           (None, source) \<Rightarrow>
             (False, (say ''error'' ''cannot read wal'' (st\<lparr>st_wal := source\<rparr>))\<lparr>st_io_error := True\<rparr>)
         | (Some header, source) \<Rightarrow>
             (let st = st\<lparr>st_wal := source\<rparr>; got = length header;
                  count = (if got = 32 then inspect_decode32 (drop 16 header) else 0)
              in if got < 32 \<or> \<not> has_magic header ''TLBATCH!'' \<or> count = 0 \<or>
                    count > of_nat TIMELITE_MAX_RECORDS \<or>
                    inspect_decode32 (drop 20 header) \<noteq> 32 + count * 20 \<or>
                    inspect_decode32 (drop 24 header) \<noteq> 0 \<or>
                    inspect_checksum header 28 \<noteq> inspect_decode32 (drop 28 header)
                 then (False, inspect_predict
                         (inspect_problem st 32 ''wal''
                            (if got < 32 then ''1..31 bytes after the WAL header: ambiguous framing, not repaired''
                             else ''first WAL frame header invalid''))
                         INVALID_DATABASE ''first wal frame'')
                 else
                   (let first = inspect_decode64 (drop 8 header);
                        st = st\<lparr>st_wal_first_sequence := first\<rparr>
                    in (True,
                        if first \<noteq> 0 \<and> first \<le> st_installed st
                        then st\<lparr>st_stale := True, st_sequence := first - 1\<rparr>
                        else st))))
      else (True, st))"

text \<open>The body of the loop over the frames for a frame that is valid.\<close>

definition inspect_wal_frame :: "inspect_frame \<Rightarrow> inspect_state \<Rightarrow> inspect_state" where
  "inspect_wal_frame frame st =
     (let st = (if st_wal_frames st = 0 then st\<lparr>st_wal_first_time := fr_first_time frame\<rparr>
                else if fr_first_time frame < st_wal_last_time st then st\<lparr>st_wal_ordered := False\<rparr>
                else st);
          st = st\<lparr>st_wal_ordered := (st_wal_ordered st \<and> fr_ordered frame), st_wal_last_time := fr_last_time frame\<rparr>;
          st = (if st_stale st then st else inspect_count_frame st frame)
      in st\<lparr>st_wal_frames := st_wal_frames st + 1, st_sequence := st_sequence st + 1\<rparr>)"

function inspect_wal_loop :: "u64 \<Rightarrow> u64 \<Rightarrow> inspect_state \<Rightarrow> u64 \<times> inspect_state" where
  "inspect_wal_loop end offset st =
     (if offset < end then
        (case inspect_frame_parse (st_wal st) offset end (st_sequence st + 1) of
           ((Some e, frame), source) \<Rightarrow>
             (let st = st\<lparr>st_wal := source\<rparr>
              in if e = END \<and> \<not> st_stale st
                 then (offset, say_number ''wal_incomplete_suffix_bytes'' (end - offset)
                                 (say_number ''wal_incomplete_suffix_offset'' offset st))
                 else (offset, inspect_predict
                         (inspect_problem st offset ''wal''
                            (if e = END then ''incomplete frame inside a stale WAL'' else fr_reason frame))
                         (if e = EIO then EIO else INVALID_DATABASE) ''wal frame''))
         | ((None, frame), source) \<Rightarrow>
             inspect_wal_loop end (offset + of_nat (fr_length frame))
               (inspect_wal_frame frame (st\<lparr>st_wal := source\<rparr>)))
      else (offset, st))"
  by pat_completeness auto
termination
  by (relation "measure (\<lambda>(end, offset, st). unat (end - offset))")
    (auto dest!: sym [of "((None, _), _)" "inspect_frame_parse _ _ _ _", THEN frame_parse_advance] simp del: unat_sub)

declare inspect_wal_loop.simps [simp del]

definition inspect_wal_report :: "inspect_state \<Rightarrow> inspect_state" where
  "inspect_wal_report st =
     (let st = say_number ''wal_frames'' (st_wal_frames st) st;
          st = (if st_wal_frames st \<noteq> 0 then
                  say ''wal_ordered'' (flag (st_wal_ordered st))
                    (say_number ''wal_last_timestamp_us'' (st_wal_last_time st)
                      (say_number ''wal_first_timestamp_us'' (st_wal_first_time st)
                        (say_number ''wal_last_sequence'' (st_sequence st)
                          (say_number ''wal_first_sequence'' (st_wal_first_sequence st) st))))
                else st)
      in say_number ''wal_logical_end'' (st_wal_end st) st)"

definition inspect_wal_end :: "inspect_state \<Rightarrow> inspect_state" where
  "inspect_wal_end st =
     (let st = inspect_mismatch (\<lambda>st. st_stale st \<and> st_sequence st \<noteq> st_installed st) st_wal_end ''wal''
                 ''stale WAL does not end exactly at the installed sequence'' ''stale wal'' st;
          st = inspect_mismatch (\<lambda>st. src_size (st_database st) > st_data_end st \<and> st_phase st = 0 \<and>
                   \<not> (st_retention st \<and> st_generation st = 0 \<and> src_size (st_database st) = 161) \<and>
                   (st_stale st \<or> st_sequence st = st_installed st)) st_data_end ''database''
                 ''bytes beyond data_end without pending WAL frames: lost newest manifest or externally cut file''
                 ''orphan bytes'' st
      in if \<not> st_stale st \<and> st_sequence st > st_installed st then
           (let st = st\<lparr>st_floor_time := st_wal_last_time st, st_floor_known := True, st_floor_source := ''wal''\<rparr>
            in if st_live st = 0 then st\<lparr>st_first_live := st_installed st + 1\<rparr> else st)
         else st)"

definition inspect_wal :: "inspect_state \<Rightarrow> inspect_state" where
  "inspect_wal st =
     (let st = st\<lparr>st_sequence := st_installed st, st_wal_ordered := True\<rparr>; file_size = src_size (st_wal st)
      in if file_size < 32 \<or> file_size > TIMELITE_WAL_CAPACITY
         then inspect_predict
                (inspect_problem st file_size ''wal'' ''WAL size below its header or above 64 MiB'')
                INVALID_DATABASE ''wal size''
         else
           (case inspect_wal_first st of
              (False, st) \<Rightarrow> st
            | (True, st) \<Rightarrow>
                (case inspect_wal_loop file_size 32 (say ''wal_stale'' (flag (st_stale st)) st) of
                   (offset, st) \<Rightarrow>
                     (let st = inspect_wal_report (st\<lparr>st_wal_end := offset\<rparr>)
                      in if st_predicted_error st \<noteq> None then st else inspect_wal_end st))))"

section \<open>The summary\<close>

text \<open>The local variables of \<open>inspect_summary\<close>.\<close>

definition sm_pending :: "inspect_state \<Rightarrow> u64" where
  "sm_pending st = (if st_stale st then 0 else st_sequence st - st_installed st)"

definition sm_trailing :: "inspect_state \<Rightarrow> u64" where
  "sm_trailing st =
     (if src_size (st_database st) > st_data_end st then src_size (st_database st) - st_data_end st else 0)"

definition sm_empty_marker :: "inspect_state \<Rightarrow> bool" where
  "sm_empty_marker st \<longleftrightarrow>
     st_retention st \<and> st_generation st = 0 \<and> src_size (st_database st) = 161 \<and> st_phase st = 0"

definition sm_end :: "inspect_state \<Rightarrow> u64" where
  "sm_end st = (if st_phase st = 2 then 160 + (st_data_end st - st_root st) else st_data_end st)"

definition sm_wal_end :: "inspect_state \<Rightarrow> u64" where
  "sm_wal_end st = (if st_stale st then 32 else st_wal_end st)"

text \<open>The totals.\<close>

definition inspect_totals :: "inspect_state \<Rightarrow> inspect_state" where
  "inspect_totals st =
     (let pending = sm_pending st; trailing = sm_trailing st; empty_marker = sm_empty_marker st;
          st = say_number ''pending_batches'' pending st;
          st = say_number ''committed_batches'' (st_live st + pending) st;
          st = say_number ''sequence_high_water'' (if st_stale st then st_installed st else st_sequence st) st;
          st = (if st_live st + pending \<noteq> 0 then say_number ''first_live_sequence'' (st_first_live st) st else st);
          st = say_number ''records'' (st_records st) st;
          st = (if st_have_times st
                then say_number ''timestamp_max_us'' (st_time_max st) (say_number ''timestamp_min_us'' (st_time_min st) st)
                else st);
          st = (if st_floor_known st
                then say ''timestamp_floor_source'' (st_floor_source st)
                       (say_number ''timestamp_floor_us'' (st_floor_time st) st)
                else st);
          st = say_number ''database_trailing_bytes'' (if empty_marker then 0 else trailing) st;
          st = (if empty_marker
                then say ''database_marker_byte'' ''1 (an empty retained database is kept at 161 bytes)'' st
                else if trailing \<noteq> 0
                then say ''database_trailing_kind''
                       (if st_phase st = 0
                        then ''orphan bytes of an interrupted install; ignored and overwritten by the next checkpoint''
                        else ''unfinished retention copy beyond the authoritative end'') st
                else st);
          st = (if st_root st \<noteq> 160
                then say_number ''database_superseded_front_bytes'' (st_root st - 160) st else st);
          st = say_number ''wal_trailing_bytes'' (src_size (st_wal st) - st_wal_end st) st
      in if st_unreadable st \<noteq> 0 then say_number ''first_unreadable_sequence'' (st_unreadable st) st else st)"

text \<open>The predicted recovery.\<close>

definition inspect_recovery :: "inspect_state \<Rightarrow> inspect_state" where
  "inspect_recovery st =
     (let st = say ''recovery.result'' ''ok'' st;
          st = say ''recovery.manifest_slot''
                 (case st_active st of None \<Rightarrow> ''none'' | Some i \<Rightarrow> if i = 0 then ''0'' else ''1'') st;
          st = (if st_stale st
                then say ''recovery.wal_action'' ''finish interrupted reclaim: every WAL frame is already installed''
                       (say ''recovery.wal_truncate_to'' ''32'' st)
                else if st_wal_end st < src_size (st_wal st)
                then say ''recovery.wal_action'' ''truncate the incomplete final frame; no committed batch is lost''
                       (say_number ''recovery.wal_truncate_to'' (st_wal_end st) st)
                else say ''recovery.wal_action'' ''none'' st);
          st = say ''recovery.retention_action''
                 (if st_phase st = 1
                  then ''PREPARE: discard the unfinished tail beyond data_end, truncate, publish NORMAL''
                  else if st_phase st = 2
                  then ''TAIL: copy the retained tail back to offset 160, publish CLEANUP, truncate, publish NORMAL''
                  else if st_phase st = 3
                  then ''CLEANUP: truncate to the front copy end, publish NORMAL''
                  else ''none'') st;
          st = (if st_phase st \<noteq> 0
                then say_number ''recovery.database_truncate_to'' (if sm_end st = 160 then 161 else sm_end st) st
                else st)
      in if st_unreadable st \<noteq> 0 then say_number ''recovery.read_fails_at_sequence'' (st_unreadable st) st else st)"

definition inspect_summary :: "inspect_state \<Rightarrow> inspect_state" where
  "inspect_summary st =
     (let st = inspect_recovery (inspect_totals st); pending = sm_pending st;
          st = say_number ''predicted.committed_batches'' (st_live st + pending) st;
          st = say_number ''predicted.installed_batches'' (st_live st) st;
          st = say_number ''predicted.pending_batches'' pending st;
          st = say_number ''predicted.installed_segments'' (st_generation st) st;
          st = say_number ''predicted.wal_bytes'' (sm_wal_end st) st;
          st = say_number ''predicted.installed_bytes'' (sm_end st - 160) st
      in if st_floor_known st then say_number ''predicted.last_timestamp_us'' (st_floor_time st) st else st)"

section \<open>verify\<close>

text \<open>
  What the operating system and the C library decide about one stream: whether \<open>fopen\<close> fails, whether
  the streaming of the whole file fails, and the outcome of each later read.
\<close>

record stream_plan =
  plan_open :: "error option"
  plan_stream :: "error option"
  plan_reads :: "stdio list"

text \<open>The bytes \<open>fopen\<close> finds under a path.\<close>

definition file_at :: "os \<Rightarrow> string \<Rightarrow> bytes option" where
  "file_at w path =
     (if \<not> directories w (fst (split_path path)) then None
      else map_option (\<lambda>d. i_data (inodes w (dirent_inode d))) (entries w (split_path path)))"

text \<open>\<open>Inl\<close> of the line printed, with the exit code 2; \<open>strerror\<close> is the C library's.\<close>

definition inspect_open ::
  "(error \<Rightarrow> string) \<Rightarrow> os \<Rightarrow> string \<Rightarrow> string \<Rightarrow> stream_plan \<Rightarrow> string + inspect_source" where
  "inspect_open strerror w path label plan =
     (case (plan_open plan, file_at w path) of
        (Some e, _) \<Rightarrow> Inl (''error=cannot open '' @ label @ '': '' @ strerror e)
      | (None, None) \<Rightarrow> Inl (''error=cannot open '' @ label @ '': '' @ strerror ENOENT)
      | (None, Some bytes) \<Rightarrow>
          (case plan_stream plan of
             Some e \<Rightarrow> Inl (''error=cannot read '' @ label @ '': '' @ strerror e)
           | None \<Rightarrow> Inr \<lparr>src_bytes = bytes, src_size = of_nat (length bytes), src_ferror = False,
                          src_faults = plan_reads plan\<rparr>))"

text \<open>The stages between the two opens and the exit code.\<close>

definition proceed :: "(inspect_state \<Rightarrow> inspect_state) \<Rightarrow> inspect_state \<Rightarrow> inspect_state" where
  "proceed stage st = (if st_predicted_error st = None \<and> \<not> st_io_error st then stage st else st)"

definition inspect_stages :: "inspect_state \<Rightarrow> inspect_state" where
  "inspect_stages st =
     proceed inspect_wal (proceed inspect_segments (proceed inspect_manifests (inspect_headers st)))"

definition inspect_finish :: "inspect_state \<Rightarrow> nat \<times> string list" where
  "inspect_finish st =
     (let (code, st) =
        (if st_io_error st then (2, st)
         else case st_predicted_error st of
                None \<Rightarrow> (let st = inspect_summary st in (if st_problems st \<noteq> 0 then 1 else 0, st))
              | Some e \<Rightarrow>
                  (1, say ''recovery.action'' ''none: the library fails closed and changes neither file''
                        (say ''recovery.fails_at'' (st_predicted_stage st)
                          (say ''recovery.result'' (inspect_error_name (Some e)) st))))
      in (code, st_out (say ''inconsistencies'' (dec (unat (st_problems st))) st)))"

definition inspect_verify ::
  "(error \<Rightarrow> string) \<Rightarrow> string \<Rightarrow> string \<Rightarrow> stream_plan \<Rightarrow> stream_plan \<Rightarrow> os \<Rightarrow> nat \<times> string list" where
  "inspect_verify strerror database_path wal_path plan wal_plan w =
     (let out = [''mode=verify'', ''read_only=1'',
                 ''note=verify parses the files with stdio only; it never writes, truncates, syncs or creates anything'',
                 ''database='' @ database_path, ''wal='' @ wal_path]
      in case inspect_open strerror w database_path ''database'' plan of
           Inl line \<Rightarrow> (2, out @ [line])
         | Inr database \<Rightarrow>
             (case inspect_open strerror w wal_path ''wal'' wal_plan of
                Inl line \<Rightarrow> (2, out @ [line])
              | Inr wal \<Rightarrow>
                  (let st = inspect_start out database wal;
                       st = say_number ''database_size'' (src_size database) st;
                       st = say_number ''wal_size'' (src_size wal) st
                   in inspect_finish (inspect_stages st))))"

end
