(* ===== verification/TL_InspectPredict.thy ===== *)
theory TL_InspectPredict
  imports TL_Inspect TL_Append
begin

text \<open>
  The prediction of \<open>verify\<close> against the library.  On a pair of files that is read without I/O errors, each
  stage of the tool finds what the corresponding stage of \<open>timelite_batches_open\<close> finds: the headers, the
  choice of the manifest, the chain of segments, the frames of the WAL.  The tool's predicted error is
  then the library's, and its predicted status the status after the recovery.
\<close>

section \<open>What printing leaves alone\<close>

lemma say_fields [simp]:
  "st_database (say key value st) = st_database st" "st_wal (say key value st) = st_wal st"
  "st_problems (say key value st) = st_problems st" "st_predicted_error (say key value st) = st_predicted_error st"
  "st_predicted_stage (say key value st) = st_predicted_stage st" "st_io_error (say key value st) = st_io_error st"
  "st_slots (say key value st) = st_slots st" "st_active (say key value st) = st_active st"
  "st_legacy (say key value st) = st_legacy st" "st_retention (say key value st) = st_retention st"
  "st_has_time (say key value st) = st_has_time st" "st_phase (say key value st) = st_phase st"
  "st_generation (say key value st) = st_generation st" "st_data_end (say key value st) = st_data_end st"
  "st_installed (say key value st) = st_installed st" "st_installed_time (say key value st) = st_installed_time st"
  "st_root (say key value st) = st_root st" "st_tail (say key value st) = st_tail st"
  "st_live (say key value st) = st_live st" "st_records (say key value st) = st_records st"
  "st_first_live (say key value st) = st_first_live st" "st_unreadable (say key value st) = st_unreadable st"
  "st_time_min (say key value st) = st_time_min st" "st_time_max (say key value st) = st_time_max st"
  "st_floor_time (say key value st) = st_floor_time st" "st_have_times (say key value st) = st_have_times st"
  "st_floor_known (say key value st) = st_floor_known st" "st_floor_source (say key value st) = st_floor_source st"
  "st_stale (say key value st) = st_stale st" "st_wal_ordered (say key value st) = st_wal_ordered st"
  "st_sequence (say key value st) = st_sequence st" "st_wal_end (say key value st) = st_wal_end st"
  "st_wal_frames (say key value st) = st_wal_frames st"
  "st_wal_first_sequence (say key value st) = st_wal_first_sequence st"
  "st_wal_first_time (say key value st) = st_wal_first_time st"
  "st_wal_last_time (say key value st) = st_wal_last_time st"
  by (simp_all add: say_def)

lemma say_number_fields [simp]:
  "st_database (say_number key number st) = st_database st" "st_wal (say_number key number st) = st_wal st"
  "st_problems (say_number key number st) = st_problems st"
  "st_predicted_error (say_number key number st) = st_predicted_error st"
  "st_predicted_stage (say_number key number st) = st_predicted_stage st"
  "st_io_error (say_number key number st) = st_io_error st" "st_slots (say_number key number st) = st_slots st"
  "st_active (say_number key number st) = st_active st" "st_legacy (say_number key number st) = st_legacy st"
  "st_retention (say_number key number st) = st_retention st"
  "st_has_time (say_number key number st) = st_has_time st" "st_phase (say_number key number st) = st_phase st"
  "st_generation (say_number key number st) = st_generation st"
  "st_data_end (say_number key number st) = st_data_end st"
  "st_installed (say_number key number st) = st_installed st"
  "st_installed_time (say_number key number st) = st_installed_time st"
  "st_root (say_number key number st) = st_root st" "st_tail (say_number key number st) = st_tail st"
  "st_live (say_number key number st) = st_live st" "st_records (say_number key number st) = st_records st"
  "st_first_live (say_number key number st) = st_first_live st"
  "st_unreadable (say_number key number st) = st_unreadable st"
  "st_time_min (say_number key number st) = st_time_min st" "st_time_max (say_number key number st) = st_time_max st"
  "st_floor_time (say_number key number st) = st_floor_time st"
  "st_have_times (say_number key number st) = st_have_times st"
  "st_floor_known (say_number key number st) = st_floor_known st"
  "st_floor_source (say_number key number st) = st_floor_source st"
  "st_stale (say_number key number st) = st_stale st" "st_wal_ordered (say_number key number st) = st_wal_ordered st"
  "st_sequence (say_number key number st) = st_sequence st" "st_wal_end (say_number key number st) = st_wal_end st"
  "st_wal_frames (say_number key number st) = st_wal_frames st"
  "st_wal_first_sequence (say_number key number st) = st_wal_first_sequence st"
  "st_wal_first_time (say_number key number st) = st_wal_first_time st"
  "st_wal_last_time (say_number key number st) = st_wal_last_time st"
  by (simp_all add: say_number_def)

lemma problem_fields [simp]:
  "st_database (inspect_problem st offset file detail) = st_database st"
  "st_wal (inspect_problem st offset file detail) = st_wal st"
  "st_predicted_error (inspect_problem st offset file detail) = st_predicted_error st"
  "st_predicted_stage (inspect_problem st offset file detail) = st_predicted_stage st"
  "st_io_error (inspect_problem st offset file detail) = st_io_error st"
  "st_slots (inspect_problem st offset file detail) = st_slots st"
  "st_active (inspect_problem st offset file detail) = st_active st"
  "st_legacy (inspect_problem st offset file detail) = st_legacy st"
  "st_retention (inspect_problem st offset file detail) = st_retention st"
  "st_has_time (inspect_problem st offset file detail) = st_has_time st"
  "st_phase (inspect_problem st offset file detail) = st_phase st"
  "st_generation (inspect_problem st offset file detail) = st_generation st"
  "st_data_end (inspect_problem st offset file detail) = st_data_end st"
  "st_installed (inspect_problem st offset file detail) = st_installed st"
  "st_installed_time (inspect_problem st offset file detail) = st_installed_time st"
  "st_root (inspect_problem st offset file detail) = st_root st"
  "st_tail (inspect_problem st offset file detail) = st_tail st"
  "st_live (inspect_problem st offset file detail) = st_live st"
  "st_records (inspect_problem st offset file detail) = st_records st"
  "st_first_live (inspect_problem st offset file detail) = st_first_live st"
  "st_unreadable (inspect_problem st offset file detail) = st_unreadable st"
  "st_time_min (inspect_problem st offset file detail) = st_time_min st"
  "st_time_max (inspect_problem st offset file detail) = st_time_max st"
  "st_floor_time (inspect_problem st offset file detail) = st_floor_time st"
  "st_have_times (inspect_problem st offset file detail) = st_have_times st"
  "st_floor_known (inspect_problem st offset file detail) = st_floor_known st"
  "st_floor_source (inspect_problem st offset file detail) = st_floor_source st"
  "st_stale (inspect_problem st offset file detail) = st_stale st"
  "st_wal_ordered (inspect_problem st offset file detail) = st_wal_ordered st"
  "st_sequence (inspect_problem st offset file detail) = st_sequence st"
  "st_wal_end (inspect_problem st offset file detail) = st_wal_end st"
  "st_wal_frames (inspect_problem st offset file detail) = st_wal_frames st"
  "st_wal_first_sequence (inspect_problem st offset file detail) = st_wal_first_sequence st"
  "st_wal_first_time (inspect_problem st offset file detail) = st_wal_first_time st"
  "st_wal_last_time (inspect_problem st offset file detail) = st_wal_last_time st"
  by (simp_all add: inspect_problem_def Let_def)

lemma predict_fields [simp]:
  "st_out (inspect_predict st error stage) = st_out st"
  "st_database (inspect_predict st error stage) = st_database st"
  "st_wal (inspect_predict st error stage) = st_wal st"
  "st_problems (inspect_predict st error stage) = st_problems st"
  "st_io_error (inspect_predict st error stage) = st_io_error st"
  "st_slots (inspect_predict st error stage) = st_slots st"
  "st_active (inspect_predict st error stage) = st_active st"
  "st_legacy (inspect_predict st error stage) = st_legacy st"
  "st_retention (inspect_predict st error stage) = st_retention st"
  "st_has_time (inspect_predict st error stage) = st_has_time st"
  "st_phase (inspect_predict st error stage) = st_phase st"
  "st_generation (inspect_predict st error stage) = st_generation st"
  "st_data_end (inspect_predict st error stage) = st_data_end st"
  "st_installed (inspect_predict st error stage) = st_installed st"
  "st_installed_time (inspect_predict st error stage) = st_installed_time st"
  "st_root (inspect_predict st error stage) = st_root st" "st_tail (inspect_predict st error stage) = st_tail st"
  "st_live (inspect_predict st error stage) = st_live st"
  "st_records (inspect_predict st error stage) = st_records st"
  "st_first_live (inspect_predict st error stage) = st_first_live st"
  "st_unreadable (inspect_predict st error stage) = st_unreadable st"
  "st_time_min (inspect_predict st error stage) = st_time_min st"
  "st_time_max (inspect_predict st error stage) = st_time_max st"
  "st_floor_time (inspect_predict st error stage) = st_floor_time st"
  "st_have_times (inspect_predict st error stage) = st_have_times st"
  "st_floor_known (inspect_predict st error stage) = st_floor_known st"
  "st_floor_source (inspect_predict st error stage) = st_floor_source st"
  "st_stale (inspect_predict st error stage) = st_stale st"
  "st_wal_ordered (inspect_predict st error stage) = st_wal_ordered st"
  "st_sequence (inspect_predict st error stage) = st_sequence st"
  "st_wal_end (inspect_predict st error stage) = st_wal_end st"
  "st_wal_frames (inspect_predict st error stage) = st_wal_frames st"
  "st_wal_first_sequence (inspect_predict st error stage) = st_wal_first_sequence st"
  "st_wal_first_time (inspect_predict st error stage) = st_wal_first_time st"
  "st_wal_last_time (inspect_predict st error stage) = st_wal_last_time st"
  by (simp_all add: inspect_predict_def)

lemma count_frame_fields [simp]:
  "st_out (inspect_count_frame st frame) = st_out st" "st_database (inspect_count_frame st frame) = st_database st"
  "st_wal (inspect_count_frame st frame) = st_wal st" "st_problems (inspect_count_frame st frame) = st_problems st"
  "st_predicted_error (inspect_count_frame st frame) = st_predicted_error st"
  "st_predicted_stage (inspect_count_frame st frame) = st_predicted_stage st"
  "st_io_error (inspect_count_frame st frame) = st_io_error st"
  "st_slots (inspect_count_frame st frame) = st_slots st" "st_active (inspect_count_frame st frame) = st_active st"
  "st_legacy (inspect_count_frame st frame) = st_legacy st"
  "st_retention (inspect_count_frame st frame) = st_retention st"
  "st_has_time (inspect_count_frame st frame) = st_has_time st"
  "st_phase (inspect_count_frame st frame) = st_phase st"
  "st_generation (inspect_count_frame st frame) = st_generation st"
  "st_data_end (inspect_count_frame st frame) = st_data_end st"
  "st_installed (inspect_count_frame st frame) = st_installed st"
  "st_installed_time (inspect_count_frame st frame) = st_installed_time st"
  "st_root (inspect_count_frame st frame) = st_root st" "st_tail (inspect_count_frame st frame) = st_tail st"
  "st_live (inspect_count_frame st frame) = st_live st"
  "st_first_live (inspect_count_frame st frame) = st_first_live st"
  "st_unreadable (inspect_count_frame st frame) = st_unreadable st"
  "st_floor_time (inspect_count_frame st frame) = st_floor_time st"
  "st_floor_known (inspect_count_frame st frame) = st_floor_known st"
  "st_floor_source (inspect_count_frame st frame) = st_floor_source st"
  "st_stale (inspect_count_frame st frame) = st_stale st"
  "st_wal_ordered (inspect_count_frame st frame) = st_wal_ordered st"
  "st_sequence (inspect_count_frame st frame) = st_sequence st"
  "st_wal_end (inspect_count_frame st frame) = st_wal_end st"
  "st_wal_frames (inspect_count_frame st frame) = st_wal_frames st"
  "st_wal_first_sequence (inspect_count_frame st frame) = st_wal_first_sequence st"
  "st_wal_first_time (inspect_count_frame st frame) = st_wal_first_time st"
  "st_wal_last_time (inspect_count_frame st frame) = st_wal_last_time st"
  by (simp_all add: inspect_count_frame_def Let_def)

lemma predict_result [simp]:
  "st_predicted_error (inspect_predict st error stage) =
     (case st_predicted_error st of None \<Rightarrow> Some error | Some e \<Rightarrow> Some e)"
  by (simp add: inspect_predict_def split: option.splits)

section \<open>The setting\<close>

text \<open>The tool's two sources and the library's two handles are on the same files, and no call fails.\<close>

definition inspecting :: "inspect_source \<Rightarrow> inspect_source \<Rightarrow> timelite_file \<Rightarrow> timelite_file \<Rightarrow> os \<Rightarrow> bool" where
  "inspecting db_src wal_src database wal w \<longleftrightarrow>
     sound_source db_src \<and> sound_source wal_src \<and> script w = [] \<and> is_opened w database \<and> is_opened w wal \<and>
     fdata w database = src_bytes db_src \<and> fdata w wal = src_bytes wal_src"

text \<open>A step that only prints and counts problems.\<close>

definition talks :: "inspect_state \<Rightarrow> inspect_state \<Rightarrow> bool" where
  "talks st st' \<longleftrightarrow> st'\<lparr>st_out := [], st_problems := 0\<rparr> = st\<lparr>st_out := [], st_problems := 0\<rparr>"

lemma talks_refl [intro]: "talks st st"
  by (simp add: talks_def)

lemma talks_say [intro]: "talks st st' \<Longrightarrow> talks st (say key value st')"
  by (simp add: talks_def say_def)

lemma talks_say_number [intro]: "talks st st' \<Longrightarrow> talks st (say_number key number st')"
  unfolding say_number_def by (rule talks_say)

lemma talks_problem [intro]: "talks st st' \<Longrightarrow> talks st (inspect_problem st' offset file detail)"
  by (simp add: talks_def inspect_problem_def say_number_def say_def Let_def)

lemma talks_if [intro]: "(c \<Longrightarrow> talks st x) \<Longrightarrow> (\<not> c \<Longrightarrow> talks st y) \<Longrightarrow> talks st (if c then x else y)"
  by simp

lemma talksE:
  assumes "talks st st'"
  obtains out problems where "st' = st\<lparr>st_out := out, st_problems := problems\<rparr>"
proof -
  have "st' = (st'\<lparr>st_out := [], st_problems := 0\<rparr>)\<lparr>st_out := st_out st', st_problems := st_problems st'\<rparr>" by simp
  also have "\<dots> = st\<lparr>st_out := st_out st', st_problems := st_problems st'\<rparr>"
    unfolding assms [unfolded talks_def] by simp
  finally show thesis by (rule that)
qed

lemma talks_fields:
  assumes "talks st st'"
  shows
    "st_database st' = st_database st" "st_wal st' = st_wal st" "st_predicted_error st' = st_predicted_error st"
    "st_predicted_stage st' = st_predicted_stage st" "st_io_error st' = st_io_error st" "st_slots st' = st_slots st"
    "st_active st' = st_active st" "st_legacy st' = st_legacy st" "st_retention st' = st_retention st"
    "st_has_time st' = st_has_time st" "st_phase st' = st_phase st" "st_generation st' = st_generation st"
    "st_data_end st' = st_data_end st" "st_installed st' = st_installed st"
    "st_installed_time st' = st_installed_time st" "st_root st' = st_root st" "st_tail st' = st_tail st"
    "st_live st' = st_live st" "st_records st' = st_records st" "st_first_live st' = st_first_live st"
    "st_unreadable st' = st_unreadable st" "st_time_min st' = st_time_min st" "st_time_max st' = st_time_max st"
    "st_floor_time st' = st_floor_time st" "st_have_times st' = st_have_times st"
    "st_floor_known st' = st_floor_known st" "st_floor_source st' = st_floor_source st" "st_stale st' = st_stale st"
    "st_wal_ordered st' = st_wal_ordered st" "st_sequence st' = st_sequence st" "st_wal_end st' = st_wal_end st"
    "st_wal_frames st' = st_wal_frames st" "st_wal_first_sequence st' = st_wal_first_sequence st"
    "st_wal_first_time st' = st_wal_first_time st" "st_wal_last_time st' = st_wal_last_time st"
  using assms by (auto elim!: talksE)

lemma talks_trans [trans]: "talks a b \<Longrightarrow> talks b c \<Longrightarrow> talks a c"
  by (simp add: talks_def)

section \<open>Headers\<close>

lemma pair_header_same:
  assumes "sound_source src" "src = (if wal then st_wal st else st_database st)" "script w = []" "is_opened w f"
    and "fdata w f = src_bytes src"
  obtains e h st' where "inspect_pair_header st wal label magic = ((e, h), st')" "talks st st'"
    "pair_header f magic w = (case e of None \<Rightarrow> Inr h | Some e \<Rightarrow> Inl e, w)"
proof -
  let ?D = "src_bytes src" and ?h = "block 0 32 (src_bytes src)"
  have set: "set_source wal src st = st" by (simp add: set_source_def assms(2))
  note read = inspect_read_sound [OF assms(1), of 0 32]
  have i: "in_off_t 0 12" "in_off_t 12 20" by (simp_all add: in_off_t_def)
  note lib = read_exact_quiet_any [OF assms(3,4) i(1)] read_exact_quiet_any [OF assms(3,4) i(2)]
  have t: "block 0 12 ?D = take 12 ?h" by (simp add: block_def)
  have s: "take 12 ?h @ block 12 20 ?D = ?h" using block_split [of 0 12 20 ?D] t by simp
  have L: "read_exact f 0 12 w = (if length ?h < 12 then Inl INVALID_DATABASE else Inr (take 12 ?h), w)"
    "read_exact f 12 20 w = (if length ?h < 32 then Inl INVALID_DATABASE else Inr (block 12 20 ?D), w)"
    using lib t by (auto simp: assms(5) length_block)
  have l12: "length ?h < 12 \<Longrightarrow> length ?h < 32" by simp
  have v: "decode32 (drop 8 (take 12 ?h)) = decode32 (drop 8 ?h)"
    using u32_codec.dec_block [of 4 8 ?h] by (simp add: block_def drop_take)
  have lib_eq: "pair_header f magic w =
    (if length ?h < 12 \<or> \<not> has_magic ?h magic \<or> decode32 (drop 8 ?h) = 0 then Inl INVALID_DATABASE
     else if decode32 (drop 8 ?h) \<noteq> 2 then Inl UNSUPPORTED_VERSION
     else if length ?h < 32 \<or> checksum ?h 28 \<noteq> decode32 (drop 28 ?h) then Inl INVALID_DATABASE
     else Inr ?h, w)"
    using l12 by (simp add: pair_header_def io_bind_def L Let_def has_magic_take v s del: drop_append)
  show thesis
  proof (rule that)
    let ?r = "inspect_pair_header st wal label magic"
    show "?r = ((fst (fst ?r), snd (fst ?r)), snd ?r)" by simp
    show "talks st (snd ?r)"
      unfolding inspect_pair_header_def assms(2) [symmetric] read by (auto simp: set Let_def)
    show "pair_header f magic w = (case fst (fst ?r) of None \<Rightarrow> Inr (snd (fst ?r)) | Some e \<Rightarrow> Inl e, w)"
      unfolding inspect_pair_header_def assms(2) [symmetric] read lib_eq by (simp add: set Let_def)
  qed
qed

text \<open>The two headers and the pair identity, as the library's open checks them.\<close>

definition pair_check :: "timelite_file \<Rightarrow> timelite_file \<Rightarrow> os \<Rightarrow> (error + unit) \<times> os" where
  "pair_check database wal =
     io_bind (pair_header database ''TIMELITE'') (\<lambda>header.
     io_bind (pair_header wal ''TIMEWAL!'') (\<lambda>wal_header w.
       if block 12 16 header \<noteq> block 12 16 wal_header then (Inl PAIR_MISMATCH, w) else (Inr (), w)))"

text \<open>A stage of the tool and a stage of the library with the same verdict.\<close>

definition agrees :: "inspect_state \<Rightarrow> error + 'a \<Rightarrow> bool" where
  "agrees st r \<longleftrightarrow> st_predicted_error st = (case r of Inl e \<Rightarrow> Some e | Inr _ \<Rightarrow> None)"

lemma headers_same:
  assumes "inspecting (st_database st) (st_wal st) database wal w" "st_predicted_error st = None"
  obtains r st' stage where "pair_check database wal w = (r, w)" "talks st st'"
    "inspect_headers st = (case r of Inl e \<Rightarrow> inspect_predict st' e stage | Inr _ \<Rightarrow> st')"
proof -
  note i = assms(1) [unfolded inspecting_def]
  obtain e h u where 1: "inspect_pair_header st False ''database'' ''TIMELITE'' = ((e, h), u)" "talks st u"
    "pair_header database ''TIMELITE'' w = (case e of None \<Rightarrow> Inr h | Some e \<Rightarrow> Inl e, w)"
    by (rule pair_header_same [of "st_database st" False st w database "''database''" "''TIMELITE''"]) (use i in auto)
  note u = talks_fields [OF 1(2)]
  obtain e' h' v where 2: "inspect_pair_header u True ''wal'' ''TIMEWAL!'' = ((e', h'), v)" "talks u v"
    "pair_header wal ''TIMEWAL!'' w = (case e' of None \<Rightarrow> Inr h' | Some e \<Rightarrow> Inl e, w)"
    by (rule pair_header_same [of "st_wal st" True u w wal "''wal''" "''TIMEWAL!''"]) (use i u in auto)
  have v: "talks st v" using 1(2) 2(2) by (rule talks_trans)
  show thesis
  proof (cases e)
    case (Some err)
    then show thesis
      by (intro that [of "Inl err" u "''database header''"])
        (simp_all add: pair_check_def io_bind_def inspect_headers_def 1)
  next
    case None
    show thesis
    proof (cases e')
      case (Some err)
      then show thesis using None v
        by (intro that [of "Inl err" v "''wal header''"])
          (simp_all add: pair_check_def io_bind_def inspect_headers_def 1 2)
    next
      case none: None
      show thesis
      proof (cases "block 12 16 h = block 12 16 h'")
        case True
        then show thesis using None none v
          by (intro that [of "Inr ()" "say ''pair_identity'' ''match'' v"])
            (auto simp: pair_check_def io_bind_def inspect_headers_def 1 2)
      next
        case False
        then show thesis using None none v
          by (intro that [of "Inl PAIR_MISMATCH" "inspect_problem (say ''pair_identity'' ''mismatch'' v) 12 ''wal''
                ''identity differs from the database identity''" "''pair identity''"])
            (auto simp: pair_check_def io_bind_def inspect_headers_def 1 2)
      qed
    qed
  qed
qed

section \<open>The choice of the manifest\<close>

text \<open>The slot the tool has chosen so far, as the library keeps it.\<close>

definition chosen :: "inspect_state \<Rightarrow> u64 \<Rightarrow> bool \<times> manifest_view" where
  "chosen st z =
     (case st_active st of
        None \<Rightarrow> (False, empty_view z)
      | Some a \<Rightarrow> (True, slot_view (st_slots st ! a) (empty_view z)))"

lemma slot_view_again [simp]: "slot_view s (slot_view s' v) = slot_view s v"
  by (simp add: slot_view_def)

lemma parity_slot_valid:
  assumes "length got \<le> 64"
  shows "sl_valid (parity_slot index got z) \<longleftrightarrow>
    length got = 64 \<and> slot_fields got z \<noteq> None \<and> decode64 (drop 8 got) AND 1 = of_nat index"
    "sl_valid (parity_slot index got z) \<Longrightarrow> parity_slot index got z = inspect_slot_parse got z"
proof -
  show v: "sl_valid (parity_slot index got z) \<longleftrightarrow>
    length got = 64 \<and> slot_fields got z \<noteq> None \<and> decode64 (drop 8 got) AND 1 = of_nat index"
  proof (cases "length got = 64 \<and> sl_valid (inspect_slot_parse got z)")
    case True
    then show ?thesis using slot_parse_fields(1,2) [of got z] slot_parse_valid [of got z]
      by (auto simp: parity_slot_def Let_def)
  next
    case False
    then show ?thesis using assms slot_parse_valid [of got z]
      by (auto simp: parity_slot_def Let_def)
  qed
  show "sl_valid (parity_slot index got z) \<Longrightarrow> parity_slot index got z = inspect_slot_parse got z"
    by (auto simp: parity_slot_def Let_def split: if_splits)
qed

lemma consider_parity_slot:
  fixes index :: nat and z :: u64
  assumes "length got \<le> 64"
  defines "s \<equiv> parity_slot index got z"
  shows "consider_slot index got z (found, v) =
    (if sl_valid s \<and> (\<not> found \<or> sl_revision s > rs_revision (mv_state v)) then (True, slot_view s v)
     else (found \<or> sl_valid s, v))"
proof (cases "sl_valid s")
  case False
  then have "\<not> (length got = 64 \<and> slot_fields got z \<noteq> None \<and> decode64 (drop 8 got) AND 1 = of_nat index)"
    using parity_slot_valid(1) [OF assms(1)] by (simp add: s_def)
  then show ?thesis using False by (auto simp: consider_slot_def Let_def split: option.splits)
next
  case True
  note p = parity_slot_valid [OF assms(1), of index z, folded s_def]
  have s: "s = inspect_slot_parse got z" "sl_valid (inspect_slot_parse got z)" using p(2) True by auto
  note f = slot_parse_fields [OF s(2), folded s(1)]
  have "length got = 64" "decode64 (drop 8 got) AND 1 = of_nat index" using p(1) True by auto
  then show ?thesis using True f
    by (auto simp: consider_slot_def slot_view_def Let_def)
qed

lemma slot_read_same:
  fixes index :: nat
  assumes "sound_source (st_database st)" "index < length (st_slots st)" "index < 2"
    and "\<And>a. st_active st = Some a \<Longrightarrow> a < index"
  defines "got \<equiv> block (32 + 64 * index) 64 (src_bytes (st_database st))"
    and "z \<equiv> src_size (st_database st)"
  shows "\<exists>active. inspect_slot_read index st =
      st\<lparr>st_slots := (st_slots st)[index := parity_slot index got z], st_active := active\<rparr> \<and>
      (active = st_active st \<or> active = Some index \<and> sl_valid (parity_slot index got z))"
    and "chosen (inspect_slot_read index st) z = consider_slot index got z (chosen st z)"
proof -
  have o: "unat (32 + 64 * of_nat index :: u64) = 32 + 64 * index"
  proof -
    have "index = 0 \<or> index = 1" using assms(3) by linarith
    then show ?thesis by (elim disjE) simp_all
  qed
  have read: "inspect_read (st_database st) (32 + 64 * of_nat index) 64 = (Some got, st_database st)"
    using inspect_read_sound [OF assms(1)] by (simp add: got_def o)
  define slots where "slots = (st_slots st)[index := parity_slot index got z]"
  define new where "new \<longleftrightarrow> sl_valid (parity_slot index got z) \<and> (case st_active st of None \<Rightarrow> True
      | Some a \<Rightarrow> sl_revision (parity_slot index got z) > sl_revision (slots ! a))"
  have eq: "inspect_slot_read index st = st\<lparr>st_slots := slots, st_active := (if new then Some index else st_active st)\<rparr>"
    by (cases "st_active st") (simp_all add: inspect_slot_read_def read new_def slots_def z_def Let_def)
  then show "\<exists>active. inspect_slot_read index st =
      st\<lparr>st_slots := (st_slots st)[index := parity_slot index got z], st_active := active\<rparr> \<and>
      (active = st_active st \<or> active = Some index \<and> sl_valid (parity_slot index got z))"
    by (intro exI [of _ "if new then Some index else st_active st"]) (auto simp: slots_def new_def)
  have len: "length got \<le> 64" by (simp add: got_def length_block)
  show "chosen (inspect_slot_read index st) z = consider_slot index got z (chosen st z)"
  proof (cases "st_active st")
    case None
    then show ?thesis using consider_parity_slot [OF len, of index z False "empty_view z"] assms(2)
      by (auto simp: eq chosen_def slots_def new_def)
  next
    case (Some a)
    then have a: "slots ! a = st_slots st ! a" using assms(4) by (simp add: slots_def)
    have r: "rs_revision (mv_state (slot_view (st_slots st ! a) (empty_view z))) = sl_revision (st_slots st ! a)"
      by (simp add: slot_view_def)
    show ?thesis
      using consider_parity_slot [OF len, of index z True "slot_view (st_slots st ! a) (empty_view z)"] assms(2) Some a r
      by (auto simp: eq chosen_def new_def) (simp_all add: slots_def)
  qed
qed

lemma slot_report_talks: "talks st st' \<Longrightarrow> talks st (inspect_slot_report index st')"
  unfolding inspect_slot_report_def Let_def
  by (intro talks_if talks_problem talks_say talks_say_number)

text \<open>What the library reads from the manifests, in the fields of the tool's state.\<close>

definition state_view :: "inspect_state \<Rightarrow> u64 \<Rightarrow> manifest_view" where
  "state_view st revision =
     \<lparr>mv_legacy = st_legacy st, mv_generation = st_generation st, mv_data_end = st_data_end st,
      mv_last = st_installed st, mv_last_time = st_installed_time st, mv_tail = st_tail st,
      mv_has_time = st_has_time st,
      mv_state = \<lparr>rs_revision = revision, rs_root = st_root st, rs_phase = st_phase st, rs_enabled = st_retention st\<rparr>\<rparr>"

text \<open>The state before the stage, and what a stage up to the manifests does not touch.\<close>

definition fresh_state :: "inspect_state \<Rightarrow> bool" where
  "fresh_state st \<longleftrightarrow>
     st_predicted_error st = None \<and> \<not> st_io_error st \<and> length (st_slots st) = 2 \<and> st_active st = None \<and>
     \<not> st_retention st \<and> \<not> st_has_time st \<and> st_phase st = 0 \<and> st_generation st = 0 \<and> st_data_end st = 160 \<and>
     st_installed st = 0 \<and> st_installed_time st = 0 \<and> st_root st = 160 \<and> st_tail st = 0 \<and>
     st_live st = 0 \<and> \<not> st_stale st"

text \<open>The ranges a chosen manifest keeps.\<close>

definition manifest_bounds :: "inspect_state \<Rightarrow> bool" where
  "manifest_bounds st \<longleftrightarrow>
     unat (st_generation st) < 2 ^ 24 \<and> unat (st_data_end st) \<le> 2 ^ 30 \<and>
     (st_generation st = 0 \<longrightarrow> st_root st = st_data_end st \<and> st_tail st = 0 \<and>
       (\<not> st_retention st \<longrightarrow> st_installed st = 0) \<and> (\<not> st_has_time st \<longrightarrow> st_installed_time st = 0))"

lemma slot_bounds:
  assumes "sl_valid (inspect_slot_parse m z)"
  defines "s \<equiv> inspect_slot_parse m z"
  shows "unat (sl_count s) < 2 ^ 24 \<and> unat (sl_data_end s) \<le> 2 ^ 30 \<and>
    (sl_count s = 0 \<longrightarrow> sl_root s = sl_data_end s \<and> sl_tail s = 0 \<and> (\<not> sl_retention s \<longrightarrow> sl_last s = 0) \<and>
       (\<not> sl_has_time s \<longrightarrow> sl_last_time s = 0))"
proof (cases "sl_retention s")
  case True
  note f = slot_parse_fields [OF assms(1), folded s_def]
  have "retention_manifest m z"
    using f(3,5) True magic_distinct [of m] by (auto simp: slot_fields_def check_manifest_def split: if_splits)
  moreover have "sl_data_end s = decode64 (drop 16 m)" "sl_count s = ucast (decode32 (drop 52 m))"
    using f(3) \<open>retention_manifest m z\<close> by (simp_all add: slot_fields_def)
  ultimately have e: "sl_data_end s \<le> TIMELITE_DATABASE_CAPACITY" "sl_root s \<le> sl_data_end s"
    "sl_count s \<le> (sl_data_end s - sl_root s) div 116"
    "if sl_count s \<noteq> 0 then sl_tail s \<ge> sl_root s \<and> sl_tail s < sl_data_end s else sl_tail s = 0 \<and> sl_root s = sl_data_end s"
    using f(6,8) True by (simp_all add: retention_manifest_def Let_def)
  have d: "unat (sl_data_end s) \<le> 2 ^ 30" using e(1) by (simp add: word_le_nat_alt)
  have "unat (sl_count s) \<le> unat (sl_data_end s - sl_root s) div 116"
    using e(3) by (simp add: word_le_nat_alt unat_div)
  also have "\<dots> \<le> 2 ^ 30 div 116" using d e(2) by (intro div_le_mono) (simp add: u64_arith)
  finally have "unat (sl_count s) < 2 ^ 24" by simp
  then show ?thesis using d e(4) f(7) True by simp
next
  case False
  note f = slot_parse_fields [OF assms(1), folded s_def]
  have c: "check_manifest m z = Some (sl_count s, sl_data_end s, sl_last s)"
    using f(3,5) False by (auto simp: slot_fields_def retention_manifest_def Let_def split: if_splits)
  then have e: "sl_data_end s \<le> TIMELITE_DATABASE_CAPACITY"
    "sl_count s \<noteq> 0 \<longrightarrow> sl_count s \<le> (TIMELITE_DATABASE_CAPACITY - 160) div 116"
    "sl_count s = 0 \<longrightarrow> sl_data_end s = 160 \<and> sl_last s = 0 \<and> block 32 28 m = replicate 28 0"
    by (auto simp: check_manifest_def Let_def not_less split: if_splits)
  have d: "unat (sl_data_end s) \<le> 2 ^ 30" using e(1) by (simp add: word_le_nat_alt)
  have n: "unat (sl_count s) < 2 ^ 24" using e(2) by (cases "sl_count s = 0") (simp_all add: word_le_nat_alt unat_div)
  have "decode64 (drop 40 m) = 0 \<and> decode64 (drop 32 m) = 0" if "sl_count s = 0"
  proof -
    have b: "block 32 28 m = replicate 28 0" using e(3) that by simp
    have "decode64 (drop 32 m) = decode64 (block 32 28 m)" "decode64 (drop 40 m) = decode64 (drop 8 (block 32 28 m))"
      using u64_codec.dec_block [of 28 32 m] u64_codec.dec_block [of 20 40 m] by (simp_all add: block_def drop_take)
    then show ?thesis unfolding b by (simp add: decode64_def upt_rec numeral_eq_Suc)
  qed
  then show ?thesis using d n e(3) f(4,6,8) False by auto
qed

lemma read_slot_quiet:
  assumes "script w = []" "is_opened w f" "index < 2"
  shows "read_slot f index w = (Inr (block (32 + 64 * index) 64 (fdata w f)), w)"
proof -
  have "index = 0 \<or> index = 1" using assms(3) by linarith
  then have o: "unat (32 + 64 * of_nat index :: u64) = 32 + 64 * index" by (elim disjE) simp_all
  then have "in_off_t (32 + 64 * of_nat index) 64" using assms(3) by (simp add: in_off_t_def)
  then show ?thesis using posix_live.rd_quiet [OF assms(1,2)] o by (simp add: read_slot_def posix_read_def)
qed

text \<open>Both slots read, before anything is reported.\<close>

lemma slots_read_same:
  assumes "sound_source (st_database st)" "length (st_slots st) = 2" "st_active st = None"
    and "script w = []" "is_opened w database" "fdata w database = src_bytes (st_database st)"
  defines "z \<equiv> src_size (st_database st)"
  obtains slots active where
    "inspect_slot_read 1 (inspect_slot_read 0 st) = st\<lparr>st_slots := slots, st_active := active\<rparr>"
    "inspect_slot_read 0 st = st\<lparr>st_slots := st_slots (inspect_slot_read 0 st), st_active := st_active (inspect_slot_read 0 st)\<rparr>"
    "\<And>a. active = Some a \<Longrightarrow> \<exists>got. slots ! a = inspect_slot_parse got z \<and> sl_valid (inspect_slot_parse got z)"
    "z \<noteq> 32 \<Longrightarrow> read_manifests database z w =
      (case active of
         None \<Rightarrow> if z > 160 then Inl INVALID_DATABASE else Inr (empty_view z)
       | Some a \<Rightarrow> Inr (slot_view (slots ! a) (empty_view z)), w)"
proof -
  let ?got = "\<lambda>i. block (32 + 64 * i) 64 (src_bytes (st_database st))"
  obtain a0 where s0: "inspect_slot_read 0 st = st\<lparr>st_slots := (st_slots st)[0 := parity_slot 0 (?got 0) z], st_active := a0\<rparr>"
    "a0 = st_active st \<or> a0 = Some 0 \<and> sl_valid (parity_slot 0 (?got 0) z)"
    using slot_read_same(1) [OF assms(1), of 0] assms(2,3) unfolding z_def by auto
  note c0 = slot_read_same(2) [OF assms(1), of 0, folded z_def]
  define u where "u = inspect_slot_read 0 st"
  have u: "st_database u = st_database st" "length (st_slots u) = 2" "st_active u = a0" using s0(1) assms(2) by (simp_all add: u_def)
  have a0: "\<And>a. st_active u = Some a \<Longrightarrow> a < 1" using s0(2) u(3) assms(3) by auto
  obtain a1 where s1: "inspect_slot_read 1 u = u\<lparr>st_slots := (st_slots u)[1 := parity_slot 1 (?got 1) z], st_active := a1\<rparr>"
    "a1 = st_active u \<or> a1 = Some 1 \<and> sl_valid (parity_slot 1 (?got 1) z)"
    using slot_read_same(1) [of u 1] assms(1) u a0 unfolding z_def by auto
  note c1 = slot_read_same(2) [of u 1, unfolded u(1), folded z_def]
  have len: "length (?got i) \<le> 64" for i by (simp add: length_block)
  define slots where "slots = st_slots (inspect_slot_read 1 u)"
  have sl: "slots ! 0 = parity_slot 0 (?got 0) z" "slots ! 1 = parity_slot 1 (?got 1) z"
    using s0 s1 assms(2) u(2) by (auto simp: slots_def u_def)
  show thesis
  proof (rule that [of a1 slots])
    show "inspect_slot_read 1 (inspect_slot_read 0 st) = st\<lparr>st_slots := slots, st_active := a1\<rparr>"
      using s0(1) s1(1) by (simp add: u_def slots_def)
    show "inspect_slot_read 0 st = st\<lparr>st_slots := st_slots (inspect_slot_read 0 st), st_active := st_active (inspect_slot_read 0 st)\<rparr>"
      using s0(1) by simp
    fix a assume "a1 = Some a"
    then have "a = 0 \<and> sl_valid (parity_slot 0 (?got 0) z) \<or> a = 1 \<and> sl_valid (parity_slot 1 (?got 1) z)"
      using s0(2) s1(2) u(3) assms(3) by auto
    then have "slots ! a = parity_slot a (?got a) z \<and> sl_valid (parity_slot a (?got a) z)" using sl by auto
    then show "\<exists>got. slots ! a = inspect_slot_parse got z \<and> sl_valid (inspect_slot_parse got z)"
      using parity_slot_valid(2) [OF len] by metis
  next
    assume z: "z \<noteq> 32"
    have "read_slot database i w = (Inr (?got i), w)" if "i < 2" for i
      using read_slot_quiet [OF assms(4,5) that] assms(6) by simp
    then have r: "read_slot database 0 w = (Inr (?got 0), w)" "read_slot database 1 w = (Inr (?got 1), w)" by simp_all
    have "chosen (inspect_slot_read 1 u) z = consider_slot 1 (?got 1) z (consider_slot 0 (?got 0) z (False, empty_view z))"
      using c0 c1 assms(1-3) u a0 by (simp add: u_def chosen_def)
    then have "read_manifests database z w =
        (let (found, v) = chosen (inspect_slot_read 1 u) z
         in (if \<not> found \<and> z > 160 then Inl INVALID_DATABASE else Inr v, w))"
      using z r by (simp add: read_manifests_def io_bind_def Let_def split: prod.split)
    moreover have "st_active (inspect_slot_read 1 u) = a1" using s1(1) by simp
    ultimately show "read_manifests database z w =
      (case a1 of
         None \<Rightarrow> if z > 160 then Inl INVALID_DATABASE else Inr (empty_view z)
       | Some a \<Rightarrow> Inr (slot_view (slots ! a) (empty_view z)), w)"
      by (simp add: chosen_def slots_def split: option.splits)
  qed
qed

definition activate :: "inspect_slot \<Rightarrow> inspect_state \<Rightarrow> inspect_state" where
  "activate a st =
     st\<lparr>st_generation := sl_count a, st_data_end := sl_data_end a, st_installed := sl_last a,
        st_installed_time := sl_last_time a, st_has_time := sl_has_time a, st_retention := sl_retention a,
        st_root := sl_root a, st_tail := sl_tail a,
        st_phase := (if sl_retention a then sl_phase a else 0)\<rparr>"

lemma talks_activate: "talks st st' \<Longrightarrow> talks (activate a st) (activate a st')"
  by (erule talksE) (simp add: talks_def activate_def)

lemma active_talks: "talks (activate (st_slots st ! index) st) (inspect_active index st)"
  unfolding inspect_active_def Let_def say_fields say_number_fields
  unfolding activate_def [symmetric]
  by (intro talks_if talks_say talks_say_number talks_activate talks_refl)

lemma choice_same:
  assumes "inspecting (st_database st) (st_wal st) database wal w" "fresh_state st" "src_size (st_database st) = z" "z \<noteq> 32"
    and "\<not> st_legacy st"
  defines "st' \<equiv> inspect_choice st"
  obtains r where "read_manifests database z w = (r, w)" "agrees st' r"
    "\<And>v. r = Inr v \<Longrightarrow> (\<exists>revision. v = state_view st' revision) \<and> manifest_bounds st'"
    "st_database st' = st_database st" "st_wal st' = st_wal st" "\<not> st_io_error st'" "st_live st' = st_live st"
    "st_stale st' = st_stale st" "st_wal_last_time st' = st_wal_last_time st"
proof -
  note i = assms(1) [unfolded inspecting_def] and fresh = assms(2) [unfolded fresh_state_def] and z = assms(3)
  from i fresh obtain slots active where r:
    "inspect_slot_read 1 (inspect_slot_read 0 st) = st\<lparr>st_slots := slots, st_active := active\<rparr>"
    "inspect_slot_read 0 st = st\<lparr>st_slots := st_slots (inspect_slot_read 0 st), st_active := st_active (inspect_slot_read 0 st)\<rparr>"
    "\<And>a. active = Some a \<Longrightarrow> \<exists>got. slots ! a = inspect_slot_parse got z \<and> sl_valid (inspect_slot_parse got z)"
    "read_manifests database z w = (case active of None \<Rightarrow> if z > 160 then Inl INVALID_DATABASE else Inr (empty_view z)
       | Some a \<Rightarrow> Inr (slot_view (slots ! a) (empty_view z)), w)"
    using slots_read_same [of st w database] assms(4) unfolding z by metis
  have io: "\<not> st_io_error (inspect_slot_read 0 st)" using fresh by (subst r(2)) simp
  define s2 where "s2 = inspect_slot_report 1 (inspect_slot_report 0 (st\<lparr>st_slots := slots, st_active := active\<rparr>))"
  have "talks (st\<lparr>st_slots := slots, st_active := active\<rparr>) s2"
    unfolding s2_def by (intro slot_report_talks talks_refl)
  note t = talks_fields [OF this, simplified]
  have "inspect_choice st =
    (let st = inspect_slot_report 1 (inspect_slot_report 0 (st\<lparr>st_slots := slots, st_active := active\<rparr>));
         st = (case st_active st of
                 None \<Rightarrow>
                   (let st = say ''active_slot'' ''none'' st
                    in if src_size (st_database st) > 160
                       then inspect_predict (inspect_problem st 32 ''database''
                              ''no valid manifest slot in a database larger than 160 bytes'') INVALID_DATABASE ''manifests''
                       else say ''manifest'' ''none (database of at most 160 bytes is treated as empty)'' st)
               | Some index \<Rightarrow> inspect_active index st)
     in say_number ''database_logical_end'' (st_data_end st) st)"
    using io fresh by (simp add: inspect_choice_def r(1) [simplified])
  then have st': "st' =
    (let st = (case active of
                 None \<Rightarrow>
                   (let st = say ''active_slot'' ''none'' s2
                    in if z > 160
                       then inspect_predict (inspect_problem st 32 ''database''
                              ''no valid manifest slot in a database larger than 160 bytes'') INVALID_DATABASE ''manifests''
                       else say ''manifest'' ''none (database of at most 160 bytes is treated as empty)'' st)
               | Some index \<Rightarrow> inspect_active index s2)
     in say_number ''database_logical_end'' (st_data_end st) st)"
    unfolding st'_def s2_def [symmetric] using t z by (cases active) (simp_all add: Let_def)
  show thesis
  proof (cases active)
    case None
    show thesis
    proof (cases "z > 160")
      case True
      have e: "st' = say_number ''database_logical_end'' (st_data_end s2)
          (inspect_predict (inspect_problem (say ''active_slot'' ''none'' s2) 32 ''database''
             ''no valid manifest slot in a database larger than 160 bytes'') INVALID_DATABASE ''manifests'')"
        using None True by (simp add: st' Let_def)
      have f: "st_database st' = st_database st" "st_wal st' = st_wal st" "\<not> st_io_error st'" "st_live st' = st_live st"
        "st_stale st' = st_stale st" "st_wal_last_time st' = st_wal_last_time st" "st_predicted_error st' = Some INVALID_DATABASE"
        unfolding e say_number_fields predict_fields predict_result problem_fields say_fields t using fresh by simp_all
      show thesis
        by (rule that [of "Inl INVALID_DATABASE"]) (use None True r(4) f in \<open>auto simp: agrees_def\<close>)
    next
      case False
      have e: "st' = say_number ''database_logical_end'' (st_data_end s2)
          (say ''manifest'' ''none (database of at most 160 bytes is treated as empty)'' (say ''active_slot'' ''none'' s2))"
        using None False by (simp add: st' Let_def)
      have f: "st_database st' = st_database st" "st_wal st' = st_wal st" "\<not> st_io_error st'" "st_live st' = st_live st"
        "st_stale st' = st_stale st" "st_wal_last_time st' = st_wal_last_time st" "st_predicted_error st' = None"
        unfolding e say_number_fields say_fields t using fresh by simp_all
      have v: "empty_view z = state_view st' 0" "manifest_bounds st'"
        unfolding e state_view_def manifest_bounds_def say_number_fields say_fields t
        using fresh assms(4,5) by (simp_all add: empty_view_def)
      show thesis
        by (rule that [of "Inr (empty_view z)"]) (use None False r(4) f v in \<open>auto simp: agrees_def\<close>)
    qed
  next
    case (Some a)
    then obtain got where got: "slots ! a = inspect_slot_parse got z" "sl_valid (inspect_slot_parse got z)" using r(3) by blast
    note b = slot_bounds [OF got(2), folded got(1)]
    have ph: "\<not> sl_retention (slots ! a) \<Longrightarrow> sl_phase (slots ! a) = 0" using slot_parse_fields(9) [OF got(2)] got(1) by simp
    have "talks (activate (slots ! a) s2) (inspect_active a s2)" using active_talks [of s2 a] t by simp
    note u = talks_fields [OF this, unfolded activate_def, simplified]
    have e: "st' = say_number ''database_logical_end'' (st_data_end (inspect_active a s2)) (inspect_active a s2)"
      using Some by (simp add: st' Let_def)
    have f: "st_database st' = st_database st" "st_wal st' = st_wal st" "\<not> st_io_error st'" "st_live st' = st_live st"
      "st_stale st' = st_stale st" "st_wal_last_time st' = st_wal_last_time st" "st_predicted_error st' = None"
      "\<not> st_legacy st'" unfolding e say_number_fields u t using fresh assms(5) by simp_all
    have g: "st_generation st' = sl_count (slots ! a)" "st_data_end st' = sl_data_end (slots ! a)"
      "st_installed st' = sl_last (slots ! a)" "st_installed_time st' = sl_last_time (slots ! a)"
      "st_has_time st' = sl_has_time (slots ! a)" "st_retention st' = sl_retention (slots ! a)"
      "st_root st' = sl_root (slots ! a)" "st_tail st' = sl_tail (slots ! a)" "st_phase st' = sl_phase (slots ! a)"
      unfolding e say_number_fields u using ph by simp_all
    have v: "slot_view (slots ! a) (empty_view z) = state_view st' (sl_revision (slots ! a))"
      using assms(4) f(8) by (simp add: state_view_def slot_view_def empty_view_def g)
    have "manifest_bounds st'" using b unfolding manifest_bounds_def g by simp
    then show thesis
      by (intro that [of "Inr (slot_view (slots ! a) (empty_view z))"])
        (use Some r(4) f v in \<open>auto simp: agrees_def\<close>)
  qed
qed

lemma manifests_same:
  assumes "inspecting (st_database st) (st_wal st) database wal w" "fresh_state st"
  defines "z \<equiv> src_size (st_database st)" and "st' \<equiv> inspect_manifests st"
  obtains r where "read_manifests database z w = (r, w)" "agrees st' r"
    "\<And>v. r = Inr v \<Longrightarrow> (\<exists>revision. v = state_view st' revision) \<and> manifest_bounds st'"
    "st_database st' = st_database st" "st_wal st' = st_wal st" "\<not> st_io_error st'" "st_live st' = st_live st"
    "st_stale st' = st_stale st" "st_wal_last_time st' = st_wal_last_time st"
proof -
  note fresh = assms(2) [unfolded fresh_state_def]
  define s1 where "s1 = say ''database_layout'' (if z = 32 then ''legacy-004'' else ''manifest'') (st\<lparr>st_legacy := (z = 32)\<rparr>)"
  show thesis
  proof (cases "z = 32")
    case True
    then have "st' = say_number ''database_logical_end'' (st_data_end s1)
                (say ''manifest'' ''legacy-004 (32-byte database, nothing installed)'' (say ''active_slot'' ''none'' s1))"
      by (simp add: st'_def inspect_manifests_def s1_def z_def Let_def)
    then show thesis using True fresh
      by (intro that [of "Inr (empty_view z)"])
        (auto simp: read_manifests_def agrees_def state_view_def empty_view_def s1_def manifest_bounds_def intro!: exI [of _ 0])
  next
    case False
    have s1: "inspecting (st_database s1) (st_wal s1) database wal w" "fresh_state s1" "src_size (st_database s1) = z" "\<not> st_legacy s1"
      using assms(1,2) False by (simp_all add: s1_def fresh_state_def z_def)
    have e: "st' = inspect_choice s1" using False by (simp add: st'_def inspect_manifests_def s1_def z_def Let_def)
    have f: "st_database s1 = st_database st" "st_wal s1 = st_wal st" "st_live s1 = st_live st"
      "st_stale s1 = st_stale st" "st_wal_last_time s1 = st_wal_last_time st" by (simp_all add: s1_def)
    show thesis
      by (rule choice_same [OF s1(1-3) False s1(4)], rule that) (simp_all add: e f)
  qed
qed

end
