(* ===== verification/TL_InspectChain.thy ===== *)
theory TL_InspectChain
  imports TL_InspectPredict
begin

text \<open>
  The stage of \<open>verify\<close> over the installed segments against \<open>check_segments\<close> of the library, for
  manifests that record a timestamp.  The tool walks the same chain and applies the same checks, but reads
  every frame on the way and goes on after a mismatch.
\<close>

section \<open>Checks and what the loops leave alone\<close>

lemma mismatch_fields [simp]:
  "st_database (inspect_mismatch c offset file detail stage st) = st_database st"
  "st_wal (inspect_mismatch c offset file detail stage st) = st_wal st"
  "st_io_error (inspect_mismatch c offset file detail stage st) = st_io_error st"
  "st_slots (inspect_mismatch c offset file detail stage st) = st_slots st"
  "st_active (inspect_mismatch c offset file detail stage st) = st_active st"
  "st_legacy (inspect_mismatch c offset file detail stage st) = st_legacy st"
  "st_retention (inspect_mismatch c offset file detail stage st) = st_retention st"
  "st_has_time (inspect_mismatch c offset file detail stage st) = st_has_time st"
  "st_phase (inspect_mismatch c offset file detail stage st) = st_phase st"
  "st_generation (inspect_mismatch c offset file detail stage st) = st_generation st"
  "st_data_end (inspect_mismatch c offset file detail stage st) = st_data_end st"
  "st_installed (inspect_mismatch c offset file detail stage st) = st_installed st"
  "st_installed_time (inspect_mismatch c offset file detail stage st) = st_installed_time st"
  "st_root (inspect_mismatch c offset file detail stage st) = st_root st"
  "st_tail (inspect_mismatch c offset file detail stage st) = st_tail st"
  "st_live (inspect_mismatch c offset file detail stage st) = st_live st"
  "st_records (inspect_mismatch c offset file detail stage st) = st_records st"
  "st_first_live (inspect_mismatch c offset file detail stage st) = st_first_live st"
  "st_unreadable (inspect_mismatch c offset file detail stage st) = st_unreadable st"
  "st_time_min (inspect_mismatch c offset file detail stage st) = st_time_min st"
  "st_time_max (inspect_mismatch c offset file detail stage st) = st_time_max st"
  "st_floor_time (inspect_mismatch c offset file detail stage st) = st_floor_time st"
  "st_have_times (inspect_mismatch c offset file detail stage st) = st_have_times st"
  "st_floor_known (inspect_mismatch c offset file detail stage st) = st_floor_known st"
  "st_floor_source (inspect_mismatch c offset file detail stage st) = st_floor_source st"
  "st_stale (inspect_mismatch c offset file detail stage st) = st_stale st"
  "st_wal_ordered (inspect_mismatch c offset file detail stage st) = st_wal_ordered st"
  "st_sequence (inspect_mismatch c offset file detail stage st) = st_sequence st"
  "st_wal_end (inspect_mismatch c offset file detail stage st) = st_wal_end st"
  "st_wal_frames (inspect_mismatch c offset file detail stage st) = st_wal_frames st"
  "st_wal_first_sequence (inspect_mismatch c offset file detail stage st) = st_wal_first_sequence st"
  "st_wal_first_time (inspect_mismatch c offset file detail stage st) = st_wal_first_time st"
  "st_wal_last_time (inspect_mismatch c offset file detail stage st) = st_wal_last_time st"
  by (simp_all add: inspect_mismatch_def)

lemma mismatch_result [simp]:
  "st_predicted_error (inspect_mismatch c offset file detail stage st) =
     (case st_predicted_error st of None \<Rightarrow> if c st then Some INVALID_DATABASE else None | Some e \<Rightarrow> Some e)"
  by (simp add: inspect_mismatch_def split: option.splits)

text \<open>The fields that the chain and the WAL stage rely on and that the loops over frames keep.\<close>

definition keeps :: "inspect_state \<Rightarrow> inspect_state \<Rightarrow> bool" where
  "keeps st st' \<longleftrightarrow>
     st_database st' = st_database st \<and> st_wal st' = st_wal st \<and> st_io_error st' = st_io_error st \<and>
     st_legacy st' = st_legacy st \<and> st_retention st' = st_retention st \<and> st_has_time st' = st_has_time st \<and>
     st_phase st' = st_phase st \<and> st_generation st' = st_generation st \<and> st_data_end st' = st_data_end st \<and>
     st_installed st' = st_installed st \<and> st_installed_time st' = st_installed_time st \<and> st_root st' = st_root st \<and>
     st_tail st' = st_tail st \<and> st_stale st' = st_stale st \<and> st_wal_last_time st' = st_wal_last_time st"

lemma keeps_refl [simp]: "keeps st st"
  by (simp add: keeps_def)

lemma keeps_trans: "keeps a b \<Longrightarrow> keeps b c \<Longrightarrow> keeps a c"
  by (simp add: keeps_def)

lemma frame_parse_source:
  "sound_source src \<Longrightarrow> inspect_frame_parse src off end seq = (r, src') \<Longrightarrow> src' = src"
  by (auto simp: inspect_frame_parse_def inspect_read_sound Let_def split: if_splits)

lemma segment_parse_source:
  assumes "sound_source src" "inspect_segment_parse src off end = (r, src')"
  shows "src' = src"
  using segment_parse_same [OF assms(1), of off "end"] assms(2) by (metis prod.inject)

lemma frames_loop_keeps:
  "inspect_frames_loop segment end position sequence st = (r, st') \<Longrightarrow> sound_source (st_database st) \<Longrightarrow>
     keeps st st' \<and> st_predicted_error st' = st_predicted_error st \<and> st_live st' = st_live st"
proof (induction segment "end" position sequence st arbitrary: r st' rule: inspect_frames_loop.induct)
  case (1 segment "end" position sequence st)
  obtain e frame source where p: "inspect_frame_parse (st_database st) position end sequence = ((e, frame), source)"
    by (metis surj_pair)
  then have src: "source = st_database st" using frame_parse_source "1.prems"(2) by blast
  note p = p [unfolded src]
  have same: "st\<lparr>st_database := st_database st\<rparr> = st" by simp
  show ?case
  proof (cases "position < end")
    case False
    then show ?thesis using "1.prems"(1) by (subst (asm) inspect_frames_loop.simps) simp
  next
    case True
    show ?thesis
    proof (cases e)
      case (Some err)
      then show ?thesis
        using "1.prems"(1) p True
        by (subst (asm) inspect_frames_loop.simps) (auto simp: Let_def keeps_def split: if_splits)
    next
      case None
      define u where "u = (if sg_ordered segment \<and>
                           (\<not> fr_ordered frame \<or> fr_first_time frame < sg_minimum segment \<or>
                            fr_last_time frame > sg_maximum segment)
                        then inspect_problem (inspect_count_frame st frame) position ''database'' ''record times leave the ordered segment span''
                        else inspect_count_frame st frame)\<lparr>st_floor_time := fr_last_time frame, st_floor_known := True,
                          st_floor_source := ''segment_scan''\<rparr>"
      have ku: "keeps st u" "st_predicted_error u = st_predicted_error st" "st_live u = st_live st" "st_database u = st_database st"
        by (simp_all add: u_def keeps_def)
      have loop: "inspect_frames_loop segment end (position + of_nat (fr_length frame)) (sequence + 1) u = (r, st')"
        using "1.prems"(1) p True None
        by (subst (asm) inspect_frames_loop.simps) (simp add: u_def Let_def cong: if_cong)
      have "keeps u st' \<and> st_predicted_error st' = st_predicted_error u \<and> st_live st' = st_live u"
        using "1.IH" [OF True p [symmetric] refl _ refl refl refl, unfolded same, of r st'] loop ku(4) "1.prems"(2) None
        unfolding u_def by auto
      with ku show ?thesis using keeps_trans by metis
    qed
  qed
qed

lemma segment_frames_keeps:
  assumes "inspect_segment_frames st offset segment = (frames, st')" "sound_source (st_database st)"
  shows "keeps st st'" "st_predicted_error st' = st_predicted_error st" "st_live st' = st_live st"
proof -
  let ?position = "offset + of_nat (sg_header_size segment)"
  obtain broken position sequence u where l:
    "inspect_frames_loop segment (?position + ucast (sg_body segment)) ?position (sg_first segment) st = ((broken, position, sequence), u)"
    by (metis surj_pair)
  note k = frames_loop_keeps [OF l assms(2)]
  have "keeps u st' \<and> st_predicted_error st' = st_predicted_error u \<and> st_live st' = st_live u"
    using assms(1) l by (auto simp: inspect_segment_frames_def Let_def keeps_def split: if_splits)
  with k show "keeps st st'" "st_predicted_error st' = st_predicted_error st" "st_live st' = st_live st"
    using keeps_trans by auto
qed

text \<open>The two tests of \<open>check_link\<close>.\<close>

definition link_fails :: "bool \<Rightarrow> inspect_segment \<Rightarrow> inspect_walk \<Rightarrow> bool" where
  "link_fails enabled segment k \<longleftrightarrow>
     wk_sequence k = UINT64_MAX \<or> sg_first segment \<le> wk_sequence k \<or>
     (\<not> enabled \<and> sg_first segment \<noteq> wk_sequence k + 1) \<or>
     (sg_header_size segment = 64 \<and>
       (sg_previous segment \<noteq> wk_previous k \<or> sg_skip segment \<noteq> wk_offsets k ! inspect_bit (wk_n k)))"

lemma segment_step_same:
  assumes "inspect_segment_step segment k st = (k', st')" "sound_source (st_database st)"
  shows "keeps st st'" "st_live st' = st_live st + (sg_last segment - sg_first segment + 1)"
    "st_predicted_error st' = (case st_predicted_error st of
       None \<Rightarrow> if link_fails (st_retention st) segment k then Some INVALID_DATABASE else None | Some e \<Rightarrow> Some e)"
    "wk_n k' = wk_n k + 1"
    "wk_offset k' = wk_offset k + (of_nat (sg_header_size segment) + ucast (sg_body segment))"
    "wk_previous k' = wk_offset k" "wk_sequence k' = sg_last segment" "wk_segment k' = segment"
    "wk_offsets k' = link_offsets (inspect_bit (wk_n k)) (wk_offset k) (wk_offsets k)"
proof -
  define u1 where "u1 = inspect_segment_report segment k st"
  define u2 where "u2 = inspect_segment_checks segment k u1"
  define u3 where "u3 = (if st_live u2 = 0 then u2\<lparr>st_first_live := sg_first segment\<rparr> else u2)"
  define u4 where "u4 = u3\<lparr>st_live := st_live u3 + (sg_last segment - sg_first segment + 1)\<rparr>"
  obtain frames u5 where f: "inspect_segment_frames u4 (wk_offset k) segment = (frames, u5)" by force
  have eq: "inspect_segment_step segment k st =
      (\<lparr>wk_n = wk_n k + 1,
           wk_offset = wk_offset k + (of_nat (sg_header_size segment) + ucast (sg_body segment)),
           wk_previous = wk_offset k, wk_sequence = sg_last segment,
           wk_offsets = link_offsets (inspect_bit (wk_n k)) (wk_offset k) (wk_offsets k),
           wk_segment = segment, wk_damaged = (frames \<noteq> sg_last segment - sg_first segment + 1)\<rparr>,
       say_number (''segment.'' @ dec (unat (wk_n k)) @ ''.frames_read'') frames u5)"
    unfolding inspect_segment_step_def
    by (simp only: Let_def u1_def [symmetric] u2_def [symmetric] u3_def [symmetric] u4_def [symmetric] f prod.case)
  have "talks st u1" unfolding u1_def inspect_segment_report_def Let_def
    by (intro talks_if talks_say talks_say_number talks_refl)
  note t = talks_fields [OF this]
  have k1: "keeps st u1" "st_predicted_error u1 = st_predicted_error st" "st_live u1 = st_live st" "st_retention u1 = st_retention st"
    unfolding keeps_def t by simp_all
  have k2: "keeps u1 u2" "st_live u2 = st_live u1" by (simp_all add: u2_def inspect_segment_checks_def Let_def keeps_def)
  have p2: "st_predicted_error u2 = (case st_predicted_error st of
       None \<Rightarrow> if link_fails (st_retention st) segment k then Some INVALID_DATABASE else None | Some e \<Rightarrow> Some e)"
    by (cases "st_predicted_error st") (auto simp: u2_def inspect_segment_checks_def Let_def k1 link_fails_def split: option.splits)
  have k4: "keeps u2 u4" "st_predicted_error u4 = st_predicted_error u2" "st_database u4 = st_database u2"
    "st_live u4 = st_live u2 + (sg_last segment - sg_first segment + 1)"
    by (simp_all add: u4_def u3_def keeps_def)
  have "st_database u4 = st_database st" using k1(1) k2(1) k4(3) by (simp add: keeps_def)
  note k5 = segment_frames_keeps [OF f, unfolded this, OF assms(2)]
  have st': "st' = say_number (''segment.'' @ dec (unat (wk_n k)) @ ''.frames_read'') frames u5" using eq assms(1) by simp
  have "keeps u5 st'" by (simp add: st' keeps_def)
  then show "keeps st st'" using k1(1) k2(1) k4(1) k5(1) keeps_trans by metis
  show "st_live st' = st_live st + (sg_last segment - sg_first segment + 1)" using k1 k2 k4 k5 by (simp add: st')
  show "st_predicted_error st' = (case st_predicted_error st of
       None \<Rightarrow> if link_fails (st_retention st) segment k then Some INVALID_DATABASE else None | Some e \<Rightarrow> Some e)"
    using p2 k4(2) k5(2) by (simp add: st')
  show "wk_n k' = wk_n k + 1"
    "wk_offset k' = wk_offset k + (of_nat (sg_header_size segment) + ucast (sg_body segment))"
    "wk_previous k' = wk_offset k" "wk_sequence k' = sg_last segment" "wk_segment k' = segment"
    "wk_offsets k' = link_offsets (inspect_bit (wk_n k)) (wk_offset k) (wk_offsets k)"
    using eq assms(1) by auto
qed

section \<open>The walk over the chain\<close>

text \<open>The tool's local variables are the library's.\<close>

definition walks :: "chain \<Rightarrow> inspect_walk \<Rightarrow> inspect_state \<Rightarrow> bool" where
  "walks c k st \<longleftrightarrow>
     ch_offset c = wk_offset k \<and> ch_previous c = wk_previous k \<and> ch_sequence c = wk_sequence k \<and>
     ch_offsets c = wk_offsets k \<and> ch_live c = st_live st \<and>
     ch_segment c = (if wk_n k = 1 then None else Some (segment_view (wk_segment k)))"

lemma check_link_same:
  assumes "walks c k st" "inspect_bit (wk_n k) = link_bit (wk_n k)" "unat (wk_n k) < 2 ^ 24" "wk_n k \<noteq> 0"
    and "inspect_segment_step segment k st = (k', st')" "sound_source (st_database st)"
  shows "link_fails enabled segment k \<Longrightarrow> check_link enabled (wk_n k) (segment_view segment) c = Inl INVALID_DATABASE"
    "\<not> link_fails enabled segment k \<Longrightarrow>
       \<exists>c'. check_link enabled (wk_n k) (segment_view segment) c = Inr c' \<and> walks c' k' st'"
proof -
  note w = assms(1) [unfolded walks_def] and s = segment_step_same [OF assms(5,6)]
  show "link_fails enabled segment k \<Longrightarrow> check_link enabled (wk_n k) (segment_view segment) c = Inl INVALID_DATABASE"
    using w assms(2) by (auto simp: check_link_def link_fails_def)
  assume ok: "\<not> link_fails enabled segment k"
  have "wk_n k + 1 \<noteq> 1" using assms(4) by simp
  moreover have "\<not> (wk_sequence k = UINT64_MAX \<or> sg_first segment \<le> wk_sequence k \<or>
      \<not> enabled \<and> sg_first segment \<noteq> wk_sequence k + 1)"
    "\<not> (sg_header_size segment = 64 \<and> (sg_previous segment \<noteq> wk_previous k \<or> sg_skip segment \<noteq> wk_offsets k ! link_bit (wk_n k)))"
    using ok assms(2) by (auto simp: link_fails_def)
  ultimately show "\<exists>c'. check_link enabled (wk_n k) (segment_view segment) c = Inr c' \<and> walks c' k' st'"
    using w s assms(2) by (auto simp: check_link_def walks_def segment_extent_def)
qed

lemma segments_loop_sticks:
  "inspect_segments_loop generation data_end k st = (k', st') \<Longrightarrow> sound_source (st_database st) \<Longrightarrow>
     keeps st st' \<and> (st_predicted_error st = Some e \<longrightarrow> st_predicted_error st' = Some e)"
proof (induction generation data_end k st arbitrary: k' st' rule: inspect_segments_loop.induct)
  case (1 generation data_end k st)
  obtain valid segment source where p: "inspect_segment_parse (st_database st) (wk_offset k) data_end = ((valid, segment), source)"
    by (metis surj_pair)
  then have src: "source = st_database st" using segment_parse_source "1.prems"(2) by blast
  note p = p [unfolded src]
  show ?case
  proof (cases "wk_n k \<le> generation \<and> valid")
    case False
    then show ?thesis using "1.prems"(1) p
      by (subst (asm) inspect_segments_loop.simps) (auto simp: keeps_def split: if_splits)
  next
    case True
    obtain k1 s1 where st1: "inspect_segment_step segment k st = (k1, s1)" by force
    note s = segment_step_same [OF st1 "1.prems"(2)]
    have "inspect_segments_loop generation data_end k1 s1 = (k', st')"
      using "1.prems"(1) p True st1 by (subst (asm) inspect_segments_loop.simps) simp
    moreover have "sound_source (st_database s1)" using s(1) "1.prems"(2) by (simp add: keeps_def)
    moreover have "st_predicted_error st = Some e \<longrightarrow> st_predicted_error s1 = Some e" using s(3) by simp
    ultimately have "keeps s1 st' \<and> (st_predicted_error s1 = Some e \<longrightarrow> st_predicted_error st' = Some e)"
      using "1.IH" [of "(valid, segment)" "st_database st" valid segment k1 s1 k' st'] p True st1 by simp
    then show ?thesis using s(1) s(3) keeps_trans by auto
  qed
qed

text \<open>The loop of the tool against \<open>check_links\<close>.\<close>

lemma segments_loop_same:
  assumes "inspect_segments_loop generation data_end k st = (k', st')" "sound_source (st_database st)"
    and "script w = []" "is_opened w database" "fdata w database = src_bytes (st_database st)"
    and "st_predicted_error st = None" "walks c k st" "wk_n k \<noteq> 0" "unat (wk_n k) \<le> unat generation + 1"
    and "unat generation < 2 ^ 24" "unat data_end < 2 ^ 62"
  shows "(st_predicted_error st' = Some INVALID_DATABASE \<and>
       check_links database data_end (st_retention st) generation (wk_n k) c w = (Inl INVALID_DATABASE, w)) \<or>
     (st_predicted_error st' = None \<and> wk_n k' > generation \<and>
       (generation = 0 \<longrightarrow> k' = k) \<and> (generation \<noteq> 0 \<and> wk_n k \<le> generation \<longrightarrow> wk_n k' \<noteq> 1) \<and>
       (\<exists>c'. check_links database data_end (st_retention st) generation (wk_n k) c w = (Inr c', w) \<and> walks c' k' st'))"
  using assms
proof (induction generation data_end k st arbitrary: k' st' c rule: inspect_segments_loop.induct)
  case (1 generation data_end k st)
  note prems = "1.prems"
  obtain r where p: "inspect_segment_parse (st_database st) (wk_offset k) data_end = (r, st_database st)"
    and same: "same_segment r (decode_segment (src_bytes (st_database st)) (wk_offset k) data_end)"
    using segment_parse_same [OF prems(2)] by blast
  obtain valid segment where r: "r = (valid, segment)" by force
  have off: "ch_offset c = wk_offset k" using prems(7) by (simp add: walks_def)
  have read: "read_segment database (ch_offset c) data_end w =
      (if valid then Inr (segment_view segment) else Inl INVALID_DATABASE, w)"
    using read_segment_quiet [OF prems(3,4,11)] same by (simp add: off prems(5) same_segment_def r)
  show ?case
  proof (cases "wk_n k \<le> generation")
    case False
    then have "k' = k" "st' = st" using prems(1) by (subst (asm) inspect_segments_loop.simps, simp)+
    then show ?thesis using False prems(6,7)
      by (subst check_links.simps, subst (2) check_links.simps) auto
  next
    case n: True
    show ?thesis
    proof (cases valid)
      case False
      then have "st_predicted_error st' = Some INVALID_DATABASE"
        using prems(1,6) p r n by (subst (asm) inspect_segments_loop.simps) auto
      then show ?thesis using n read False by (subst check_links.simps) simp
    next
      case True
      obtain k1 s1 where st1: "inspect_segment_step segment k st = (k1, s1)" by force
      have loop: "inspect_segments_loop generation data_end k1 s1 = (k', st')"
        using prems(1) p r n True st1 by (subst (asm) inspect_segments_loop.simps) simp
      note s = segment_step_same [OF st1 prems(2)]
      have s1: "sound_source (st_database s1)" "st_database s1 = st_database st" "st_retention s1 = st_retention st"
        using s(1) prems(2) by (simp_all add: keeps_def)
      have small: "unat (wk_n k) < 2 ^ 24" using n prems(10) by (simp add: word_le_nat_alt)
      then have n1: "unat (wk_n k1) = unat (wk_n k) + 1" unfolding s(4) by (subst u64_add) simp_all
      note link = check_link_same [OF prems(7) inspect_bit(1) [OF prems(8) small] small prems(8) st1 prems(2)]
      show ?thesis
      proof (cases "link_fails (st_retention st) segment k")
        case True
        then have "st_predicted_error s1 = Some INVALID_DATABASE" using s(3) prems(6) by simp
        then have "st_predicted_error st' = Some INVALID_DATABASE" using segments_loop_sticks [OF loop s1(1)] by blast
        then show ?thesis using n read \<open>valid\<close> link(1) [OF True] by (subst check_links.simps) simp
      next
        case False
        obtain c1 where c1: "check_link (st_retention st) (wk_n k) (segment_view segment) c = Inr c1" "walks c1 k1 s1"
          using link(2) [OF False] by blast
        have cl: "check_links database data_end (st_retention st) generation (wk_n k) c w =
            check_links database data_end (st_retention st) generation (wk_n k1) c1 w"
          using n read \<open>valid\<close> c1(1) s(4) by (subst check_links.simps) simp
        have x: "st_predicted_error s1 = None" using s(3) prems(6) False by simp
        have y: "wk_n k1 \<noteq> 0" "wk_n k1 \<noteq> 1" "unat (wk_n k1) \<le> unat generation + 1"
          using n1 n prems(8) unat_gt_0 [of "wk_n k"] by (auto simp: word_le_nat_alt)
        have ih: "(st_predicted_error st' = Some INVALID_DATABASE \<and>
           check_links database data_end (st_retention s1) generation (wk_n k1) c1 w = (Inl INVALID_DATABASE, w)) \<or>
         (st_predicted_error st' = None \<and> wk_n k' > generation \<and>
           (generation = 0 \<longrightarrow> k' = k1) \<and> (generation \<noteq> 0 \<and> wk_n k1 \<le> generation \<longrightarrow> wk_n k' \<noteq> 1) \<and>
           (\<exists>c'. check_links database data_end (st_retention s1) generation (wk_n k1) c1 w = (Inr c', w) \<and> walks c' k' st'))"
          using "1.IH" [OF n p [symmetric] r [symmetric], of k1 s1 k' st' c1] True st1 loop s1 prems x c1(2) y by simp
        have "\<not> wk_n k1 \<le> generation \<Longrightarrow> k' = k1"
          using loop by (subst (asm) inspect_segments_loop.simps) simp
        then have "wk_n k' \<noteq> 1" if "st_predicted_error st' = None" using ih that y(2)
          by (metis n word_gt_0 le_less_trans option.distinct(1))
        moreover have "generation \<noteq> 0" using n prems(8) by auto
        ultimately show ?thesis using ih unfolding cl s1(3) by auto
      qed
    qed
  qed
qed

section \<open>The whole stage\<close>

lemma chain_end_same:
  assumes "st_predicted_error st = None" "st_has_time st \<or> st_generation st = 0"
  shows "keeps st (inspect_chain_end k st)" "st_live (inspect_chain_end k st) = st_live st"
    "st_predicted_error (inspect_chain_end k st) =
      (if wk_offset k \<noteq> st_data_end st \<or>
          (st_generation st \<noteq> 0 \<and>
            (wk_sequence k > st_installed st \<or> (\<not> st_retention st \<and> wk_sequence k \<noteq> st_installed st) \<or>
             (st_has_time st \<and> st_tail st \<noteq> wk_previous k) \<or>
             (sg_ordered (wk_segment k) \<and> \<not> st_retention st \<and> st_installed_time st \<noteq> sg_maximum (wk_segment k))))
       then Some INVALID_DATABASE else None)"
proof -
  show "keeps st (inspect_chain_end k st)" "st_live (inspect_chain_end k st) = st_live st"
    by (simp_all add: inspect_chain_end_def Let_def keeps_def)
  show "st_predicted_error (inspect_chain_end k st) =
      (if wk_offset k \<noteq> st_data_end st \<or>
          (st_generation st \<noteq> 0 \<and>
            (wk_sequence k > st_installed st \<or> (\<not> st_retention st \<and> wk_sequence k \<noteq> st_installed st) \<or>
             (st_has_time st \<and> st_tail st \<noteq> wk_previous k) \<or>
             (sg_ordered (wk_segment k) \<and> \<not> st_retention st \<and> st_installed_time st \<noteq> sg_maximum (wk_segment k))))
       then Some INVALID_DATABASE else None)"
    using assms by (cases "st_generation st = 0") (auto simp: inspect_chain_end_def Let_def)
qed

text \<open>The library's checks after its loop, for a manifest with a timestamp or without segments.\<close>

lemma check_segments_ends:
  assumes "check_links database data_end (rs_enabled state) generation 1 (chain_start (rs_root state)) w = (Inr c, w)"
    and "has_time \<or> ch_segment c = None"
  shows "check_segments database generation data_end last_seq tail last_time has_time state w =
    (if ch_offset c \<noteq> data_end \<or> ch_sequence c > last_seq \<or> (\<not> rs_enabled state \<and> ch_sequence c \<noteq> last_seq) \<or>
        (has_time \<and> tail \<noteq> ch_previous c) \<or>
        (case ch_segment c of None \<Rightarrow> False
         | Some segment \<Rightarrow> seg_ordered segment \<and> \<not> rs_enabled state \<and> last_time \<noteq> seg_maximum segment)
     then Inl INVALID_DATABASE else Inr (ch_previous c, last_time, ch_span_start c, ch_live c), w)"
  using assms by (auto simp: check_segments_def io_bind_def split: option.splits)

lemma segments_same:
  assumes "inspecting (st_database st) (st_wal st) database wal w" "st_predicted_error st = None"
    and "manifest_bounds st" "st_live st = 0" "st_has_time st \<or> st_generation st = 0"
    and "st' = inspect_segments st"
    and "state = \<lparr>rs_revision = revision, rs_root = st_root st, rs_phase = st_phase st, rs_enabled = st_retention st\<rparr>"
  obtains r where
    "check_segments database (st_generation st) (st_data_end st) (st_installed st) (st_tail st) (st_installed_time st)
       (st_has_time st) state w = (r, w)"
    "agrees st' r" "keeps st st'"
    "\<And>tail time span live. r = Inr (tail, time, span, live) \<Longrightarrow> time = st_floor_time st' \<and> live = st_live st'"
proof -
  note i = assms(1) [unfolded inspecting_def] and b = assms(3) [unfolded manifest_bounds_def]
  let ?k = "walk_start (st_root st)" and ?c = "chain_start (st_root st)"
  obtain k u where loop: "inspect_segments_loop (st_generation st) (st_data_end st) ?k st = (k, u)" by force
  have start: "walks ?c ?k st" "wk_n ?k = 1" using assms(4) by (simp_all add: walks_def chain_start_def walk_start_def)
  have cases: "(st_predicted_error u = Some INVALID_DATABASE \<and>
       check_links database (st_data_end st) (st_retention st) (st_generation st) 1 ?c w = (Inl INVALID_DATABASE, w)) \<or>
     (st_predicted_error u = None \<and> wk_n k > st_generation st \<and>
       (st_generation st = 0 \<longrightarrow> k = ?k) \<and> (st_generation st \<noteq> 0 \<and> 1 \<le> st_generation st \<longrightarrow> wk_n k \<noteq> 1) \<and>
       (\<exists>c'. check_links database (st_data_end st) (st_retention st) (st_generation st) 1 ?c w = (Inr c', w) \<and> walks c' k u))"
    using segments_loop_same [OF loop _ _ _ _ assms(2) start(1), of w database] i b start(2) by simp
  have ku: "keeps st u" using segments_loop_sticks [OF loop] i by blast
  note f = ku [unfolded keeps_def]
  define v where "v = (if st_predicted_error u = None \<and> wk_n k > st_generation u then inspect_chain_end k u else u)"
  have st': "st' = say_number ''installed_batches'' (st_live v)
      (if st_has_time v then v\<lparr>st_floor_time := st_installed_time v, st_floor_known := True, st_floor_source := ''manifest''\<rparr>
       else if st_generation v = 0 then v\<lparr>st_floor_time := 0, st_floor_known := True, st_floor_source := ''none''\<rparr> else v)"
    unfolding assms(6) inspect_segments_def loop v_def by (simp add: Let_def)
  have kv: "keeps st v" "st_live v = st_live u"
    using ku chain_end_same(1,2) [of u k] assms(5) f keeps_trans by (auto simp: v_def)
  note fv = kv(1) [unfolded keeps_def]
  have k': "keeps st st'" "st_live st' = st_live v" "st_predicted_error st' = st_predicted_error v"
    using kv(1) by (auto simp: st' keeps_def)
  have fl: "st_floor_time st' = st_installed_time st" using assms(5) fv b by (auto simp: st')
  have root: "rs_root state = st_root st" "rs_enabled state = st_retention st" using assms(7) by simp_all
  show thesis
  proof (cases "st_predicted_error u = Some INVALID_DATABASE")
    case True
    then have "check_links database (st_data_end st) (st_retention st) (st_generation st) 1 ?c w = (Inl INVALID_DATABASE, w)"
      using cases by auto
    then show thesis using True k' root
      by (intro that [of "Inl INVALID_DATABASE"]) (auto simp: check_segments_def io_bind_def agrees_def v_def)
  next
    case False
    then obtain c' where n: "st_predicted_error u = None" "wk_n k > st_generation st"
      and k0: "st_generation st = 0 \<Longrightarrow> k = ?k" "st_generation st \<noteq> 0 \<Longrightarrow> wk_n k \<noteq> 1"
      and c: "check_links database (st_data_end st) (st_retention st) (st_generation st) 1 ?c w = (Inr c', w)" "walks c' k u"
      using cases word_not_simps(1) by (metis One_nat_def Suc_leI word_le_nat_alt unat_1 unat_gt_0)
    have v: "v = inspect_chain_end k u" using n f by (simp add: v_def)
    note wk = c(2) [unfolded walks_def]
    have seg: "ch_segment c' = (if st_generation st = 0 then None else Some (segment_view (wk_segment k)))"
      using wk k0 start(2) by auto
    have ht: "st_has_time st \<or> ch_segment c' = None" using assms(5) seg by auto
    note lib = check_segments_ends [OF _ ht, of database "st_data_end st" state "st_generation st" w "st_installed st"
        "st_tail st" "st_installed_time st", unfolded root, OF c(1)]
    have p: "st_predicted_error v =
      (if wk_offset k \<noteq> st_data_end st \<or>
          (st_generation st \<noteq> 0 \<and>
            (wk_sequence k > st_installed st \<or> (\<not> st_retention st \<and> wk_sequence k \<noteq> st_installed st) \<or>
             (st_has_time st \<and> st_tail st \<noteq> wk_previous k) \<or>
             (sg_ordered (wk_segment k) \<and> \<not> st_retention st \<and> st_installed_time st \<noteq> sg_maximum (wk_segment k))))
       then Some INVALID_DATABASE else None)"
      unfolding v using chain_end_same(3) [OF n(1), of k] assms(5) f by simp
    show thesis
    proof (cases "st_generation st = 0")
      case True
      then have "wk_offset k = st_data_end st" "wk_sequence k = 0" "wk_previous k = 0"
        using k0(1) b by (simp_all add: walk_start_def)
      then show thesis using True lib p k' fl seg wk b kv(2)
        by (intro that [of "Inr (ch_previous c', st_installed_time st, ch_span_start c', ch_live c')"])
          (auto simp: agrees_def)
    next
      case False
      show thesis
        by (rule that [OF lib]) (use False p k' fl seg wk kv(2) in \<open>auto simp: agrees_def split: if_splits\<close>)
    qed
  qed
qed

end
