(* ===== verification/TL_InspectVerify.thy ===== *)
theory TL_InspectVerify
  imports TL_InspectChain
begin

text \<open>
  The WAL stage of \<open>verify\<close> against the recovery scan of the library, and the theorem about the whole
  tool: its predicted error is the error of \<open>timelite_batches_open\<close>, and where it predicts success, the
  status it prints is the status of the opened handle.
\<close>

section \<open>The frames of the WAL\<close>

text \<open>What the WAL stage leaves alone.\<close>

definition keeps_store :: "inspect_state \<Rightarrow> inspect_state \<Rightarrow> bool" where
  "keeps_store st st' \<longleftrightarrow>
     st_database st' = st_database st \<and> st_wal st' = st_wal st \<and> st_io_error st' = st_io_error st \<and>
     st_legacy st' = st_legacy st \<and> st_retention st' = st_retention st \<and> st_has_time st' = st_has_time st \<and>
     st_phase st' = st_phase st \<and> st_generation st' = st_generation st \<and> st_data_end st' = st_data_end st \<and>
     st_installed st' = st_installed st \<and> st_installed_time st' = st_installed_time st \<and>
     st_root st' = st_root st \<and> st_tail st' = st_tail st \<and> st_live st' = st_live st"

lemma keeps_store_refl [simp]: "keeps_store st st"
  by (simp add: keeps_store_def)

lemma keeps_store_trans: "keeps_store a b \<Longrightarrow> keeps_store b c \<Longrightarrow> keeps_store a c"
  by (simp add: keeps_store_def)

lemma keeps_store_if: "keeps_store st a \<Longrightarrow> keeps_store st b \<Longrightarrow> keeps_store st (if c then a else b)"
  by simp

lemma wal_frame_fields:
  fixes frame :: inspect_frame and st :: inspect_state
  shows
  "keeps_store st (inspect_wal_frame frame st)"
  "st_predicted_error (inspect_wal_frame frame st) = st_predicted_error st"
  "st_stale (inspect_wal_frame frame st) = st_stale st"
  "st_sequence (inspect_wal_frame frame st) = st_sequence st + 1"
  "st_wal_last_time (inspect_wal_frame frame st) = fr_last_time frame"
  "st_floor_time (inspect_wal_frame frame st) = st_floor_time st"
  by (simp_all add: inspect_wal_frame_def Let_def keeps_store_def)

lemma wal_scan_last: "0 < records \<Longrightarrow> ws_last (wal_scan bytes len records position s) = frame_time bytes (records - 1)"
  by (cases records) (simp_all add: wal_scan_def wal_record_def Let_def)

lemma wal_loop_same:
  assumes "inspect_wal_loop end offset st = (offset', st')" "sound_source (st_wal st)"
    and "script w = []" "is_opened w wal" "fdata w wal = src_bytes (st_wal st)"
    and "st_predicted_error st = None" "offset \<le> end" "unat end < 2 ^ 62" "ws_last s = st_wal_last_time st"
  shows "keeps_store st st' \<and> st_stale st' = st_stale st \<and> st_floor_time st' = st_floor_time st \<and>
    ((st_predicted_error st' = Some INVALID_DATABASE \<and>
       scan_frames wal_frame (\<not> st_stale st) wal end offset (st_sequence st + 1) s w = (Inl INVALID_DATABASE, w)) \<or>
     (st_predicted_error st' = None \<and>
       (\<exists>s'. scan_frames wal_frame (\<not> st_stale st) wal end offset (st_sequence st + 1) s w =
              (Inr (offset', st_sequence st' + 1, s'), w) \<and> ws_last s' = st_wal_last_time st')))"
  using assms
proof (induction "end" offset st arbitrary: offset' st' s rule: inspect_wal_loop.induct)
  case (1 "end" offset st)
  note prems = "1.prems"
  obtain r l where p: "inspect_frame_parse (st_wal st) offset end (st_sequence st + 1) = (r, st_wal st)"
    and lib: "read_frame wal offset end (st_sequence st + 1) w = (l, w)" and same: "same_frame r l"
    using frame_parse_same [OF prems(2-5,7,8)] by blast
  obtain e frame where r: "r = (e, frame)" by force
  show ?case
  proof (cases "offset < end")
    case False
    then show ?thesis using prems(1,6,9)
      by (subst (asm) inspect_wal_loop.simps, subst scan_frames.simps, subst (2) scan_frames.simps) auto
  next
    case True
    show ?thesis
    proof (cases e)
      case (Some err)
      then have err: "l = Inl err" "err = INVALID_DATABASE \<or> err = END" using same r by (auto simp: same_frame_def)
      show ?thesis
      proof (cases "err = END \<and> \<not> st_stale st")
        case tail: True
        have "offset' = offset \<and> st' = say_number ''wal_incomplete_suffix_bytes'' (end - offset)
                                 (say_number ''wal_incomplete_suffix_offset'' offset st)"
          using prems(1) p r Some True tail by (subst (asm) inspect_wal_loop.simps) auto
        moreover have "scan_frames wal_frame (\<not> st_stale st) wal end offset (st_sequence st + 1) s w =
            (Inr (offset, st_sequence st + 1, s), w)"
          using True lib err tail by (subst scan_frames.simps) simp
        ultimately show ?thesis using prems(6,9) by (simp add: keeps_store_def)
      next
        case damage: False
        obtain detail where "st' = inspect_predict (inspect_problem st offset ''wal'' detail) INVALID_DATABASE ''wal frame''"
          using prems(1) p r Some True damage err(2) by (subst (asm) inspect_wal_loop.simps) (auto split: if_splits)
        moreover have "scan_frames wal_frame (\<not> st_stale st) wal end offset (st_sequence st + 1) s w = (Inl INVALID_DATABASE, w)"
          using True lib err damage by (subst scan_frames.simps) auto
        ultimately show ?thesis using prems(6) by (simp add: keeps_store_def)
      qed
    next
      case None
      then obtain bytes len records where ok: "l = Inr (bytes, len, records)" "frame = frame_summary bytes len records" "0 < records"
        using same r by (auto simp: same_frame_def)
      define u where "u = inspect_wal_frame frame st"
      note u = wal_frame_fields [where frame = frame and st = st, folded u_def]
      have ku: "st_wal u = st_wal st" "st_stale u = st_stale st" using u(1,3) by (simp_all add: keeps_store_def)
      have loop: "inspect_wal_loop end (offset + of_nat len) u = (offset', st')"
        using prems(1) p r None True ok(2) by (subst (asm) inspect_wal_loop.simps) (simp add: u_def)
      define s1 where "s1 = wal_scan bytes len records offset s"
      have s1: "ws_last s1 = st_wal_last_time u"
        using ok(2,3) u(5) by (simp add: s1_def wal_scan_last frame_summary_times)
      have scan: "scan_frames wal_frame (\<not> st_stale st) wal end offset (st_sequence st + 1) s w =
          scan_frames wal_frame (\<not> st_stale u) wal end (offset + of_nat len) (st_sequence u + 1) s1 w"
        using True lib ok(1) u(3,4) by (subst scan_frames.simps) (simp add: wal_frame_scan s1_def add.assoc)
      note f = frame_parse_length [OF p [unfolded r None], unfolded ok(2) frame_summary_fields]
      have "unat (offset + of_nat len) = unat offset + len \<and> unat offset + len \<le> unat end"
      proof -
        have "len \<le> unat end - unat offset" using f prems(7) by (simp add: word_le_nat_alt u64_sub)
        then have "unat offset + len \<le> unat end" using prems(7) by (simp add: word_le_nat_alt)
        then show ?thesis using f(2) prems(8) u64_add [of offset "of_nat len"] by simp
      qed
      then have le: "offset + of_nat len \<le> end" by (simp add: word_le_nat_alt)
      have "keeps_store u st' \<and> st_stale st' = st_stale u \<and> st_floor_time st' = st_floor_time u \<and>
        ((st_predicted_error st' = Some INVALID_DATABASE \<and>
           scan_frames wal_frame (\<not> st_stale u) wal end (offset + of_nat len) (st_sequence u + 1) s1 w = (Inl INVALID_DATABASE, w)) \<or>
         (st_predicted_error st' = None \<and>
           (\<exists>s'. scan_frames wal_frame (\<not> st_stale u) wal end (offset + of_nat len) (st_sequence u + 1) s1 w =
                  (Inr (offset', st_sequence st' + 1, s'), w) \<and> ws_last s' = st_wal_last_time st')))"
        using "1.IH" [of "(e, frame)" "st_wal st" e frame offset' st' s1] True p r None ok(2) loop prems ku s1 le u(2)
        by (simp add: u_def)
      then show ?thesis unfolding scan using u keeps_store_trans by auto
    qed
  qed
qed

section \<open>The WAL stage\<close>

text \<open>The test for bytes past the data end that no interrupted install explains.\<close>

definition orphans :: "inspect_state \<Rightarrow> u64 \<Rightarrow> bool \<Rightarrow> bool" where
  "orphans st sequence stale \<longleftrightarrow>
     src_size (st_database st) > st_data_end st \<and> st_phase st = 0 \<and>
     \<not> (st_retention st \<and> st_generation st = 0 \<and> src_size (st_database st) = 161) \<and>
     (stale \<or> sequence = st_installed st)"

lemma wal_first_same:
  assumes "inspect_wal_first st = (go, st')" "sound_source (st_wal st)" "script w = []" "is_opened w wal"
    and "fdata w wal = src_bytes (st_wal st)" "st_predicted_error st = None" "\<not> st_stale st" "st_sequence st = st_installed st"
  shows "keeps_store st st'" "st_wal_last_time st' = st_wal_last_time st" "st_floor_time st' = st_floor_time st"
    "wal_start wal (src_size (st_wal st)) (st_installed st) w =
       (if go then Inr (st_stale st', st_sequence st') else Inl INVALID_DATABASE, w)"
    "st_predicted_error st' = (if go then None else Some INVALID_DATABASE)"
proof -
  define h where "h = block 32 32 (src_bytes (st_wal st))"
  define detail where "detail = (if length h < 32 then ''1..31 bytes after the WAL header: ambiguous framing, not repaired''
      else ''first WAL frame header invalid'')"
  define bad where "bad = inspect_predict (inspect_problem st 32 ''wal'' detail) INVALID_DATABASE ''first wal frame''"
  define good where "good = (if decode64 (drop 8 h) \<noteq> 0 \<and> decode64 (drop 8 h) \<le> st_installed st
      then st\<lparr>st_wal_first_sequence := decode64 (drop 8 h), st_stale := True, st_sequence := decode64 (drop 8 h) - 1\<rparr>
      else st\<lparr>st_wal_first_sequence := decode64 (drop 8 h)\<rparr>)"
  have read: "inspect_read (st_wal st) 32 32 = (Some h, st_wal st)" using inspect_read_sound [OF assms(2)] by (simp add: h_def)
  have "in_off_t 32 32" by (simp add: in_off_t_def)
  then have lib: "read_exact wal 32 32 w = (if length h < 32 then Inl INVALID_DATABASE else Inr h, w)"
    using read_exact_quiet_any [OF assms(3,4), of 32 32] by (auto simp: assms(5) length_block h_def)
  have l32: "\<not> length h < 32 \<Longrightarrow> length h = 32" by (auto simp: length_block h_def)
  have same: "st\<lparr>st_wal := st_wal st\<rparr> = st" by simp
  have eq: "inspect_wal_first st =
    (if src_size (st_wal st) > 32 then (if length h = 32 \<and> check_frame_header h then (True, good) else (False, bad))
     else (True, st))"
  proof (cases "length h < 32")
    case True
    then show ?thesis unfolding inspect_wal_first_def read by (simp add: Let_def bad_def detail_def)
  next
    case False
    note h32 = l32 [OF this]
    show ?thesis
      unfolding inspect_wal_first_def read prod.case option.case Let_def same inspect_decode inspect_checksum
        good_def bad_def detail_def
      by (simp only: h32 refl if_True less_irrefl if_False simp_thms header_tests) simp
  qed
  have good: "keeps_store st good" "st_wal_last_time good = st_wal_last_time st" "st_floor_time good = st_floor_time st"
    "st_predicted_error good = None" using assms(6) by (simp_all add: good_def keeps_store_def)
  have bad: "keeps_store st bad" "st_wal_last_time bad = st_wal_last_time st" "st_floor_time bad = st_floor_time st"
    "st_predicted_error bad = Some INVALID_DATABASE" using assms(6) by (simp_all add: bad_def keeps_store_def)
  show "keeps_store st st'" "st_wal_last_time st' = st_wal_last_time st" "st_floor_time st' = st_floor_time st"
    "st_predicted_error st' = (if go then None else Some INVALID_DATABASE)"
    using assms(1,6) good bad unfolding eq by (auto split: if_splits)
  have start: "wal_start wal (src_size (st_wal st)) (st_installed st) w =
    (if src_size (st_wal st) > 32 then
       (if length h = 32 \<and> check_frame_header h then Inr (st_stale good, st_sequence good) else Inl INVALID_DATABASE)
     else Inr (False, st_installed st), w)"
    using lib assms(7,8) l32 by (auto simp: wal_start_def io_bind_def Let_def good_def)
  show "wal_start wal (src_size (st_wal st)) (st_installed st) w =
       (if go then Inr (st_stale st', st_sequence st') else Inl INVALID_DATABASE, w)"
    using assms(1,7,8) unfolding eq start by (auto split: if_splits)
qed

lemma wal_end_same:
  assumes "st_predicted_error st = None"
  shows "keeps_store st (inspect_wal_end st)" "st_stale (inspect_wal_end st) = st_stale st"
    "st_sequence (inspect_wal_end st) = st_sequence st" "st_wal_end (inspect_wal_end st) = st_wal_end st"
    "st_predicted_error (inspect_wal_end st) =
      (if st_stale st \<and> st_sequence st \<noteq> st_installed st \<or> orphans st (st_sequence st) (st_stale st)
       then Some INVALID_DATABASE else None)"
    "st_floor_time (inspect_wal_end st) =
      (if \<not> st_stale st \<and> st_sequence st > st_installed st then st_wal_last_time st else st_floor_time st)"
  using assms by (simp_all add: inspect_wal_end_def Let_def keeps_store_def orphans_def) blast

lemma wal_same:
  assumes "inspecting (st_database st) (st_wal st) database wal w" "st_predicted_error st = None" "\<not> st_stale st"
    and "st_wal_last_time st = 0" "st' = inspect_wal st"
  defines "z \<equiv> src_size (st_wal st)"
  shows "keeps_store st st'"
    "if z < 32 \<or> z > TIMELITE_WAL_CAPACITY then st_predicted_error st' = Some INVALID_DATABASE
     else (case recover_wal wal z (st_installed st) w of
        (Inl e, w') \<Rightarrow> w' = w \<and> e = INVALID_DATABASE \<and> st_predicted_error st' = Some INVALID_DATABASE
      | (Inr (offset, sequence, s, stale), w') \<Rightarrow> w' = w \<and>
          (if orphans st sequence stale then st_predicted_error st' = Some INVALID_DATABASE
           else st_predicted_error st' = None \<and> offset = st_wal_end st' \<and> sequence = st_sequence st' \<and>
             stale = st_stale st' \<and> (stale \<longrightarrow> sequence = st_installed st) \<and>
             st_floor_time st' = (if \<not> stale \<and> sequence > st_installed st then ws_last s else st_floor_time st)))"
proof -
  note i = assms(1) [unfolded inspecting_def]
  define st0 where "st0 = st\<lparr>st_sequence := st_installed st, st_wal_ordered := True\<rparr>"
  have k0: "keeps_store st st0" "st_wal st0 = st_wal st" "st_installed st0 = st_installed st"
    "st_sequence st0 = st_installed st0" "\<not> st_stale st0" "st_predicted_error st0 = None" "st_wal_last_time st0 = 0"
    "st_floor_time st0 = st_floor_time st"
    using assms(2-4) by (simp_all add: st0_def keeps_store_def)
  have st': "st' = (if z < 32 \<or> z > TIMELITE_WAL_CAPACITY
         then inspect_predict (inspect_problem st0 z ''wal'' ''WAL size below its header or above 64 MiB'')
                INVALID_DATABASE ''wal size''
         else
           (case inspect_wal_first st0 of
              (False, st) \<Rightarrow> st
            | (True, st) \<Rightarrow>
                (case inspect_wal_loop z 32 (say ''wal_stale'' (flag (st_stale st)) st) of
                   (offset, st) \<Rightarrow>
                     (let st = inspect_wal_report (st\<lparr>st_wal_end := offset\<rparr>)
                      in if st_predicted_error st \<noteq> None then st else inspect_wal_end st))))"
    unfolding assms(5) inspect_wal_def Let_def st0_def [symmetric] k0(2) z_def ..
  have "keeps_store st st' \<and>
    (if z < 32 \<or> z > TIMELITE_WAL_CAPACITY then st_predicted_error st' = Some INVALID_DATABASE
     else (case recover_wal wal z (st_installed st) w of
        (Inl e, w') \<Rightarrow> w' = w \<and> e = INVALID_DATABASE \<and> st_predicted_error st' = Some INVALID_DATABASE
      | (Inr (offset, sequence, s, stale), w') \<Rightarrow> w' = w \<and>
          (if orphans st sequence stale then st_predicted_error st' = Some INVALID_DATABASE
           else st_predicted_error st' = None \<and> offset = st_wal_end st' \<and> sequence = st_sequence st' \<and>
             stale = st_stale st' \<and> (stale \<longrightarrow> sequence = st_installed st) \<and>
             st_floor_time st' = (if \<not> stale \<and> sequence > st_installed st then ws_last s else st_floor_time st))))"
  proof (cases "z < 32 \<or> z > TIMELITE_WAL_CAPACITY")
    case True
    then have "st' = inspect_predict (inspect_problem st0 z ''wal'' ''WAL size below its header or above 64 MiB'')
                INVALID_DATABASE ''wal size''" using st' by simp
    then show ?thesis using True k0 by (simp add: keeps_store_def)
  next
    case size: False
    obtain go u where first: "inspect_wal_first st0 = (go, u)" by force
    note f = wal_first_same [OF first _ _ _ _ k0(6,5,4), of w wal, unfolded k0(2), folded z_def]
    have ku: "keeps_store st u" using f(1) i k0(1) keeps_store_trans by blast
    have pu: "wal_start wal z (st_installed st) w = (if go then Inr (st_stale u, st_sequence u) else Inl INVALID_DATABASE, w)"
      "st_predicted_error u = (if go then None else Some INVALID_DATABASE)" "st_wal_last_time u = 0" "st_floor_time u = st_floor_time st"
      using f i k0 by simp_all
    show ?thesis
    proof (cases go)
      case False
      then have "st' = u" using st' size first by simp
      then show ?thesis using size False ku pu by (simp add: recover_wal_def io_bind_def)
    next
      case True
      let ?say = "say ''wal_stale'' (flag (st_stale u)) u"
      obtain offset v where loop: "inspect_wal_loop z 32 ?say = (offset, v)" by force
      have kwal: "st_wal ?say = st_wal st" using ku by (simp add: keeps_store_def)
      have z32: "32 \<le> z" "unat z < 2 ^ 62" using size by (simp_all add: word_le_nat_alt word_less_nat_alt)
      note l = wal_loop_same [OF loop, unfolded kwal, of w wal wal_empty]
      have l: "keeps_store u v" "st_stale v = st_stale u" "st_floor_time v = st_floor_time st"
        "(st_predicted_error v = Some INVALID_DATABASE \<and>
           scan_frames wal_frame (\<not> st_stale u) wal z 32 (st_sequence u + 1) wal_empty w = (Inl INVALID_DATABASE, w)) \<or>
         (st_predicted_error v = None \<and>
           (\<exists>s'. scan_frames wal_frame (\<not> st_stale u) wal z 32 (st_sequence u + 1) wal_empty w =
                  (Inr (offset, st_sequence v + 1, s'), w) \<and> ws_last s' = st_wal_last_time v))"
        using l i z32 pu True by (simp_all add: wal_empty_def keeps_store_def)
      define x where "x = inspect_wal_report (v\<lparr>st_wal_end := offset\<rparr>)"
      have "talks (v\<lparr>st_wal_end := offset\<rparr>) x"
        unfolding x_def inspect_wal_report_def Let_def by (intro talks_if talks_say talks_say_number talks_refl)
      note t = talks_fields [OF this]
      have kx: "keeps_store st x" using ku l(1) by (simp add: keeps_store_def t)
      have x: "st_stale x = st_stale v" "st_floor_time x = st_floor_time v" "st_predicted_error x = st_predicted_error v"
        "st_wal_end x = offset" "st_sequence x = st_sequence v" "st_wal_last_time x = st_wal_last_time v"
        by (simp_all add: t)
      have st'x: "st' = (if st_predicted_error x \<noteq> None then x else inspect_wal_end x)"
        using st' size first True loop by (simp add: x_def Let_def)
      show ?thesis
      proof (cases "st_predicted_error v")
        case (Some e)
        then show ?thesis using l(4) kx x size pu(1) True st'x by (auto simp: recover_wal_def io_bind_def)
      next
        case None
        then obtain s' where scan: "scan_frames wal_frame (\<not> st_stale u) wal z 32 (st_sequence u + 1) wal_empty w =
                  (Inr (offset, st_sequence v + 1, s'), w)" "ws_last s' = st_wal_last_time v" using l(4) by auto
        have st'e: "st' = inspect_wal_end x" using st'x None x(3) by simp
        have nx: "st_predicted_error x = None" using None x(3) by simp
        note e = wal_end_same [OF nx, folded st'e]
        have inst: "st_installed x = st_installed st" and orph: "orphans x = orphans st"
          using kx by (auto simp: keeps_store_def orphans_def fun_eq_iff)
        have "keeps_store st st'" using kx e(1) keeps_store_trans by blast
        then show ?thesis
          using size pu(1) True scan e x l(2,3) inst orph
          by (auto simp: recover_wal_def io_bind_def)
      qed
    qed
  qed
  then show "keeps_store st st'"
    "if z < 32 \<or> z > TIMELITE_WAL_CAPACITY then st_predicted_error st' = Some INVALID_DATABASE
     else (case recover_wal wal z (st_installed st) w of
        (Inl e, w') \<Rightarrow> w' = w \<and> e = INVALID_DATABASE \<and> st_predicted_error st' = Some INVALID_DATABASE
      | (Inr (offset, sequence, s, stale), w') \<Rightarrow> w' = w \<and>
          (if orphans st sequence stale then st_predicted_error st' = Some INVALID_DATABASE
           else st_predicted_error st' = None \<and> offset = st_wal_end st' \<and> sequence = st_sequence st' \<and>
             stale = st_stale st' \<and> (stale \<longrightarrow> sequence = st_installed st) \<and>
             st_floor_time st' = (if \<not> stale \<and> sequence > st_installed st then ws_last s else st_floor_time st)))"
    by blast+
qed

section \<open>The whole tool\<close>

text \<open>The state that \<open>verify\<close> turns into its exit code and its last lines.\<close>

definition inspected :: "string list \<Rightarrow> inspect_source \<Rightarrow> inspect_source \<Rightarrow> inspect_state" where
  "inspected out database wal =
     inspect_stages (say_number ''wal_size'' (src_size wal)
       (say_number ''database_size'' (src_size database) (inspect_start out database wal)))"

lemma verify_inspected:
  "inspect_verify strerror database_path wal_path plan wal_plan w =
     (let out = [''mode=verify'', ''read_only=1'',
                 ''note=verify parses the files with stdio only; it never writes, truncates, syncs or creates anything'',
                 ''database='' @ database_path, ''wal='' @ wal_path]
      in case inspect_open strerror w database_path ''database'' plan of
           Inl line \<Rightarrow> (2, out @ [line])
         | Inr database \<Rightarrow>
             (case inspect_open strerror w wal_path ''wal'' wal_plan of
                Inl line \<Rightarrow> (2, out @ [line])
              | Inr wal \<Rightarrow> inspect_finish (inspected out database wal)))"
  unfolding inspect_verify_def inspected_def Let_def ..

text \<open>The values of the \<open>predicted.\<close> lines.\<close>

definition predicted_status :: "inspect_state \<Rightarrow> timelite_batches_status" where
  "predicted_status st =
     \<lparr>committed_batches = st_live st + sm_pending st, installed_batches = st_live st,
      pending_batches = sm_pending st, installed_segments = st_generation st, wal_bytes = sm_wal_end st,
      installed_bytes = sm_end st - 160, last_timestamp_us = st_floor_time st\<rparr>"

lemma file_size_quiet:
  assumes "script w = []" "is_opened w f"
  shows "timelite_file_size (Some f) (Some ()) w = (Inr (of_nat (length (fdata w f))), w)"
  using assms
  by (auto simp: timelite_file_size_def check_file_def is_opened_def fdata_def sys_fstat_def interrupted_def
      retry.simps [of "sys_fstat (fd f)"])

lemma validate_pair_check:
  "validate_pair database wal =
     io_bind (pair_check database wal) (\<lambda>_.
       io_bind (timelite_file_size (Some database) (Some ())) (\<lambda>database_size.
       io_bind (read_manifests database database_size) (\<lambda>v.
       io_bind (check_segments database (mv_generation v) (mv_data_end v) (mv_last v) (mv_tail v)
                  (mv_last_time v) (mv_has_time v) (mv_state v)) (\<lambda>(tail, last_time, span_start, live).
       io_bind (timelite_file_size (Some wal) (Some ())) (\<lambda>wal_size w.
         if wal_size < 32 \<or> wal_size > TIMELITE_WAL_CAPACITY then (Inl INVALID_DATABASE, w)
         else (Inr \<lparr>op_database_size = database_size, op_view = v, op_tail = tail,
                    op_last_time = last_time, op_span_start = span_start, op_live = live,
                    op_wal_size = wal_size\<rparr>, w))))))"
  by (rule ext) (simp add: validate_pair_def pair_check_def io_bind_def split: prod.split sum.split)

lemma start_fresh: "fresh_state (inspect_start out database wal)"
  by (simp add: fresh_state_def inspect_start_def)

lemma talks_fresh: "talks st st' \<Longrightarrow> fresh_state st \<Longrightarrow> fresh_state st'"
  by (erule talksE) (simp add: fresh_state_def)

lemma proceed_stops: "st_predicted_error st = Some e \<Longrightarrow> proceed stage st = st"
  by (simp add: proceed_def)

lemma proceed_goes: "st_predicted_error st = None \<Longrightarrow> \<not> st_io_error st \<Longrightarrow> proceed stage st = stage st"
  by (simp add: proceed_def)

lemma segments_keep:
  assumes "sound_source (st_database st)"
  shows "keeps st (inspect_segments st)"
proof -
  obtain k u where loop: "inspect_segments_loop (st_generation st) (st_data_end st) (walk_start (st_root st)) st = (k, u)" by force
  have ku: "keeps st u" using segments_loop_sticks [OF loop assms] by blast
  have "keeps u (inspect_chain_end k u)" by (simp add: inspect_chain_end_def Let_def keeps_def)
  then have "keeps st (if st_predicted_error u = None \<and> wk_n k > st_generation u then inspect_chain_end k u else u)"
    using ku keeps_trans by auto
  then show ?thesis unfolding inspect_segments_def loop by (auto simp: Let_def keeps_def)
qed

text \<open>Validation and recovery scan, against the tool's final state.\<close>

definition verdict :: "inspect_state \<Rightarrow> timelite_file \<Rightarrow> pair_state \<Rightarrow> os \<Rightarrow> bool" where
  "verdict st wal p w \<longleftrightarrow>
     (case recover_wal wal (op_wal_size p) (mv_last (op_view p)) w of
        (Inl e, w') \<Rightarrow> w' = w \<and> st_predicted_error st = Some e
      | (Inr (offset, sequence, s, stale), w') \<Rightarrow> w' = w \<and>
          (if unexplained_tail p sequence stale then st_predicted_error st = Some INVALID_DATABASE
           else st_predicted_error st = None \<and> (\<exists>revision. op_view p = state_view st revision) \<and>
             op_live p = st_live st \<and> offset = st_wal_end st \<and> sequence = st_sequence st \<and> stale = st_stale st \<and>
             (stale \<longrightarrow> sequence = st_installed st) \<and>
             st_floor_time st = (if \<not> stale \<and> sequence > st_installed st then ws_last s else op_last_time p)))"

lemma stages_same:
  assumes "inspecting db_src wal_src database wal w" "st = inspected out db_src wal_src"
    and "st_has_time st \<or> st_generation st = 0"
  shows "case validate_pair database wal w of
      (Inl e, w') \<Rightarrow> w' = w \<and> st_predicted_error st = Some e
    | (Inr p, w') \<Rightarrow> w' = w \<and> verdict st wal p w"
proof -
  note i = assms(1) [unfolded inspecting_def]
  define st0 where "st0 = say_number ''wal_size'' (src_size wal_src)
       (say_number ''database_size'' (src_size db_src) (inspect_start out db_src wal_src))"
  have t0: "talks (inspect_start out db_src wal_src) st0" unfolding st0_def by (intro talks_say_number talks_refl)
  have src0: "st_database st0 = db_src" "st_wal st0 = wal_src" "st_wal_last_time st0 = 0" "st_predicted_error st0 = None"
    by (simp_all add: st0_def inspect_start_def)
  have insp0: "inspecting (st_database st0) (st_wal st0) database wal w" using assms(1) src0 by simp
  have fresh0: "fresh_state st0" using talks_fresh [OF t0 start_fresh] .
  obtain r1 s1 stage where h: "pair_check database wal w = (r1, w)" "talks st0 s1"
    "inspect_headers st0 = (case r1 of Inl e \<Rightarrow> inspect_predict s1 e stage | Inr _ \<Rightarrow> s1)"
    using headers_same [OF insp0 src0(4)] by blast
  have fresh1: "fresh_state s1" using talks_fresh [OF h(2) fresh0] .
  note t1 = talks_fields [OF h(2)]
  have st: "st = proceed inspect_wal (proceed inspect_segments (proceed inspect_manifests (inspect_headers st0)))"
    by (simp add: assms(2) inspected_def inspect_stages_def st0_def)
  have sizes: "timelite_file_size (Some database) (Some ()) w = (Inr (src_size db_src), w)"
    "timelite_file_size (Some wal) (Some ()) w = (Inr (src_size wal_src), w)"
    using file_size_quiet [of w] i by (simp_all add: sound_source_def)
  show ?thesis
  proof (cases r1)
    case (Inl e)
    have "st_predicted_error (inspect_predict s1 e stage) = Some e" using fresh1 by (simp add: fresh_state_def)
    note stop = this proceed_stops [OF this]
    have "st = inspect_predict s1 e stage" using st h(3) Inl by (simp add: stop)
    then show ?thesis using Inl h(1) stop(1) by (simp add: validate_pair_check io_bind_def)
  next
    case (Inr x)
    define s2 where "s2 = inspect_manifests s1"
    have st2: "st = proceed inspect_wal (proceed inspect_segments s2)"
      using st h(3) Inr fresh1 proceed_goes [of s1 inspect_manifests] by (simp add: fresh_state_def s2_def)
    have insp1: "inspecting (st_database s1) (st_wal s1) database wal w" using assms(1) src0 t1 by simp
    have s1: "st_database s1 = db_src" "st_wal s1 = wal_src" "st_live s1 = 0" "\<not> st_stale s1" "st_wal_last_time s1 = 0"
      using fresh1 src0 t1 by (simp_all add: fresh_state_def)
    obtain r2 where m: "read_manifests database (src_size db_src) w = (r2, w)" "agrees s2 r2"
      "\<And>v. r2 = Inr v \<Longrightarrow> (\<exists>revision. v = state_view s2 revision) \<and> manifest_bounds s2"
      "st_database s2 = db_src" "st_wal s2 = wal_src" "\<not> st_io_error s2" "st_live s2 = 0" "\<not> st_stale s2" "st_wal_last_time s2 = 0"
      using manifests_same [OF insp1 fresh1, folded s2_def, unfolded s1] s1(4) by (metis (no_types))
    have lib2: "validate_pair database wal w =
      io_bind (read_manifests database (src_size db_src)) (\<lambda>v.
       io_bind (check_segments database (mv_generation v) (mv_data_end v) (mv_last v) (mv_tail v)
                  (mv_last_time v) (mv_has_time v) (mv_state v)) (\<lambda>(tail, last_time, span_start, live).
       io_bind (timelite_file_size (Some wal) (Some ())) (\<lambda>wal_size w.
         if wal_size < 32 \<or> wal_size > TIMELITE_WAL_CAPACITY then (Inl INVALID_DATABASE, w)
         else (Inr \<lparr>op_database_size = src_size db_src, op_view = v, op_tail = tail,
                    op_last_time = last_time, op_span_start = span_start, op_live = live,
                    op_wal_size = wal_size\<rparr>, w)))) w"
      using h(1) Inr sizes(1) by (simp add: validate_pair_check io_bind_def)
    show ?thesis
    proof (cases r2)
      case (Inl e)
      then have p: "st_predicted_error s2 = Some e" using m(2) by (simp add: agrees_def)
      then have "st = s2" using st2 by (simp add: proceed_stops)
      note this p
      then show ?thesis using Inl lib2 m(1) by (simp add: io_bind_def)
    next
      case (Inr v)
      then obtain revision where v: "v = state_view s2 revision" and b: "manifest_bounds s2" using m(3) by blast
      have n2: "st_predicted_error s2 = None" using m(2) Inr by (simp add: agrees_def)
      define s3 where "s3 = inspect_segments s2"
      have st3: "st = proceed inspect_wal s3" using st2 proceed_goes [OF n2 m(6)] by (simp add: s3_def)
      have k3: "keeps s2 s3" using segments_keep [of s2] m(4) i by (simp add: s3_def)
      note f3 = k3 [unfolded keeps_def]
      have insp3: "inspecting (st_database s3) (st_wal s3) database wal w" using assms(1) f3 m(4,5) by simp
      have wal: "st = s3 \<or> st = inspect_wal s3 \<and> keeps_store s3 st" if "st_predicted_error s3 = None"
        using st3 proceed_goes [OF that, of inspect_wal] wal_same(1) [OF insp3 that _ _ refl] f3 m(6,8,9) by simp
      have "st_has_time s3 = st_has_time st \<and> st_generation s3 = st_generation st"
        using wal st3 by (cases "st_predicted_error s3") (auto simp: proceed_stops keeps_store_def)
      then have ht: "st_has_time s2 \<or> st_generation s2 = 0" using assms(3) f3 by simp
      have insp2: "inspecting (st_database s2) (st_wal s2) database wal w" using assms(1) m(4,5) by simp
      define state where "state = \<lparr>rs_revision = revision, rs_root = st_root s2, rs_phase = st_phase s2, rs_enabled = st_retention s2\<rparr>"
      obtain r3 where c: "check_segments database (st_generation s2) (st_data_end s2) (st_installed s2) (st_tail s2)
          (st_installed_time s2) (st_has_time s2) state w = (r3, w)" "agrees s3 r3"
        "\<And>tail time span live. r3 = Inr (tail, time, span, live) \<Longrightarrow> time = st_floor_time s3 \<and> live = st_live s3"
        using segments_same [OF insp2 n2 b m(7) ht s3_def state_def] by metis
      have lib3: "validate_pair database wal w =
        io_bind (\<lambda>w. (r3, w)) (\<lambda>(tail, last_time, span_start, live) w.
           if src_size wal_src < 32 \<or> src_size wal_src > TIMELITE_WAL_CAPACITY then (Inl INVALID_DATABASE, w)
           else (Inr \<lparr>op_database_size = src_size db_src, op_view = v, op_tail = tail,
                      op_last_time = last_time, op_span_start = span_start, op_live = live,
                      op_wal_size = src_size wal_src\<rparr>, w)) w"
        using lib2 m(1) Inr c(1) sizes(2) unfolding v state_view_def state_def
        by (simp add: io_bind_def split: sum.split prod.split)
      show ?thesis
      proof (cases r3)
        case (Inl e)
        then have p: "st_predicted_error s3 = Some e" using c(2) by (simp add: agrees_def)
        then have "st = s3" using st3 by (simp add: proceed_stops)
        note this p
        then show ?thesis using Inl lib3 by (simp add: io_bind_def)
      next
        case (Inr y)
        obtain tail time span live where y: "y = (tail, time, span, live)" by (cases y)
        have n3: "st_predicted_error s3 = None" using c(2) Inr by (simp add: agrees_def)
        have st4: "st = inspect_wal s3" using st3 proceed_goes [OF n3, of inspect_wal] f3 m(6) by simp
        have q: "st_wal s3 = wal_src" "st_installed s3 = st_installed s2" "\<not> st_stale s3" "st_wal_last_time s3 = 0"
          using f3 m(5,8,9) by simp_all
        note x = wal_same [OF insp3 n3 q(3,4) st4, unfolded q(1,2)]
        note k = x(1) [unfolded keeps_store_def]
        have sv: "v = state_view st revision" using k f3 by (simp add: v state_view_def)
        define p where "p = \<lparr>op_database_size = src_size db_src, op_view = v, op_tail = tail,
                      op_last_time = time, op_span_start = span, op_live = live, op_wal_size = src_size wal_src\<rparr>"
        have val: "validate_pair database wal w =
          (if src_size wal_src < 32 \<or> src_size wal_src > TIMELITE_WAL_CAPACITY then Inl INVALID_DATABASE else Inr p, w)"
          using lib3 Inr y by (simp add: io_bind_def p_def)
        have orph: "unexplained_tail p = orphans s3"
          using f3 m(4) by (auto simp: fun_eq_iff unexplained_tail_def orphans_def p_def v state_view_def Let_def)
        have pf: "op_live p = st_live st" "op_last_time p = st_floor_time s3" "op_wal_size p = src_size wal_src"
          "op_view p = v" "mv_last v = st_installed s2"
          using c(3) [of tail time span live] Inr y k by (simp_all add: p_def v state_view_def)
        show ?thesis
        proof (cases "src_size wal_src < 32 \<or> src_size wal_src > TIMELITE_WAL_CAPACITY")
          case True
          then show ?thesis using val x(2) by simp
        next
          case False
          have inst: "st_installed st = st_installed s2" using k q(2) by simp
          obtain r w' where rec: "recover_wal wal (src_size wal_src) (st_installed s2) w = (r, w')" by force
          have sv': "\<exists>revision. v = state_view st revision" using sv by blast
          have "verdict st wal p w"
          proof (cases r)
            case (Inl e)
            then show ?thesis using x(2) False rec unfolding verdict_def pf by simp
          next
            case (Inr u)
            obtain offset sequence s stale where u: "u = (offset, sequence, s, stale)" by (cases u)
            show ?thesis
            proof (cases "orphans s3 sequence stale")
              case True
              then show ?thesis using x(2) False rec Inr u unfolding verdict_def pf orph by simp
            next
              case none: False
              then show ?thesis using x(2) False rec Inr u sv' unfolding verdict_def pf orph inst by auto
            qed
          qed
          then show ?thesis using val False by simp
        qed
      qed
    qed
  qed
qed

section \<open>The prediction\<close>

lemma status_of_opened:
  assumes "is_opened w database" "is_opened w wal" "op_view p = state_view st revision" "op_live p = st_live st"
    and "sequence = st_sequence st" "stale = st_stale st" "stale \<longrightarrow> sequence = st_installed st"
    and "st_floor_time st = (if \<not> stale \<and> sequence > st_installed st then ws_last s else op_last_time p)"
    and "offset = (if stale then 32 else st_wal_end st)" "data_end = sm_end st"
  shows "timelite_batches_get_status (Some (opened_handle h database wal p offset sequence s stale (state, data_end, tail)))
      (Some ()) = Inr (predicted_status st)"
  using assms
  by (auto simp: timelite_batches_get_status_def batch_ready_def opened_handle_def Let_def batch_set_file_def
      reset_cursor_def batch_file_def is_closed_def is_opened_def predicted_status_def sm_pending_def sm_wal_end_def
      state_view_def)

lemma finish_retention_end:
  "finish_retention f state count end last_seq time tail w = (Inr (state', end', tail'), w') \<Longrightarrow>
     rs_phase state \<noteq> 2 \<Longrightarrow> end' = end"
  by (auto simp: finish_retention_def io_bind_Inr io_seq_Inr split: if_splits)

lemma repair_pair_end:
  assumes "repair_pair database wal database_path wal_path p offset w = (Inr (state, data_end, tail), w')"
    and "rs_phase (mv_state (op_view p)) \<noteq> 2"
  shows "data_end = mv_data_end (op_view p)"
  using assms
  by (auto simp: repair_pair_def Let_def io_bind_Inr io_seq_Inr split: if_splits dest: finish_retention_end)

section \<open>A sample\<close>

lemma pair_header_written:
  assumes "script w = []" "is_opened w f" "length magic = 8" "length identity = 16"
    and "fdata w f = pair_header_bytes magic identity (replicate 32 0)"
  shows "pair_header f magic w = (Inr (fdata w f), w)" "block 12 16 (fdata w f) = identity"
proof -
  define h where "h = fdata w f"
  have h: "length h = 32" "has_magic h magic" "decode32 (drop 8 h) = 2" "checksum h 28 = decode32 (drop 28 h)"
    using assms(3,4) by (simp_all add: h_def assms(5) pair_header_bytes_def Let_def layout)
  have b: "block 12 16 h = identity"
    using assms(4) block_put_same [of 12 identity "put 8 (encode32 2) (put 0 (ascii magic) (replicate 32 0))"]
    by (simp add: h_def assms(5) pair_header_bytes_def Let_def block_put_before)
  have r: "read_exact f 0 12 w = (Inr (take 12 h), w)" "read_exact f 12 20 w = (Inr (drop 12 h), w)"
    using read_exact_quiet_any [OF assms(1,2), of 0 12] read_exact_quiet_any [OF assms(1,2), of 12 20] h(1)
    by (simp_all add: h_def [symmetric] block_def in_off_t_def)
  have "has_magic (take 12 h) magic" "decode32 (drop 8 (take 12 h)) = 2"
    using h(1,2,3) u32_codec.dec_block [of 4 8 h] by (simp_all add: has_magic_def drop_take block_def)
  then show "pair_header f magic w = (Inr (fdata w f), w)" "block 12 16 (fdata w f) = identity"
    using r h b by (simp_all add: pair_header_def io_bind_def Let_def h_def [symmetric])
qed

definition sample_source :: "bytes \<Rightarrow> inspect_source" where
  "sample_source bytes = \<lparr>src_bytes = bytes, src_size = of_nat (length bytes), src_ferror = False, src_faults = []\<rparr>"

definition sample_header :: "string \<Rightarrow> bytes" where
  "sample_header magic = pair_header_bytes magic (replicate 16 7) (replicate 32 0)"

lemma sample_inspecting:
  "length database < 2 ^ 63 \<Longrightarrow> length wal < 2 ^ 63 \<Longrightarrow>
    inspecting (sample_source database) (sample_source wal) \<lparr>fd = 3\<rparr> \<lparr>fd = 4\<rparr> (sample_os database wal)"
  by (simp add: inspecting_def sound_source_def sample_source_def)

lemma length_sample_header: "length (sample_header magic) = 32"
  by (simp add: sample_header_def pair_header_bytes_def Let_def)

text \<open>A pair of files of 32 bytes, without batches.\<close>

lemma sample_inspected:
  defines "d \<equiv> sample_header ''TIMELITE''" and "l \<equiv> sample_header ''TIMEWAL!''"
  defines "st \<equiv> inspected [] (sample_source d) (sample_source l)"
  shows "st_predicted_error st = None" "st_generation st = 0"
proof -
  have len: "length d = 32" "length l = 32" by (simp_all add: d_def l_def length_sample_header)
  let ?st0 = "say_number ''wal_size'' (src_size (sample_source l))
       (say_number ''database_size'' (src_size (sample_source d)) (inspect_start [] (sample_source d) (sample_source l)))"
  have t0: "talks (inspect_start [] (sample_source d) (sample_source l)) ?st0" by (intro talks_say_number talks_refl)
  have src: "st_database ?st0 = sample_source d" "st_wal ?st0 = sample_source l" "st_predicted_error ?st0 = None"
    by (simp_all add: inspect_start_def)
  have i: "inspecting (st_database ?st0) (st_wal ?st0) \<lparr>fd = 3\<rparr> \<lparr>fd = 4\<rparr> (sample_os d l)"
    using sample_inspecting [of d l] len src by simp
  have "pair_check \<lparr>fd = 3\<rparr> \<lparr>fd = 4\<rparr> (sample_os d l) = (Inr (), sample_os d l)"
    using pair_header_written [of "sample_os d l" "\<lparr>fd = 3\<rparr>" "''TIMELITE''" "replicate 16 7"]
      pair_header_written [of "sample_os d l" "\<lparr>fd = 4\<rparr>" "''TIMEWAL!''" "replicate 16 7"]
    by (simp add: pair_check_def io_bind_def d_def l_def sample_header_def)
  with headers_same [OF i src(3)] obtain s1 where h: "talks ?st0 s1" "inspect_headers ?st0 = s1" by fastforce
  have fresh: "fresh_state s1" using talks_fresh [OF h(1) talks_fresh [OF t0 start_fresh]] .
  have s1: "src_size (st_database s1) = 32" "src_size (st_wal s1) = 32"
    using talks_fields [OF h(1)] src len by (simp_all add: sample_source_def)
  note f = fresh [unfolded fresh_state_def] s1
  define s2 where "s2 = inspect_manifests s1"
  have s2: "st_predicted_error s2 = None" "st_generation s2 = 0" "\<not> st_io_error s2" "st_data_end s2 = 160" "st_root s2 = 160"
    "\<not> st_has_time s2" "src_size (st_wal s2) = 32" "\<not> st_stale s2" "st_phase s2 = 0" "src_size (st_database s2) = 32"
    using f by (simp_all add: s2_def inspect_manifests_def Let_def)
  define s3 where "s3 = inspect_segments s2"
  have s3: "st_predicted_error s3 = None" "st_generation s3 = 0" "\<not> st_io_error s3" "src_size (st_wal s3) = 32"
    "\<not> st_stale s3" "st_phase s3 = 0" "src_size (st_database s3) = 32" "st_data_end s3 = 160"
    using s2 by (simp_all add: s3_def inspect_segments_def walk_start_def inspect_segments_loop.simps
        inspect_chain_end_def inspect_mismatch_def Let_def)
  define s4 where "s4 = inspect_wal_report ((say ''wal_stale'' (flag (st_stale (s3\<lparr>st_sequence := st_installed s3, st_wal_ordered := True\<rparr>)))
      (s3\<lparr>st_sequence := st_installed s3, st_wal_ordered := True\<rparr>))\<lparr>st_wal_end := 32\<rparr>)"
  have wal: "inspect_wal s3 = (if st_predicted_error s4 \<noteq> None then s4 else inspect_wal_end s4)"
    using s3 by (simp add: inspect_wal_def inspect_wal_first_def inspect_wal_loop.simps s4_def)
  have t4: "talks (s3\<lparr>st_sequence := st_installed s3, st_wal_ordered := True, st_wal_end := 32\<rparr>) s4"
    unfolding s4_def inspect_wal_report_def Let_def say_def by (intro talks_if talks_say_number) (simp_all add: talks_def say_number_def say_def)
  have s4: "st_predicted_error s4 = None" "st_generation s4 = 0" "\<not> st_stale s4" "st_phase s4 = 0"
    "src_size (st_database s4) = 32" "st_data_end s4 = 160"
    using talks_fields [OF t4] s3 by simp_all
  have "st_predicted_error (inspect_wal s3) = None \<and> st_generation (inspect_wal s3) = 0"
    unfolding wal using wal_end_same(1,5) [OF s4(1)] s4 by (simp add: keeps_store_def orphans_def)
  then show "st_predicted_error st = None" "st_generation st = 0"
    using s2 s3 f h(2) by (simp_all add: st_def inspected_def inspect_stages_def proceed_goes s2_def s3_def)
qed

section \<open>The claim\<close>

text \<open>
  C11. The prediction of \<open>verify\<close>, for every pair of readable files whose chosen manifest records timestamps
  (as all manifests written since the timestamps were introduced do) or installs nothing.  If the tool
  predicts an error, opening the pair fails with exactly that error and without any effect.  If it predicts
  success, every check of the open passes; and if the open then completes and no interrupted retention had
  left its copying phase to finish, the status of the handle is the one the tool printed.  Manifests with
  segments but without timestamps are excluded: for them the tool predicts a failure from a frame count
  that the open never compares.
\<close>

theorem verify_predicts_open:
  assumes "inspecting db_src wal_src database wal w" "st = inspected out db_src wal_src"
    and "st_has_time st \<or> st_generation st = 0"
  shows "case st_predicted_error st of
      Some e \<Rightarrow> recover_pair h database wal database_path wal_path w = (Inl e, w)
    | None \<Rightarrow> \<exists>p offset sequence s stale.
        validate_pair database wal w = (Inr p, w) \<and>
        recover_wal wal (op_wal_size p) (mv_last (op_view p)) w = (Inr (offset, sequence, s, stale), w) \<and>
        \<not> unexplained_tail p sequence stale \<and>
        (\<forall>h' w'. recover_pair h database wal database_path wal_path w = (Inr h', w') \<and> st_phase st \<noteq> 2 \<longrightarrow>
          timelite_batches_get_status (Some h') (Some ()) = Inr (predicted_status st))"
proof -
  note same = stages_same [OF assms] and i = assms(1) [unfolded inspecting_def]
  obtain r v where val: "validate_pair database wal w = (r, v)" by force
  show ?thesis
  proof (cases r)
    case (Inl e)
    then show ?thesis using same val by (simp add: recover_pair_def io_bind_def)
  next
    case (Inr p)
    then have val: "validate_pair database wal w = (Inr p, w)" and "verdict st wal p w" using same val by simp_all
    obtain r' v' where rec: "recover_wal wal (op_wal_size p) (mv_last (op_view p)) w = (r', v')" by force
    note d = \<open>verdict st wal p w\<close> [unfolded verdict_def rec]
    show ?thesis
    proof (cases r')
      case (Inl e)
      then show ?thesis using val rec d by (simp add: recover_pair_def io_bind_def)
    next
      case (Inr x)
      obtain offset sequence s stale where x: "x = (offset, sequence, s, stale)" by (cases x)
      show ?thesis
      proof (cases "unexplained_tail p sequence stale")
        case True
        then show ?thesis using val rec d Inr x by (simp add: recover_pair_def io_bind_def)
      next
        case False
        have n: "v' = w" "st_predicted_error st = None" "op_live p = st_live st" "offset = st_wal_end st"
          "sequence = st_sequence st" "stale = st_stale st" "stale \<longrightarrow> sequence = st_installed st"
          "st_floor_time st = (if \<not> stale \<and> sequence > st_installed st then ws_last s else op_last_time p)"
          using d False unfolding Inr x by auto
        from d False Inr x obtain revision where view: "op_view p = state_view st revision" by auto
        have "timelite_batches_get_status (Some h') (Some ()) = Inr (predicted_status st)"
          if "recover_pair h database wal database_path wal_path w = (Inr h', w')" "st_phase st \<noteq> 2" for h' w'
        proof -
          from that(1) val rec n(1) Inr x False obtain state data_end tail u where
            r: "repair_pair database wal database_path wal_path p (if stale then 32 else offset) w = (Inr (state, data_end, tail), u)"
            and h: "h' = opened_handle h database wal p (if stale then 32 else offset) sequence s stale (state, data_end, tail)"
            by (auto simp: recover_pair_def io_bind_Inr Let_def split: if_splits)
          have "data_end = sm_end st" using repair_pair_end [OF r] view that(2) by (simp add: state_view_def sm_end_def)
          then show ?thesis
            unfolding h using i n by (intro status_of_opened [OF _ _ view n(3,5-8)]) auto
        qed
        then show ?thesis using n(1,2) val rec Inr x False by auto
      qed
    qed
  qed
qed

theorem verify_predicts_open_witness:
  "\<exists>p offset sequence s stale.
     validate_pair \<lparr>fd = 3\<rparr> \<lparr>fd = 4\<rparr> (sample_os (sample_header ''TIMELITE'') (sample_header ''TIMEWAL!'')) =
       (Inr p, sample_os (sample_header ''TIMELITE'') (sample_header ''TIMEWAL!'')) \<and>
     recover_wal \<lparr>fd = 4\<rparr> (op_wal_size p) (mv_last (op_view p))
       (sample_os (sample_header ''TIMELITE'') (sample_header ''TIMEWAL!'')) =
       (Inr (offset, sequence, s, stale), sample_os (sample_header ''TIMELITE'') (sample_header ''TIMEWAL!'')) \<and>
     \<not> unexplained_tail p sequence stale"
  using verify_predicts_open [OF sample_inspecting refl, of "sample_header ''TIMELITE''" "sample_header ''TIMEWAL!''" "[]"
      sample_handle "''db''" "''wal''"] sample_inspected
  by (auto simp: length_sample_header)

end
