(* ===== verification/TL_QueryStore.thy ===== *)
theory TL_QueryStore
  imports TL_Query TL_StoreLog
begin

text \<open>
  Queries against a store: what \<open>timelite_batches_next_range\<close>, \<open>timelite_batches_aggregate_range\<close> and
  \<open>timelite_batches_seek\<close> compute from the batches of the log, including the shortcuts they take on the
  part of the log that is ordered by time.
\<close>

section \<open>Records of a frame\<close>

text \<open>The records a range asks for.\<close>

definition in_range :: "timelite_range \<Rightarrow> timelite_record \<Rightarrow> bool" where
  "in_range rg r \<longleftrightarrow>
     from_us rg \<le> timestamp_us r \<and> timestamp_us r < until_us rg \<and>
     (filter_series rg = 0 \<or> series r = range_series rg)"

lemma record_matches_in_range: "record_matches rec rg = in_range rg (decode_record rec)"
  by (auto simp: record_matches_def in_range_def decode_record_def Let_def)

lemma matching_filter: "matching bytes n rg = filter (in_range rg) (frame_records bytes n)"
  by (simp add: matching_def frame_records_map filter_map comp_def record_matches_in_range)

lemma frame_records_frame: "valid_batch rs \<Longrightarrow> frame_records (encode_frame s rs) (length rs) = rs"
  by (simp add: frame_records_encode_frame valid_batch_def)

lemma matching_frame: "valid_batch rs \<Longrightarrow> matching (encode_frame s rs) (length rs) rg = filter (in_range rg) rs"
  by (simp add: matching_filter frame_records_frame)

lemma frame_time_frame:
  assumes "valid_batch rs" "i < length rs"
  shows "frame_time (encode_frame s rs) i = timestamp_us (rs ! i)"
proof -
  have "decode_record (frame_record (encode_frame s rs) i) = rs ! i"
    using arg_cong [OF frame_records_frame [OF assms(1), of s], of "\<lambda>l. l ! i"] assms(2) by (simp add: frame_records_map)
  then have "timestamp_us (decode_record (frame_record (encode_frame s rs) i)) = timestamp_us (rs ! i)" by simp
  then show ?thesis by (simp add: decode_record_def frame_record_def frame_time_def add.commute Let_def)
qed

section \<open>The ordered part of the log\<close>

text \<open>Consecutive segments that are ordered, each starting no earlier than the one before ends.\<close>

fun ordered_run :: "segment_content list \<Rightarrow> bool" where
  "ordered_run [] = True"
| "ordered_run [(s, b)] \<longleftrightarrow> seg_ordered s"
| "ordered_run ((s, b) # (t, c) # xs) \<longleftrightarrow>
     seg_ordered s \<and> seg_maximum s \<le> seg_minimum t \<and> ordered_run ((t, c) # xs)"

definition segments_timed :: "segment_content list \<Rightarrow> bool" where
  "segments_timed xs \<longleftrightarrow> (\<forall>(s, b) \<in> set xs. segment_times s b \<and> seg_minimum s \<le> seg_maximum s)"

lemma ordered_run_sorted:
  "ordered_run xs \<Longrightarrow> segments_timed xs \<Longrightarrow>
     sorted (batch_times (installed_batches xs)) \<and>
     (\<forall>t \<in> set (batch_times (installed_batches xs)). xs \<noteq> [] \<longrightarrow> seg_minimum (fst (hd xs)) \<le> t)"
proof (induction xs rule: ordered_run.induct)
  case (2 s b)
  then show ?case by (auto simp: segments_timed_def segment_times_def)
next
  case (3 s b t c xs)
  have "ordered_run ((t, c) # xs)" "segments_timed ((t, c) # xs)" using "3.prems" by (simp_all add: segments_timed_def)
  from "3.IH" [OF this] have ih: "sorted (batch_times (installed_batches ((t, c) # xs)))"
    "\<forall>u \<in> set (batch_times (installed_batches ((t, c) # xs))). seg_minimum t \<le> u"
    by (simp_all only: list.sel fst_conv, blast)
  have s: "sorted (batch_times b)" "\<forall>u \<in> set (batch_times b). seg_minimum s \<le> u \<and> u \<le> seg_maximum s"
    "seg_minimum s \<le> seg_maximum s" "seg_maximum s \<le> seg_minimum t"
    using "3.prems" by (simp_all add: segments_timed_def segment_times_def)
  let ?r = "batch_times (installed_batches ((t, c) # xs))"
  have eq: "batch_times (installed_batches ((s, b) # (t, c) # xs)) = batch_times b @ ?r" by simp
  have "\<forall>u \<in> set (batch_times b). \<forall>v \<in> set ?r. u \<le> v" using ih(2) s(2,4) by (meson order_trans)
  moreover have "\<forall>u \<in> set ?r. seg_minimum s \<le> u" using ih(2) s(3,4) by (meson order_trans)
  ultimately show ?case unfolding eq using ih(1) s(1,2) by (auto simp: sorted_append)
qed simp

lemma span_ordered_run: "span_ok ss n \<Longrightarrow> 0 < n \<Longrightarrow> ordered_run (drop (n - 1) ss)"
proof (induction "length ss - (n - 1)" arbitrary: n)
  case 0
  then show ?case by simp
next
  case (Suc d)
  then have lt: "n - 1 < length ss" by simp
  obtain s b where x: "ss ! (n - 1) = (s, b)" by force
  have dr: "drop (n - 1) ss = (s, b) # drop n ss" using lt x Suc.prems(2) Cons_nth_drop_Suc [OF lt] by simp
  have s: "seg_ordered s" using Suc.prems lt x by (fastforce simp: span_ok_def)
  have "span_ok ss (Suc n)" using Suc.prems(1) by (simp add: span_ok_def)
  then have ih: "ordered_run (drop n ss)" using Suc.hyps(1) [of "Suc n"] Suc.hyps(2) Suc.prems(2) by simp
  show ?case
  proof (cases "n < length ss")
    case False
    then show ?thesis using dr s by simp
  next
    case True
    obtain t c where y: "ss ! n = (t, c)" by force
    have dn: "drop n ss = (t, c) # drop (Suc n) ss" using True y by (simp add: Cons_nth_drop_Suc [symmetric])
    have "seg_maximum (fst (ss ! (n - 1))) \<le> seg_minimum (fst (ss ! Suc (n - 1)))"
    proof -
      have "Suc (n - 1) < length ss" "n \<le> Suc (n - 1)" using Suc.prems(2) True by simp_all
      then show ?thesis using Suc.prems(1) unfolding span_ok_def by blast
    qed
    then show ?thesis using dr dn s ih x y Suc.prems(2) by simp
  qed
qed

lemma parse_segment_times: "parse_segment h hs ord off end = Inr s \<Longrightarrow> seg_minimum s \<le> seg_maximum s"
  by (auto simp: parse_segment_def Let_def not_less word_order.extremum split: if_splits)

lemma decode_segment_times: "decode_segment D off end = Inr s \<Longrightarrow> seg_minimum s \<le> seg_maximum s"
  by (auto simp: decode_segment_def Let_def dest: parse_segment_times split: if_splits)

lemma seg_chain_timed: "seg_chain D end ret off sq ss \<Longrightarrow> segments_timed ss"
  by (induction D "end" ret off sq ss rule: seg_chain.induct)
    (auto simp: segments_timed_def segment_body_def dest: decode_segment_times)

section \<open>Sequence numbers grow\<close>

definition segment_numbers :: "segment_content list \<Rightarrow> u64 list" where
  "segment_numbers ss = concat (map (\<lambda>(s, b). numbers (seg_first s) (length b)) ss)"

lemma store_numbers_split: "store_numbers inst ss bs = segment_numbers ss @ numbers (inst + 1) (length bs)"
  by (simp add: store_numbers_def segment_numbers_def)

lemma segment_numbers_simps [simp]:
  "segment_numbers [] = []" "segment_numbers ((s, b) # ss) = numbers (seg_first s) (length b) @ segment_numbers ss"
  "segment_numbers (ss @ ts) = segment_numbers ss @ segment_numbers ts"
  by (simp_all add: segment_numbers_def)

lemma length_segment_numbers' [simp]: "length (segment_numbers ss) = length (installed_batches ss)"
  using length_segment_numbers [of ss] by (simp add: segment_numbers_def)

lemma segment_body_numbers:
  assumes "segment_body D off s b" "x \<in> set (numbers (seg_first s) (length b))"
  shows "unat (seg_first s) \<le> unat x" "unat x < unat (seg_last s) + 1"
proof -
  from assms(2) obtain k where k: "k < length b" "x = seg_first s + of_nat k" by (auto simp: numbers_def)
  have l: "unat (seg_last s) + 1 = unat (seg_first s) + length b" using assms(1) unfolding segment_body_def by blast
  then have "unat x = unat (seg_first s) + k"
    unfolding k(2) using k(1) u64_bound [of "seg_last s"] by (intro u64_offset) simp
  then show "unat (seg_first s) \<le> unat x" "unat x < unat (seg_last s) + 1" using l k(1) by simp_all
qed

lemma seg_chain_numbers:
  "seg_chain D end ret off sq (pre @ post) \<Longrightarrow>
     sq \<le> chain_next sq pre \<and> (\<forall>x \<in> set (segment_numbers pre). unat x < chain_next sq pre)"
proof (induction pre arbitrary: off sq)
  case (Cons x pre)
  obtain s b where x: "x = (s, b)" by force
  have c: "seg_chain D end ret (off + segment_extent s) (unat (seg_last s) + 1) (pre @ post)"
    and b: "segment_body D off s b" and f: "sq \<le> unat (seg_first s)"
    and d: "decode_segment D off end = Inr s" using Cons.prems x by auto
  note ih = Cons.IH [OF c]
  have "unat (seg_first s) \<le> unat (seg_last s)" using decode_segment_InrD(5) [OF d] by (simp add: word_le_nat_alt)
  moreover have "\<forall>y \<in> set (numbers (seg_first s) (length b)). unat y < chain_next (unat (seg_last s) + 1) pre"
    using segment_body_numbers(2) [OF b] ih by (meson order.strict_trans2)
  ultimately show ?case using ih f x by auto
qed simp

lemma number_before_segment:
  assumes "seg_chain D end ret 160 1 ss" "0 < n" "n \<le> length ss" "j < length (installed_batches (take (n - 1) ss))"
  shows "store_numbers inst ss bs ! j < seg_first (fst (ss ! (n - 1)))"
proof -
  obtain s b where x: "ss ! (n - 1) = (s, b)" by force
  have ss: "ss = take (n - 1) ss @ (s, b) # drop n ss"
    using assms(2,3) id_take_nth_drop [of "n - 1" ss] x by simp
  have c: "seg_chain D end ret 160 1 (take (n - 1) ss @ (s, b) # drop n ss)" using assms(1) ss by simp
  have "store_numbers inst ss bs ! j = segment_numbers (take (n - 1) ss) ! j"
    using assms(4) by (subst (1) ss) (simp add: store_numbers_split nth_append)
  moreover have "segment_numbers (take (n - 1) ss) ! j \<in> set (segment_numbers (take (n - 1) ss))"
    using assms(4) by (intro nth_mem) simp
  ultimately have "unat (store_numbers inst ss bs ! j) < chain_next 1 (take (n - 1) ss)"
    using seg_chain_numbers [OF c] by simp
  then show ?thesis using seg_chain_mid(3) [OF c] x by (auto simp: word_less_nat_alt)
qed

lemma number_before_wal:
  assumes "database_view w h ss" "private_installed h \<noteq> UINT64_MAX" "j < length (installed_batches ss)"
  shows "store_numbers (private_installed h) ss bs ! j < private_installed h + 1"
proof -
  note d = database_viewD [OF assms(1)]
  have "segment_numbers ss ! j \<in> set (segment_numbers ss)" using assms(3) by (intro nth_mem) simp
  then have "unat (segment_numbers ss ! j) < chain_next 1 ss"
    using seg_chain_numbers [of _ _ _ _ _ ss "[]"] d(4) by simp
  moreover have "unat (private_installed h + 1) = unat (private_installed h) + 1"
  proof -
    have "unat (private_installed h) \<noteq> unat UINT64_MAX" using assms(2) by (metis word_unat_eq_iff)
    then show ?thesis using u64_bound [of "private_installed h"] by (subst u64_add) simp_all
  qed
  ultimately show ?thesis
    using d(12) assms(3) by (simp add: store_numbers_split nth_append word_less_nat_alt)
qed

section \<open>Where the order starts\<close>

text \<open>From every batch numbered \<open>q\<close> or higher on, the log is ordered by time.\<close>

definition ordered_at :: "timelite_batches \<Rightarrow> segment_content list \<Rightarrow> timelite_record list list \<Rightarrow> u64 \<Rightarrow> bool" where
  "ordered_at h ss bs q \<longleftrightarrow>
     (\<forall>j < length (store_batches ss bs). q \<le> store_numbers (private_installed h) ss bs ! j \<longrightarrow>
        sorted (batch_times (drop j (store_batches ss bs))))"

lemma sorted_suffix:
  assumes "sorted (batch_times (drop i log))" "i \<le> j"
  shows "sorted (batch_times (drop j log))"
proof -
  have "drop i log = take (j - i) (drop i log) @ drop j log"
    using assms(2) append_take_drop_id [of "j - i" "drop i log"] by simp
  then have "batch_times (drop i log) = batch_times (take (j - i) (drop i log)) @ batch_times (drop j log)"
    by (metis batch_times_simps(3))
  then show ?thesis using assms(1) by (simp add: sorted_append)
qed

lemma installed_take_drop: "installed_batches ss = installed_batches (take n ss) @ installed_batches (drop n ss)"
  by (metis append_take_drop_id installed_batches_simps(3))

lemma ordered_at_wal:
  assumes "store_view w h ss bs" "private_wal_ordered h" "private_installed h \<noteq> UINT64_MAX"
  shows "ordered_at h ss bs (private_installed h + 1)"
proof -
  have v: "database_view w h ss" "wal_times h bs" using assms(1) by (simp_all add: store_view_def)
  have "sorted (batch_times (drop (length (installed_batches ss)) (store_batches ss bs)))"
    using v(2) assms(2) by (simp add: wal_times_def store_batches_def)
  then show ?thesis
    unfolding ordered_at_def using number_before_wal [OF v(1) assms(3)] sorted_suffix
    by (metis leD not_less)
qed

lemma ordered_at_segment:
  assumes "store_view w h ss bs" "private_wal_ordered h" "unat (private_span_start h) \<le> length ss"
    and "bs = [] \<or> prior_maximum h ss \<le> private_wal_first_time h"
  shows "ordered_at h ss bs (seg_first (fst (ss ! (unat (private_span_start h) - 1))))"
proof -
  let ?n = "unat (private_span_start h)"
  have v: "database_view w h ss" "wal_times h bs" "wal_view w h bs" using assms(1) by (simp_all add: store_view_def)
  note d = database_viewD [OF v(1)]
  have "sorted (batch_times (installed_batches (drop (?n - 1) ss) @ bs))"
  proof (cases "bs = []")
    case True
    then show ?thesis
      using ordered_run_sorted [OF span_ordered_run [OF d(10,8)]] seg_chain_timed [OF d(4)]
      by (simp add: segments_timed_def) (meson in_set_dropD)
  next
    case False
    let ?s = "new_segment h 0" and ?ss = "ss @ [(new_segment h 0, bs)]"
    have ne: "batch_times bs \<noteq> []"
      using v(3) False by (intro batch_times_nonempty) (simp_all add: wal_view_def)
    have mn: "private_wal_minimum h = private_wal_first_time h"
      using v(2) assms(2) False sorted_Min_Max [OF _ ne] by (simp add: wal_times_def)
    have ssne: "ss \<noteq> []" using assms(3) d(8) by auto
    have "seg_maximum (fst (last ss)) \<le> seg_minimum ?s"
      using assms(3,4) False d(11) [OF ssne assms(3)] mn ssne
      by (auto simp: prior_maximum_def new_segment_def split: if_splits)
    then have sp: "span_ok ?ss ?n" using d(10) assms(2) by (intro span_ok_snoc) (simp_all add: new_segment_def)
    have "segments_timed ?ss"
      using seg_chain_timed [OF d(4)] wal_times_bounds(1) [OF v(3,2) False, of 0] wal_times_bounds(2) [OF v(3,2) False]
      by (auto simp: segments_timed_def new_segment_def)
    then have "segments_timed (drop (?n - 1) ?ss)" by (auto simp: segments_timed_def dest: in_set_dropD)
    from ordered_run_sorted [OF span_ordered_run [OF sp d(8)] this]
    have "sorted (batch_times (installed_batches (drop (?n - 1) ?ss)))" by blast
    then show ?thesis using assms(3) d(8) by simp
  qed
  moreover have "drop (length (installed_batches (take (?n - 1) ss))) (store_batches ss bs) =
      installed_batches (drop (?n - 1) ss) @ bs"
    by (simp add: store_batches_def installed_take_drop [of ss "?n - 1"])
  ultimately have "sorted (batch_times (drop (length (installed_batches (take (?n - 1) ss))) (store_batches ss bs)))" by simp
  then show ?thesis
    unfolding ordered_at_def using number_before_segment [OF d(4,8) assms(3)] sorted_suffix
    by (metis leD not_less)
qed

lemma ordered_from_answers:
  assumes "store_view w h ss bs" "private_installed h \<noteq> UINT64_MAX"
  shows "\<exists>q. answers q w (ordered_from h w) \<and> (private_wal_ordered h \<longrightarrow> ordered_at h ss bs q)"
proof -
  let ?f = "batch_file h False" and ?e = "private_data_end h" and ?n = "private_span_start h"
  have v: "database_view w h ss" "wal_view w h bs" using assms(1) by (simp_all add: store_view_def)
  note d = database_viewD [OF v(1)] and c = chain_in_view [OF v(1)]
  show ?thesis
  proof (cases "private_wal_ordered h \<and> ?n \<le> private_generation h")
    case False
    then show ?thesis
      using ordered_at_wal [OF assms(1) _ assms(2)]
      by (intro exI [of _ "if private_wal_ordered h then private_installed h + 1 else private_sequence h"])
        (auto simp: ordered_from_def Let_def)
  next
    case True
    then have n: "unat ?n \<le> unat (private_generation h)" by (simp add: word_le_nat_alt)
    then have ssne: "ss \<noteq> []" using d(6,8) by auto
    let ?s = "fst (ss ! (unat ?n - 1))" and ?z = "fst (last ss)"
    let ?final = "if private_retention h \<and> private_end h \<noteq> 32 then ?z else ?s"
    let ?c = "private_end h = 32 \<or> private_wal_first_time h \<ge>
        (if private_retention h then seg_maximum ?final else private_installed_time h)"
    let ?q = "if ?c then seg_first ?s else private_installed h + 1"
    have sa: "answers (seg_offset ss (unat ?n), ?s) w (segment_at ?f ?e (private_generation h) (private_last_segment h) ?n w)"
      using c d(5-8) n by (intro segment_at_answers) simp_all
    have fin: "answers ?final u (if private_retention h \<and> private_end h \<noteq> 32
        then read_segment ?f (private_last_segment h) ?e u else (Inr ?s, u))" if "same_files w u" for u
    proof (cases "private_retention h \<and> private_end h \<noteq> 32")
      case True
      have "answers ?z u (read_segment ?f (seg_offset ss (length ss)) ?e u)"
        using read_segment_answers [of ?f ?e ss u "length ss"] c that ssne by (simp add: chain_in_same last_conv_nth)
      then show ?thesis using True d(7) by simp
    next
      case False
      show ?thesis unfolding if_not_P [OF False] by simp
    qed
    have ans: "answers ?q w (io_bind (segment_at ?f ?e (private_generation h) (private_last_segment h) ?n)
        (\<lambda>(offset, segment). io_bind (\<lambda>w. if private_retention h \<and> private_end h \<noteq> 32
            then read_segment ?f (private_last_segment h) ?e w else (Inr segment, w)) (\<lambda>final w.
          if private_end h = 32 \<or> private_wal_first_time h \<ge>
              (if private_retention h then seg_maximum final else private_installed_time h)
          then (Inr (seg_first segment), w) else (Inr (private_installed h + 1), w))) w)"
      using sa
    proof (rule answers_bind, unfold prod.case)
      fix u assume "same_files w u"
      from fin [OF this] show "answers ?q u (io_bind (\<lambda>w. if private_retention h \<and> private_end h \<noteq> 32
            then read_segment ?f (private_last_segment h) ?e w else (Inr ?s, w)) (\<lambda>final w.
          if private_end h = 32 \<or> private_wal_first_time h \<ge>
              (if private_retention h then seg_maximum final else private_installed_time h)
          then (Inr (seg_first ?s), w) else (Inr (private_installed h + 1), w)) u)"
        by (rule answers_bind) simp
    qed
    have "ordered_at h ss bs ?q"
    proof (cases ?c)
      case ordered: True
      have "bs = [] \<or> prior_maximum h ss \<le> private_wal_first_time h"
        using ordered wal_view_end_32 [OF v(2)] ssne by (auto simp: prior_maximum_def split: if_splits)
      then show ?thesis using ordered_at_segment [OF assms(1)] True n d(6) ordered by simp
    next
      case False
      then show ?thesis using ordered_at_wal [OF assms(1) _ assms(2)] True by simp
    qed
    then show ?thesis using ans True unfolding ordered_from_def Let_def by auto
  qed
qed

section \<open>Reading a range\<close>

text \<open>A borrowed cursor that stands before batch \<open>i\<close> of the store of \<open>h\<close>.\<close>

definition reader ::
  "os \<Rightarrow> timelite_batches \<Rightarrow> timelite_batches \<Rightarrow> segment_content list \<Rightarrow> timelite_record list list \<Rightarrow> nat \<Rightarrow> bool" where
  "reader w h c ss bs i \<longleftrightarrow> store_view w h ss bs \<and> copy_cursor h c = c \<and> store_cursor c ss bs i"

lemma copy_cursor_absorb:
  "copy_cursor h (copy_cursor c d) = copy_cursor h d" "copy_cursor (copy_cursor h c) d = copy_cursor h d"
  "copy_cursor h h = h"
  by (simp_all add: copy_cursor_def)

lemma reader_self: "store_view w h ss bs \<Longrightarrow> store_cursor h ss bs i \<Longrightarrow> reader w h h ss bs i"
  by (simp add: reader_def copy_cursor_absorb)

lemma reader_step:
  assumes "reader w h c ss bs i" "read_cursor c w = (Inr (bytes, found, batch, c'), u)"
  shows "i < length (store_batches ss bs)" "batch = store_numbers (private_installed h) ss bs ! i"
    "bytes = encode_frame batch (store_batches ss bs ! i)" "found = length (store_batches ss bs ! i)"
    "valid_batch (store_batches ss bs ! i)" "reader u h c' ss bs (Suc i)"
proof -
  have r: "store_view w h ss bs" "copy_cursor h c = c" "store_cursor c ss bs i" using assms(1) by (simp_all add: reader_def)
  have v: "wal_view w c bs" "database_view w c ss" "private_installed c = private_installed h"
    using r(1) wal_view_copy_cursor(1) [of w h c bs] wal_view_copy_cursor(2) [of h c] copy_cursor_view(1) [of w h c ss] unfolding r(2) by (simp_all add: store_view_def)
  note f = read_cursor_store [OF r(3) v(1,2) assms(2), unfolded store_frame_def prod.case v(3)]
  then show i: "i < length (store_batches ss bs)" "batch = store_numbers (private_installed h) ss bs ! i"
    "bytes = encode_frame batch (store_batches ss bs ! i)" "found = length (store_batches ss bs ! i)" by auto
  show "valid_batch (store_batches ss bs ! i)" using store_batch_valid [OF r(1) i(1)] .
  have "store_view u h ss bs"
    using store_view_read [OF r(1) reads_onlyD [OF reads_only_read_cursor assms(2)], of h] by (simp add: copy_cursor_absorb)
  moreover have "copy_cursor h c' = c'"
    using read_cursor_InrD(5) [OF assms(2)] r(2) copy_cursor_absorb by metis
  ultimately show "reader u h c' ss bs (Suc i)" using f by (simp add: reader_def)
qed

lemma reader_quiet:
  assumes "reader w h c ss bs i" "script w = []"
  shows "if i < length (store_batches ss bs) then \<exists>r. read_cursor c w = (Inr r, w) else read_cursor c w = (Inl END, w)"
proof -
  have r: "store_view w h ss bs" "copy_cursor h c = c" "store_cursor c ss bs i" using assms(1) by (simp_all add: reader_def)
  have "wal_view w c bs" "database_view w c ss"
    using r(1) wal_view_copy_cursor(1) [of w h c bs] wal_view_copy_cursor(2) [of h c] copy_cursor_view(1) [of w h c ss] unfolding r(2) by (simp_all add: store_view_def)
  from read_cursor_store_quiet [OF r(3) assms(2) this] show ?thesis .
qed

text \<open>The first batch from \<open>i\<close> on that satisfies a condition.\<close>

definition first_batch :: "('a \<Rightarrow> bool) \<Rightarrow> 'a list \<Rightarrow> nat \<Rightarrow> nat \<Rightarrow> bool" where
  "first_batch P log i j \<longleftrightarrow> i \<le> j \<and> j < length log \<and> P (log ! j) \<and> (\<forall>k. i \<le> k \<longrightarrow> k < j \<longrightarrow> \<not> P (log ! k))"

lemma first_batch_here: "i < length log \<Longrightarrow> P (log ! i) \<Longrightarrow> first_batch P log i i"
  by (simp add: first_batch_def)

lemma first_batch_later: "\<not> P (log ! i) \<Longrightarrow> first_batch P log (Suc i) j \<Longrightarrow> first_batch P log i j"
  unfolding first_batch_def by (metis Suc_leD Suc_leI le_neq_implies_less)

definition hits :: "timelite_range \<Rightarrow> timelite_record list \<Rightarrow> bool" where
  "hits rg rs \<longleftrightarrow> filter (in_range rg) rs \<noteq> []"

lemma ordered_no_hits:
  assumes "sorted (batch_times (drop j log))" "j < length log" "log ! j \<noteq> []" "until_us rg \<le> timestamp_us (log ! j ! 0)"
    and "j \<le> k" "k < length log"
  shows "\<not> hits rg (log ! k)"
proof
  assume "hits rg (log ! k)"
  then obtain r where r: "r \<in> set (log ! k)" "timestamp_us r < until_us rg"
    by (auto simp: hits_def in_range_def filter_empty_conv)
  have "log ! k \<in> set (drop j log)" using assms(5,6) nth_mem [of "k - j" "drop j log"] by simp
  then have mem: "timestamp_us r \<in> set (batch_times (drop j log))" using r(1) by (auto simp: batch_times_def)
  have dj: "drop j log = log ! j # drop (Suc j) log" using assms(2) by (simp add: Cons_nth_drop_Suc)
  obtain x xs where x: "log ! j = x # xs" using assms(3) by (cases "log ! j") simp_all
  have "timestamp_us (log ! j ! 0) \<le> timestamp_us r"
    using mem assms(1) unfolding dj x by auto
  then show False using r(2) assms(4) by (meson leD order_trans)
qed

lemma range_loop_step:
  assumes "read_cursor c w = (Inr (bytes, found, batch, c'), u)"
  shows "range_loop h rg cap q c w =
    (let matches = matching bytes found rg
     in if matches \<noteq> [] then (if length matches > cap then (Inl BUFFER_TOO_SMALL, u) else (Inr (matches, batch, c'), u))
        else if batch \<ge> q \<and> private_wal_ordered h \<and> frame_time bytes 0 \<ge> until_us rg then (Inl END, u)
        else range_loop h rg cap q c' u)"
  using assms by (subst range_loop.simps) simp

text \<open>What the loop returns, for the batches from \<open>i\<close> on; an error without faults is one the result says.\<close>

lemma range_loop_spec:
  assumes "range_loop h rg cap q c w = (x, w')" "reader w h c ss bs i"
    and "private_wal_ordered h \<longrightarrow> ordered_at h ss bs q"
  defines "log \<equiv> store_batches ss bs"
  shows "(\<forall>ms b c'. x = Inr (ms, b, c') \<longrightarrow> (\<exists>j. first_batch (hits rg) log i j \<and> ms = filter (in_range rg) (log ! j) \<and>
        length ms \<le> cap \<and> b = store_numbers (private_installed h) ss bs ! j \<and> reader w' h c' ss bs (Suc j))) \<and>
    (script w = [] \<longrightarrow> w' = w \<and> (\<forall>e. x = Inl e \<longrightarrow>
        e = END \<and> (\<forall>k. i \<le> k \<longrightarrow> k < length log \<longrightarrow> \<not> hits rg (log ! k)) \<or>
        e = BUFFER_TOO_SMALL \<and> (\<exists>j. first_batch (hits rg) log i j \<and> cap < length (filter (in_range rg) (log ! j)))))"
  using assms(1,2)
proof (induction "length log - i" arbitrary: c w i rule: less_induct)
  case less
  obtain y u where y: "read_cursor c w = (y, u)" by force
  show ?case
  proof (cases y)
    case (Inl e)
    then have "x = Inl e" "w' = u" using less.prems(1) y by (subst (asm) range_loop.simps, simp)+
    moreover have "\<not> i < length log \<and> e = END \<and> u = w" if "script w = []"
      using reader_quiet [OF less.prems(2) that] y Inl by (auto simp: log_def split: if_splits)
    ultimately show ?thesis by auto
  next
    case (Inr r)
    obtain bytes found batch c' where r: "r = (bytes, found, batch, c')" by (metis surj_pair)
    note rc = y [unfolded Inr r]
    note s = reader_step [OF less.prems(2) rc, folded log_def]
    have q: "u = w" if "script w = []" using reader_quiet [OF less.prems(2) that] rc s(1) by (auto simp: log_def)
    have m: "matching bytes found rg = filter (in_range rg) (log ! i)" using s(3-5) by (simp add: matching_frame)
    note eq = less.prems(1) [unfolded range_loop_step [OF rc] Let_def m]
    show ?thesis
    proof (cases "hits rg (log ! i)")
      case True
      note f = first_batch_here [of i log "hits rg", OF s(1) True]
      show ?thesis
        using eq True s f q by (auto simp: hits_def split: if_splits)
    next
      case False
      have ft: "frame_time bytes 0 = timestamp_us (log ! i ! 0)"
        using s(3,5) by (simp add: frame_time_frame valid_batch_def)
      show ?thesis
      proof (cases "batch \<ge> q \<and> private_wal_ordered h \<and> frame_time bytes 0 \<ge> until_us rg")
        case True
        then have "sorted (batch_times (drop i log))" using assms(3) s(1,2) by (simp add: ordered_at_def log_def)
        from ordered_no_hits [OF this s(1)] True ft s(5)
        have none: "\<And>k. i \<le> k \<Longrightarrow> k < length log \<Longrightarrow> \<not> hits rg (log ! k)" by (simp add: valid_batch_def)
        have "x = Inl END" "w' = u" using eq False True by (simp_all add: hits_def)
        then show ?thesis using none q by simp
      next
        case go: False
        have rl: "range_loop h rg cap q c' u = (x, w')" using eq False go by (auto simp: hits_def split: if_splits)
        have "length log - Suc i < length log - i" using s(1) by simp
        note ih = less.hyps [OF this rl s(6)]
        show ?thesis
        proof (intro conjI allI impI)
          fix ms b d assume "x = Inr (ms, b, d)"
          then obtain j where "first_batch (hits rg) log (Suc i) j" "ms = filter (in_range rg) (log ! j)"
            "length ms \<le> cap" "b = store_numbers (private_installed h) ss bs ! j" "reader w' h d ss bs (Suc j)"
            using ih by blast
          then show "\<exists>j. first_batch (hits rg) log i j \<and> ms = filter (in_range rg) (log ! j) \<and>
              length ms \<le> cap \<and> b = store_numbers (private_installed h) ss bs ! j \<and> reader w' h d ss bs (Suc j)"
            using first_batch_later [of "hits rg" log i, OF False] by blast
        next
          assume qu: "script w = []"
          then show "w' = w" using ih q by simp
          fix e assume e: "x = Inl e"
          have uu: "script u = []" using q [OF qu] qu by simp
          from ih uu e have "e = END \<and> (\<forall>k. Suc i \<le> k \<longrightarrow> k < length log \<longrightarrow> \<not> hits rg (log ! k)) \<or>
            e = BUFFER_TOO_SMALL \<and> (\<exists>j. first_batch (hits rg) log (Suc i) j \<and> cap < length (filter (in_range rg) (log ! j)))"
            by blast
          then show "e = END \<and> (\<forall>k. i \<le> k \<longrightarrow> k < length log \<longrightarrow> \<not> hits rg (log ! k)) \<or>
            e = BUFFER_TOO_SMALL \<and> (\<exists>j. first_batch (hits rg) log i j \<and> cap < length (filter (in_range rg) (log ! j)))"
            using first_batch_later [of "hits rg" log i, OF False] False by (metis Suc_leI le_neq_implies_less)
        qed
      qed
    qed
  qed
qed

lemma next_range_ready:
  assumes "store_view w h ss bs" "\<not> bad_range (Some rg)" "TIMELITE_BATCH_SCRATCH \<le> n" "cap = 0 \<or> records = Some ()"
  shows "timelite_batches_next_range (Some h) (Some rg) records cap (Some ()) (Some ()) (Some ()) n w =
    (if from_us rg = until_us rg then ((Inl END, Some h), w)
     else case ordered_from h w of
       (Inl e, w) \<Rightarrow> ((Inl e, Some h), w)
     | (Inr q, w) \<Rightarrow>
         (case range_loop h rg cap q h w of
            (Inl e, w) \<Rightarrow> ((Inl e, Some h), w)
          | (Inr (matches, batch, cursor), w) \<Rightarrow> ((Inr (matches, batch), Some (copy_cursor h cursor)), w)))"
proof -
  have "batch_ready (Some h) = None" using assms(1) by (auto simp: store_view_def intro: wal_view_ready)
  then show ?thesis
    using assms(2-4) by (auto simp: timelite_batches_next_range_def read_arguments_def split: prod.splits sum.splits)
qed

lemma next_range_store:
  assumes "store_view w h ss bs" "store_cursor h ss bs i" "private_installed h \<noteq> UINT64_MAX"
    and "\<not> bad_range (Some rg)" "TIMELITE_BATCH_SCRATCH \<le> n" "cap = 0 \<or> records = Some ()"
    and "timelite_batches_next_range (Some h) (Some rg) records cap (Some ()) (Some ()) (Some ()) n w = ((x, db'), w')"
  defines "log \<equiv> store_batches ss bs"
  shows "\<forall>ms b. x = Inr (ms, b) \<longrightarrow> (\<exists>j h'. db' = Some h' \<and> first_batch (hits rg) log i j \<and>
      ms = filter (in_range rg) (log ! j) \<and> length ms \<le> cap \<and> b = store_numbers (private_installed h) ss bs ! j \<and>
      store_view w' h' ss bs \<and> store_cursor h' ss bs (Suc j) \<and> private_installed h' = private_installed h)"
    "\<forall>e. x = Inl e \<longrightarrow> db' = Some h"
    "script w = [] \<longrightarrow> w' = w \<and> (\<forall>e. x = Inl e \<longrightarrow>
      e = END \<and> (\<forall>k. i \<le> k \<longrightarrow> k < length log \<longrightarrow> \<not> hits rg (log ! k)) \<or>
      e = BUFFER_TOO_SMALL \<and> (\<exists>j. first_batch (hits rg) log i j \<and> cap < length (filter (in_range rg) (log ! j))))"
proof -
  note eq = assms(7) [unfolded next_range_ready [OF assms(1,4-6)]]
  show "\<forall>e. x = Inl e \<longrightarrow> db' = Some h" using eq by (auto split: if_splits prod.splits sum.splits)
  have empty: "\<not> hits rg rs" if "from_us rg = until_us rg" for rs
    using that by (auto simp: hits_def in_range_def filter_empty_conv)
  obtain q where q: "answers q w (ordered_from h w)" "private_wal_ordered h \<longrightarrow> ordered_at h ss bs q"
    using ordered_from_answers [OF assms(1,3)] by blast
  obtain y u where y: "ordered_from h w = (y, u)" by force
  have su: "same_files w u" using reads_onlyD [OF reads_only_ordered_from y] .
  have vu: "store_view u h ss bs" using store_view_read [OF assms(1) su, of h] by (simp add: copy_cursor_absorb)
  obtain z v where z: "range_loop h rg cap q h u = (z, v)" by force
  note spec = range_loop_spec [OF z reader_self [OF vu assms(2)] q(2), folded log_def]
  have yq: "y = Inr q" if "y = Inr p" for p using q(1) y that answers_InrD by metis
  have quiet: "y = Inr q \<and> u = w" if "script w = []" using answers_quiet [OF q(1) that] y by simp
  have zs: "v = w \<and> (\<forall>e. z = Inl e \<longrightarrow>
      e = END \<and> (\<forall>k. i \<le> k \<longrightarrow> k < length log \<longrightarrow> \<not> hits rg (log ! k)) \<or>
      e = BUFFER_TOO_SMALL \<and> (\<exists>j. first_batch (hits rg) log i j \<and> cap < length (filter (in_range rg) (log ! j))))"
    if "script w = []" using spec quiet [OF that] that by blast
  show "\<forall>ms b. x = Inr (ms, b) \<longrightarrow> (\<exists>j h'. db' = Some h' \<and> first_batch (hits rg) log i j \<and>
      ms = filter (in_range rg) (log ! j) \<and> length ms \<le> cap \<and> b = store_numbers (private_installed h) ss bs ! j \<and>
      store_view w' h' ss bs \<and> store_cursor h' ss bs (Suc j) \<and> private_installed h' = private_installed h)"
  proof (intro allI impI)
    fix ms b assume x: "x = Inr (ms, b)"
    obtain p where "y = Inr p" using eq x y by (auto split: if_splits sum.splits)
    then have y': "y = Inr q" using yq by blast
    obtain c where c: "z = Inr (ms, b, c)" "db' = Some (copy_cursor h c)" "w' = v"
      using eq x y y' z by (auto split: if_splits sum.splits)
    from spec c(1) obtain j where j: "first_batch (hits rg) log i j" "ms = filter (in_range rg) (log ! j)"
      "length ms \<le> cap" "b = store_numbers (private_installed h) ss bs ! j" "reader v h c ss bs (Suc j)"
      by blast
    have "copy_cursor h c = c" "store_view v h ss bs" "store_cursor c ss bs (Suc j)" using j(5) by (simp_all add: reader_def)
    moreover have "store_view v (copy_cursor h c) ss bs"
      using store_view_read [OF calculation(2), of v c] by (simp add: same_files_def)
    ultimately show "\<exists>j h'. db' = Some h' \<and> first_batch (hits rg) log i j \<and>
      ms = filter (in_range rg) (log ! j) \<and> length ms \<le> cap \<and> b = store_numbers (private_installed h) ss bs ! j \<and>
      store_view w' h' ss bs \<and> store_cursor h' ss bs (Suc j) \<and> private_installed h' = private_installed h"
      using j c(2,3) wal_view_copy_cursor(2) [of h c] by auto
  qed
  show "script w = [] \<longrightarrow> w' = w \<and> (\<forall>e. x = Inl e \<longrightarrow>
      e = END \<and> (\<forall>k. i \<le> k \<longrightarrow> k < length log \<longrightarrow> \<not> hits rg (log ! k)) \<or>
      e = BUFFER_TOO_SMALL \<and> (\<exists>j. first_batch (hits rg) log i j \<and> cap < length (filter (in_range rg) (log ! j))))"
  proof
    assume qu: "script w = []"
    show "w' = w \<and> (\<forall>e. x = Inl e \<longrightarrow>
      e = END \<and> (\<forall>k. i \<le> k \<longrightarrow> k < length log \<longrightarrow> \<not> hits rg (log ! k)) \<or>
      e = BUFFER_TOO_SMALL \<and> (\<exists>j. first_batch (hits rg) log i j \<and> cap < length (filter (in_range rg) (log ! j))))"
    proof (cases "from_us rg = until_us rg")
      case True
      then show ?thesis using eq empty by auto
    next
      case False
      have e2: "(case z of Inl e \<Rightarrow> ((Inl e, Some h), v)
          | Inr (matches, batch, cursor) \<Rightarrow> ((Inr (matches, batch), Some (copy_cursor h cursor)), v)) = ((x, db'), w')"
        using eq False y quiet [OF qu] z by (simp split: sum.splits prod.splits)
      show ?thesis
      proof (cases z)
        case (Inl e)
        then show ?thesis using e2 zs [OF qu] by auto
      next
        case (Inr a)
        then show ?thesis using e2 zs [OF qu] by (auto split: prod.splits)
      qed
    qed
  qed
qed

section \<open>Aggregating a range\<close>

text \<open>Count, minimum and maximum of the values of some records.\<close>

definition aggregate_of :: "timelite_record list \<Rightarrow> timelite_aggregate" where
  "aggregate_of rs =
     \<lparr>record_count = of_nat (length rs), minimum_value = (if rs = [] then 0 else Min (value_i64 ` set rs)),
      maximum_value = (if rs = [] then 0 else Max (value_i64 ` set rs))\<rparr>"

lemma aggregate_record_min_max:
  "record_count a \<noteq> 0 \<Longrightarrow> aggregate_record a r =
     a\<lparr>minimum_value := min (value_i64 r) (minimum_value a), maximum_value := max (value_i64 r) (maximum_value a),
       record_count := record_count a + 1\<rparr>"
  by (auto simp: aggregate_record_def Let_def min_def max_def)

lemma aggregate_record_of:
  assumes "length xs < 2 ^ 64"
  shows "aggregate_record (aggregate_of xs) r = aggregate_of (xs @ [r])"
proof (cases "xs = []")
  case True
  then show ?thesis by (simp add: aggregate_record_def aggregate_of_def Let_def)
next
  case False
  have "unat (of_nat (length xs) :: u64) = length xs" using assms by (rule u64_of_nat)
  then have n: "(of_nat (length xs) :: u64) \<noteq> 0" using False by auto
  have "Min (value_i64 ` set (xs @ [r])) = min (value_i64 r) (Min (value_i64 ` set xs))"
    "Max (value_i64 ` set (xs @ [r])) = max (value_i64 r) (Max (value_i64 ` set xs))"
    using False by simp_all
  then show ?thesis
    using False n by (simp add: aggregate_record_min_max aggregate_of_def)
qed

lemma foldl_aggregate:
  "length (xs @ rs) < 2 ^ 64 \<Longrightarrow> foldl aggregate_record (aggregate_of xs) rs = aggregate_of (xs @ rs)"
proof (induction rs arbitrary: xs)
  case (Cons r rs)
  then show ?case using Cons.IH [of "xs @ [r]"] by (simp add: aggregate_record_of)
qed simp

text \<open>The files are too small for the counter to wrap.\<close>

lemma seg_chain_batches: "seg_chain D end ret off sq ss \<Longrightarrow> unat off + 84 * length (installed_batches ss) \<le> unat end"
proof (induction D "end" ret off sq ss rule: seg_chain.induct)
  case (2 D e ret off sq s bs ss)
  then have d: "decode_segment D off e = Inr s" and b: "segment_body D off s bs" by simp_all
  note n = decode_segment_InrD [OF d]
  have "84 * length bs \<le> unat (seg_body s)"
    using b length_encode_frames_bounds(1) [of bs "seg_first s"] unfolding segment_body_def by auto
  moreover have "unat (off + segment_extent s) + 84 * length (installed_batches ss) \<le> unat e" using 2 by simp
  ultimately show ?case using n(6,7) by simp
qed simp

lemma length_concat_le: "(\<And>r. r \<in> set xs \<Longrightarrow> length r \<le> k) \<Longrightarrow> length (concat xs) \<le> k * length xs"
proof (induction xs)
  case (Cons x xs)
  have "length x \<le> k" "length (concat xs) \<le> k * length xs" using Cons by simp_all
  then show ?case by simp
qed simp

lemma store_record_bound:
  assumes "store_view w h ss bs"
  shows "length (concat (store_batches ss bs)) < 2 ^ 40"
proof -
  have v: "database_view w h ss" "wal_view w h bs" using assms by (simp_all add: store_view_def)
  note d = database_viewD [OF v(1)]
  have a: "84 * length (installed_batches ss) \<le> 2 ^ 30" using seg_chain_batches [OF d(4)] d(3) by simp
  have "84 * length bs \<le> 2 ^ 30"
  proof (cases "bs = []")
    case False
    from wal_view_sizes(3,5) [OF v(2) False] show ?thesis by simp
  qed simp
  with a have n: "length (store_batches ss bs) \<le> 2 ^ 30" by (simp add: store_batches_def)
  have "length r \<le> 64" if "r \<in> set (store_batches ss bs)" for r
    using store_batch_valid [OF assms] that by (auto simp: in_set_conv_nth valid_batch_def)
  then have "length (concat (store_batches ss bs)) \<le> 64 * length (store_batches ss bs)"
    by (rule length_concat_le)
  with n show ?thesis by simp
qed

lemma filter_concat_none:
  assumes "\<And>k. i \<le> k \<Longrightarrow> k < j \<Longrightarrow> \<not> hits rg (log ! k)" "i \<le> j" "j \<le> length log"
  shows "filter (in_range rg) (concat (take j log)) = filter (in_range rg) (concat (take i log))"
  using assms(2,3,1)
proof (induction j rule: dec_induct)
  case (step n)
  have "take (Suc n) log = take n log @ [log ! n]" using step.prems(1) by (simp add: take_Suc_conv_app_nth)
  moreover have "filter (in_range rg) (log ! n) = []" using step.prems(2) [of n] step.hyps by (simp add: hits_def)
  ultimately show ?case using step by simp
qed simp

lemma filter_concat_first:
  assumes "first_batch (hits rg) log i j"
  shows "filter (in_range rg) (concat (take (Suc j) log)) =
    filter (in_range rg) (concat (take i log)) @ filter (in_range rg) (log ! j)"
proof -
  have j: "i \<le> j" "j < length log" "\<And>k. i \<le> k \<Longrightarrow> k < j \<Longrightarrow> \<not> hits rg (log ! k)"
    using assms by (auto simp: first_batch_def)
  have "take (Suc j) log = take j log @ [log ! j]" using j(2) by (simp add: take_Suc_conv_app_nth)
  then show ?thesis using filter_concat_none [of i j rg log] j by simp
qed

lemma reset_cursor_copy: "copy_cursor h (reset_cursor h) = reset_cursor h"
  by (simp add: copy_cursor_def reset_cursor_def)

lemma store_rewound:
  assumes "store_view w h ss bs"
  shows "store_view w (reset_cursor h) ss bs" "store_cursor (reset_cursor h) ss bs 0"
    "private_installed (reset_cursor h) = private_installed h"
proof -
  show "store_view w (reset_cursor h) ss bs"
    using store_view_read [OF assms, of w "reset_cursor h"] reset_cursor_copy by (simp add: same_files_def)
  have "store_cursor (reset_cursor h) ([] @ ss) bs (length (installed_batches []))"
    by (rule store_cursor.at_boundary) (simp_all add: reset_cursor_def boundary_cursor_def)
  then show "store_cursor (reset_cursor h) ss bs 0" by simp
  show "private_installed (reset_cursor h) = private_installed h" by (simp add: reset_cursor_def)
qed

lemma aggregate_loop_quiet:
  assumes "script w = []" "\<not> bad_range (Some rg)" "TIMELITE_BATCH_SCRATCH \<le> n"
  shows "store_view w c ss bs \<Longrightarrow> store_cursor c ss bs i \<Longrightarrow> private_installed c \<noteq> UINT64_MAX \<Longrightarrow>
    aggregate_loop c (Some rg) (Some ()) n (aggregate_of (filter (in_range rg) (concat (take i (store_batches ss bs))))) w =
      ((END, aggregate_of (filter (in_range rg) (concat (store_batches ss bs)))), w)"
proof (induction "length (store_batches ss bs) - i" arbitrary: c i rule: less_induct)
  case less
  let ?log = "store_batches ss bs"
  obtain x db' u where nr: "timelite_batches_next_range (Some c) (Some rg) (Some ()) TIMELITE_MAX_RECORDS
      (Some ()) (Some ()) (Some ()) n w = ((x, db'), u)" by (metis surj_pair)
  note s = next_range_store [OF less.prems assms(2,3) _ nr]
  have u: "u = w" using s(3) assms(1) by simp
  show ?case
  proof (cases x)
    case (Inl e)
    have small: "\<not> TIMELITE_MAX_RECORDS < length (filter (in_range rg) (?log ! j))" if "j < length ?log" for j
    proof -
      have "length (?log ! j) \<le> TIMELITE_MAX_RECORDS"
        using store_batch_valid [OF less.prems(1) that] by (simp add: valid_batch_def)
      then show ?thesis using length_filter_le [of "in_range rg" "?log ! j"] by linarith
    qed
    have "e = END \<and> (\<forall>k. i \<le> k \<longrightarrow> k < length ?log \<longrightarrow> \<not> hits rg (?log ! k))"
      using s(3) assms(1) Inl small by (auto simp: first_batch_def)
    then have e: "e = END" and none: "\<And>k. i \<le> k \<Longrightarrow> k < length ?log \<Longrightarrow> \<not> hits rg (?log ! k)" by auto
    have "filter (in_range rg) (concat (take i ?log)) = filter (in_range rg) (concat ?log)"
      using filter_concat_none [of i "length ?log" rg ?log] none by (cases "i \<le> length ?log") simp_all
    then show ?thesis using nr Inl e u by (subst aggregate_loop.simps) simp
  next
    case (Inr y)
    obtain ms b where y: "y = (ms, b)" by force
    from s(1) Inr y obtain j h' where j: "db' = Some h'" "first_batch (hits rg) ?log i j"
      "ms = filter (in_range rg) (?log ! j)" "store_view u h' ss bs" "store_cursor h' ss bs (Suc j)"
      "private_installed h' = private_installed c" by blast
    have bound: "length (filter (in_range rg) (concat (take (Suc j) ?log))) < 2 ^ 64"
    proof -
      have "concat ?log = concat (take (Suc j) ?log) @ concat (drop (Suc j) ?log)"
        by (metis append_take_drop_id concat_append)
      then have "length (concat (take (Suc j) ?log)) \<le> length (concat ?log)" by simp
      then show ?thesis
        using store_record_bound [OF less.prems(1)] length_filter_le [of "in_range rg" "concat (take (Suc j) ?log)"]
        by (simp del: length_filter_le)
    qed
    have f: "foldl aggregate_record (aggregate_of (filter (in_range rg) (concat (take i ?log)))) ms =
        aggregate_of (filter (in_range rg) (concat (take (Suc j) ?log)))"
      using foldl_aggregate bound unfolding filter_concat_first [OF j(2)] j(3) by blast
    have "length ?log - Suc j < length ?log - i" using j(2) by (auto simp: first_batch_def)
    from less.hyps [OF this j(4) [unfolded u] j(5)] less.prems(3) j(6)
    show ?thesis using nr Inr y j(1) u f by (subst aggregate_loop.simps) simp
  qed
qed

lemma aggregate_quiet:
  assumes "script w = []" "store_view w h ss bs" "private_installed h \<noteq> UINT64_MAX"
    and "\<not> bad_range (Some rg)" "TIMELITE_BATCH_SCRATCH \<le> n"
  shows "timelite_batches_aggregate_range (Some h) (Some rg) (Some ()) (Some ()) n w =
    (Inr (aggregate_of (filter (in_range rg) (concat (store_batches ss bs)))), w)"
proof -
  have r: "batch_ready (Some h) = None" using assms(2) by (auto simp: store_view_def intro: wal_view_ready)
  note l = aggregate_loop_quiet [OF assms(1,4,5) store_rewound(1,2) [OF assms(2)]]
  show ?thesis
    using l store_rewound(3) [OF assms(2)] r assms(3-5)
    by (simp add: timelite_batches_aggregate_range_def read_arguments_def aggregate_of_def)
qed

section \<open>Properties\<close>

text \<open>
  C5. A range read finds the next matching batch.  If \<open>timelite_batches_next_range\<close> returns records, under
  whatever faults, they are the records in the range of the first batch from the cursor on that has
  any, with that batch's sequence number, and the cursor stands after that batch.  Without faults it
  reports \<open>TIMELITE_END\<close> only when no batch from the cursor on has a record in the range, although it stops
  reading at the first batch past the range where the log is ordered, and \<open>TIMELITE_BUFFER_TOO_SMALL\<close>
  only when the matching records do not fit.
\<close>

theorem range_read_first_match:
  assumes "store_view w h ss bs" "store_cursor h ss bs i" "private_installed h \<noteq> UINT64_MAX"
    and "\<not> bad_range (Some rg)" "TIMELITE_BATCH_SCRATCH \<le> n"
    and "timelite_batches_next_range (Some h) (Some rg) (Some ()) cap (Some ()) (Some ()) (Some ()) n w = ((x, db'), w')"
  defines "log \<equiv> store_batches ss bs"
  shows "case x of
      Inr (ms, b) \<Rightarrow> \<exists>j h'. db' = Some h' \<and> first_batch (hits rg) log i j \<and> ms = filter (in_range rg) (log ! j) \<and>
        b = store_numbers (private_installed h) ss bs ! j \<and> store_view w' h' ss bs \<and> store_cursor h' ss bs (Suc j)
    | Inl e \<Rightarrow> db' = Some h \<and> (script w = [] \<longrightarrow>
        e = END \<and> (\<forall>k. i \<le> k \<longrightarrow> k < length log \<longrightarrow> filter (in_range rg) (log ! k) = []) \<or>
        e = BUFFER_TOO_SMALL \<and> (\<exists>j. first_batch (hits rg) log i j \<and> cap < length (filter (in_range rg) (log ! j))))"
proof (cases x)
  case (Inl e)
  then show ?thesis
    using next_range_store(2,3) [OF assms(1-5) _ assms(6), folded log_def] by (auto simp: hits_def)
next
  case (Inr y)
  obtain ms b where y: "y = (ms, b)" by force
  from next_range_store(1) [OF assms(1-5) disjI2 [OF refl] assms(6), folded log_def] Inr y
  obtain j h' where "db' = Some h'" "first_batch (hits rg) log i j" "ms = filter (in_range rg) (log ! j)"
    "b = store_numbers (private_installed h) ss bs ! j" "store_view w' h' ss bs" "store_cursor h' ss bs (Suc j)" by blast
  then show ?thesis unfolding Inr y sum.case prod.case by (intro exI [of _ j] exI [of _ h']) simp
qed

text \<open>
  C13. An aggregate is exact: without faults \<open>timelite_batches_aggregate_range\<close> returns the number of all
  records of the store in the range and the minimum and maximum of their values (zero when there is
  none); the counter cannot wrap.
\<close>

theorem aggregate_exact:
  assumes "script w = []" "store_view w h ss bs" "private_installed h \<noteq> UINT64_MAX"
    and "\<not> bad_range (Some rg)" "TIMELITE_BATCH_SCRATCH \<le> n"
  defines "rs \<equiv> filter (in_range rg) (concat (store_batches ss bs))"
  shows "\<exists>a. timelite_batches_aggregate_range (Some h) (Some rg) (Some ()) (Some ()) n w = (Inr a, w) \<and>
    unat (record_count a) = length rs \<and>
    (rs \<noteq> [] \<longrightarrow> minimum_value a = Min (value_i64 ` set rs) \<and> maximum_value a = Max (value_i64 ` set rs)) \<and>
    (rs = [] \<longrightarrow> minimum_value a = 0 \<and> maximum_value a = 0)"
proof -
  have "length rs < 2 ^ 64"
    using store_record_bound [OF assms(2)] length_filter_le [of "in_range rg" "concat (store_batches ss bs)"]
    unfolding rs_def by (simp del: length_filter_le)
  then have "unat (record_count (aggregate_of rs)) = length rs" by (simp add: aggregate_of_def u64_of_nat)
  then show ?thesis using aggregate_quiet [OF assms(1-5), folded rs_def] by (simp add: aggregate_of_def)
qed

text \<open>
  C20. Queries change nothing: whatever their arguments and their outcome, \<open>timelite_batches_seek\<close>,
  \<open>timelite_batches_next_range\<close> and \<open>timelite_batches_aggregate_range\<close> leave every file, its durable
  contents, every descriptor and every lock as they were.
\<close>

theorem queries_change_nothing:
  "same_files w (snd (timelite_batches_seek db t scratch n w)) \<and>
   same_files w (snd (timelite_batches_next_range db rg records cap count sequence scratch n w)) \<and>
   same_files w (snd (timelite_batches_aggregate_range db rg result scratch n w))"
  using seek_same next_range_same aggregate_same by (metis surjective_pairing)

definition sample_range :: timelite_range where
  "sample_range = \<lparr>from_us = 0, until_us = 2000, range_series = 7, filter_series = 1\<rparr>"

lemma sample_range_simps [simp]:
  "\<not> bad_range (Some sample_range)" "in_range sample_range sample_record" "hits sample_range [sample_record]"
  by (simp_all add: sample_range_def bad_range_def in_range_def hits_def sample_record_def)

lemma sample_installed: "store_view w h [] [[sample_record]] \<Longrightarrow> private_sequence h = 1 \<Longrightarrow> private_installed h = 0"
  by (simp add: store_view_def wal_view_def unat_eq_0)

theorem range_read_first_match_witness:
  "\<exists>h w h'. timelite_batches_next_range (Some h) (Some sample_range) (Some ()) TIMELITE_MAX_RECORDS (Some ()) (Some ())
     (Some ()) TIMELITE_BATCH_SCRATCH w = ((Inr ([sample_record], 1), Some h'), w)"
proof -
  obtain h w where a: "script w = []" "store_view w h [] [[sample_record]]" "store_cursor h [] [[sample_record]] 0"
    "private_sequence h = 1" by (rule sample_appended) blast
  note inst = sample_installed [OF a(2,4)]
  obtain x db' u where r: "timelite_batches_next_range (Some h) (Some sample_range) (Some ()) TIMELITE_MAX_RECORDS
      (Some ()) (Some ()) (Some ()) TIMELITE_BATCH_SCRATCH w = ((x, db'), u)" by (metis surj_pair)
  have log: "store_batches [] [[sample_record]] = [[sample_record]]" "store_numbers 0 [] [[sample_record]] = [1]"
    by (simp_all add: store_batches_def store_numbers_def numbers_def)
  have u: "u = w" using next_range_store(3) [OF a(2,3) _ _ _ _ r] inst a(1) by simp
  note s = range_read_first_match [OF a(2,3) _ _ _ r, unfolded log inst]
  show ?thesis
  proof (cases x)
    case (Inl e)
    then show ?thesis using s a(1) by (auto simp: first_batch_def)
  next
    case (Inr y)
    then show ?thesis using s r u by (cases y) (auto simp: first_batch_def)
  qed
qed

theorem aggregate_exact_witness:
  "\<exists>h w a. timelite_batches_aggregate_range (Some h) (Some sample_range) (Some ()) (Some ()) TIMELITE_BATCH_SCRATCH w =
     (Inr a, w) \<and> unat (record_count a) = 1 \<and> minimum_value a = -5 \<and> maximum_value a = -5"
proof -
  obtain h w where a: "script w = []" "store_view w h [] [[sample_record]]" "private_sequence h = 1"
    by (rule sample_appended) blast
  have "filter (in_range sample_range) (concat (store_batches [] [[sample_record]])) = [sample_record]"
    by (simp add: store_batches_def)
  then show ?thesis
    using aggregate_exact [OF a(1,2), of sample_range TIMELITE_BATCH_SCRATCH] sample_installed [OF a(2,3)]
    by (auto simp: sample_record_def)
qed

end
