(* ===== verification/TL_SeekStore.thy ===== *)
theory TL_SeekStore
  imports TL_QueryStore
begin

text \<open>
  \<open>timelite_batches_seek\<close> on a store: the scan of the prefix that may be unordered, the binary search over
  the ordered segments and the final scan together find the first batch that reaches the time asked for.
\<close>

section \<open>The sequence a cursor expects\<close>

lemma wal_word_numbers:
  assumes "store_view w h ss bs" "private_sequence h \<noteq> UINT64_MAX" "k \<le> length bs"
  shows "unat (private_installed h + 1 + of_nat k) = unat (private_installed h) + 1 + k"
    "private_installed h \<noteq> UINT64_MAX"
proof -
  have s: "unat (private_sequence h) = unat (private_installed h) + length bs"
    using assms(1) by (simp add: store_view_def wal_view_def)
  have b: "unat (private_sequence h) + 1 < 2 ^ 64"
  proof -
    have "unat (private_sequence h) \<noteq> unat UINT64_MAX" using assms(2) by (metis word_unat_eq_iff)
    then show ?thesis using u64_bound [of "private_sequence h"] by simp
  qed
  have i: "unat (private_installed h + 1) = unat (private_installed h) + 1" using s b by (subst u64_add) simp_all
  show "unat (private_installed h + 1 + of_nat k) = unat (private_installed h) + 1 + k"
    using i s b assms(3) by (subst u64_offset) simp_all
  show "private_installed h \<noteq> UINT64_MAX" using s b by auto
qed

lemma body_word_number:
  assumes "segment_body D off s b" "k < length b"
  shows "unat (seg_first s + of_nat k) = unat (seg_first s) + k"
proof -
  have "unat (seg_last s) + 1 = unat (seg_first s) + length b" using assms(1) unfolding segment_body_def by blast
  then show ?thesis using assms(2) u64_bound [of "seg_last s"] by (intro u64_offset) simp
qed

lemma number_in_prefix:
  assumes "seg_chain D end ret 160 1 (pre @ post)" "j < length (installed_batches pre)"
  shows "unat (store_numbers inst (pre @ post) bs ! j) < chain_next 1 pre"
proof -
  have "segment_numbers pre ! j \<in> set (segment_numbers pre)" using assms(2) by (intro nth_mem) simp
  then show ?thesis
    using seg_chain_numbers [OF assms(1)] assms(2) by (simp add: store_numbers_split nth_append)
qed

lemma chain_next_prefix:
  assumes "seg_chain D end ret 160 1 (pre @ post)"
  shows "chain_next 1 pre \<le> chain_next 1 (pre @ post)"
proof -
  have "seg_chain D end ret (chain_end 160 pre) (chain_next 1 pre) (post @ [])"
    using assms seg_chain_append [of D "end" ret 160 1 pre post] by simp
  from seg_chain_numbers [OF this] show ?thesis by simp
qed

lemma reader_sequence:
  assumes "reader w h c ss bs m" "private_sequence h \<noteq> UINT64_MAX"
  shows "m < length (store_batches ss bs) \<Longrightarrow> private_read_sequence c \<le> store_numbers (private_installed h) ss bs ! m"
    "0 < m \<Longrightarrow> store_numbers (private_installed h) ss bs ! (m - 1) < private_read_sequence c"
proof -
  have v: "store_view w h ss bs" "database_view w h ss" "store_cursor c ss bs m" "copy_cursor h c = c"
    using assms(1) by (simp_all add: reader_def store_view_def)
  note d = database_viewD [OF v(2)]
  have inst: "private_installed c = private_installed h" using v(4) wal_view_copy_cursor(2) by metis
  note wn = wal_word_numbers [OF v(1) assms(2)]
  let ?N = "store_numbers (private_installed h) ss bs"
  have "(m < length (store_batches ss bs) \<longrightarrow> private_read_sequence c \<le> ?N ! m) \<and>
      (0 < m \<longrightarrow> ?N ! (m - 1) < private_read_sequence c)"
    using v(3)
  proof cases
    case (at_wal k)
    have k: "private_read_sequence c = private_installed h + 1 + of_nat k" "k \<le> length bs"
      using at_wal(2) inst by (simp_all add: wal_cursor_def)
    have "?N ! (m - 1) < private_read_sequence c" if "0 < m"
    proof (cases "k = 0")
      case True
      then show ?thesis using number_before_wal [OF v(2) wn(2) [of 0], of "m - 1" bs] at_wal(1) that k by simp
    next
      case False
      then have "?N ! (m - 1) = private_installed h + 1 + of_nat (k - 1)"
        using store_nth_wal(2) [of "k - 1" bs] at_wal(1) k(2) by simp
      then show ?thesis using wn(1) [of k] wn(1) [of "k - 1"] k False by (simp add: word_less_nat_alt)
    qed
    moreover have "?N ! m = private_read_sequence c" if "m < length (store_batches ss bs)"
      using store_nth_wal(2) [of k bs] at_wal(1) that k by (simp add: store_batches_def)
    ultimately show ?thesis by simp
  next
    case (at_boundary pre post)
    have r: "private_read_sequence c = of_nat (chain_next 1 pre)" using at_boundary(4) by (simp add: boundary_cursor_def)
    note ch = d(4) [unfolded at_boundary(1)]
    have le: "chain_next 1 pre \<le> unat (private_installed h) + 1" using chain_next_prefix [OF ch] d(12) at_boundary(1) by simp
    moreover have "unat (private_installed h) + 1 < 2 ^ 64" using wn(1) [of 0] u64_bound [of "private_installed h + 1"] by simp
    ultimately have u: "unat (private_read_sequence c) = chain_next 1 pre" unfolding r by (intro u64_of_nat) simp
    have "private_read_sequence c \<le> ?N ! m" if "m < length (store_batches ss bs)"
    proof (cases post)
      case Nil
      then have "?N ! m = private_installed h + 1 + of_nat 0"
        using store_nth_wal(2) [of 0 bs] at_boundary(1,2) that by (simp add: store_batches_def)
      then show ?thesis using u le wn(1) [of 0] by (simp add: word_le_nat_alt)
    next
      case (Cons x post')
      obtain s b where x: "x = (s, b)" by force
      note mid = seg_chain_mid [OF ch [unfolded Cons x]]
      have "0 < length b" using mid(2) by (simp add: segment_body_def)
      then have "?N ! m = seg_first s"
        using store_nth_body(2) [of 0 b] at_boundary(1,2) Cons x by simp
      then show ?thesis using mid(3) u by (auto simp: word_le_nat_alt)
    qed
    moreover have "?N ! (m - 1) < private_read_sequence c" if "0 < m"
      using number_in_prefix [OF ch, of "m - 1"] at_boundary(1,2) that u by (simp add: word_less_nat_alt)
    ultimately show ?thesis by simp
  next
    case (at_body pre s b k post)
    note ch = d(4) [unfolded at_body(1)]
    note mid = seg_chain_mid [OF ch]
    have r: "private_read_sequence c = seg_first s + of_nat k" using at_body(4) by (simp add: body_cursor_def)
    have "?N ! m = private_read_sequence c"
      using store_nth_body(2) [OF at_body(5)] at_body(1,2) r by simp
    moreover have "?N ! (m - 1) < private_read_sequence c" if "0 < m"
    proof (cases "k = 0")
      case True
      then show ?thesis
        using number_in_prefix [OF ch, where j = "m - 1" and inst = "private_installed h" and bs = bs]
          at_body(1,2) that mid(3) r by (auto simp: word_less_nat_alt intro: less_le_trans)
    next
      case False
      then have "?N ! (m - 1) = seg_first s + of_nat (k - 1)"
        using store_nth_body(2) [of "k - 1" b] at_body(1,2,5) by simp
      then show ?thesis
        using body_word_number [OF mid(2) at_body(5)] body_word_number [OF mid(2), of "k - 1"] at_body(5) False r
        by (simp add: word_less_nat_alt)
    qed
    ultimately show ?thesis by simp
  qed
  then show "m < length (store_batches ss bs) \<Longrightarrow> private_read_sequence c \<le> ?N ! m"
    "0 < m \<Longrightarrow> ?N ! (m - 1) < private_read_sequence c" by simp_all
qed

section \<open>Scanning frames\<close>

text \<open>A batch reaches \<open>t\<close> when its last record does.\<close>

definition reaches :: "u64 \<Rightarrow> timelite_record list \<Rightarrow> bool" where
  "reaches t rs \<longleftrightarrow> t \<le> timestamp_us (last rs)"

lemma seek_frames_quiet:
  assumes "script w = []" "private_sequence h \<noteq> UINT64_MAX"
    and "\<And>k. i0 \<le> k \<Longrightarrow> k < m \<Longrightarrow> store_numbers (private_installed h) ss bs ! k \<le> limit"
    and "m = length (store_batches ss bs) \<or> (0 < m \<and> store_numbers (private_installed h) ss bs ! (m - 1) = limit)"
    and "m \<le> length (store_batches ss bs)"
  defines "log \<equiv> store_batches ss bs"
  shows "reader w h c ss bs i \<Longrightarrow> i0 \<le> i \<Longrightarrow> i \<le> m \<Longrightarrow>
    \<exists>j c'. seek_frames c t limit w = ((if j < m then None else Some END, c'), w) \<and> reader w h c' ss bs j \<and>
      i \<le> j \<and> j \<le> m \<and> (j < m \<longrightarrow> reaches t (log ! j)) \<and> (\<forall>k. i \<le> k \<longrightarrow> k < j \<longrightarrow> \<not> reaches t (log ! k))"
proof (induction "m - i" arbitrary: c i rule: less_induct)
  case less
  note q = reader_quiet [OF less.prems(1) assms(1), folded log_def]
  note sq = reader_sequence [OF less.prems(1) assms(2), folded log_def]
  show ?case
  proof (cases "i < m")
    case False
    then have im: "i = m" using less.prems(3) by simp
    have "seek_frames c t limit w = ((Some END, c), w)"
    proof (cases "private_read_sequence c \<le> limit")
      case True
      then have "m = length log" using sq(2) im assms(4) by (auto simp: log_def)
      then show ?thesis using q im True by (subst seek_frames.simps) simp
    qed (subst seek_frames.simps, simp)
    then show ?thesis using im less.prems(1) by (intro exI [of _ m] exI [of _ c]) simp
  next
    case True
    then have il: "i < length log" using assms(5) by (simp add: log_def)
    then obtain bytes found batch c' where rc: "read_cursor c w = (Inr (bytes, found, batch, c'), w)" using q by auto
    note s = reader_step [OF less.prems(1) rc, folded log_def]
    have le: "private_read_sequence c \<le> limit"
      using sq(1) [OF il] assms(3) [OF less.prems(2) True] by (rule order_trans)
    have v: "log ! i \<noteq> []" using s(5) by (simp add: valid_batch_def)
    have ft: "frame_time bytes (found - 1) = timestamp_us (last (log ! i))"
      using s(3-5) v by (simp add: frame_time_frame last_conv_nth)
    show ?thesis
    proof (cases "reaches t (log ! i)")
      case here: True
      then have "seek_frames c t limit w = ((None, c), w)"
        using rc le ft by (subst seek_frames.simps) (simp add: reaches_def)
      then show ?thesis using True here less.prems(1) by (intro exI [of _ i] exI [of _ c]) simp
    next
      case later: False
      have cc: "copy_cursor c c' = c'" using read_cursor_InrD(5) [OF rc] .
      have eq: "seek_frames c t limit w = seek_frames c' t limit w"
        using rc le ft later cc by (subst seek_frames.simps) (simp add: reaches_def)
      have "m - Suc i < m - i" using True by simp
      from less.hyps [OF this s(6)] less.prems(2) True obtain j c'' where
        j: "seek_frames c' t limit w = ((if j < m then None else Some END, c''), w)" "reader w h c'' ss bs j"
          "Suc i \<le> j" "j \<le> m" "j < m \<longrightarrow> reaches t (log ! j)" "\<forall>k. Suc i \<le> k \<longrightarrow> k < j \<longrightarrow> \<not> reaches t (log ! k)"
        by auto
      have "\<not> reaches t (log ! k)" if "i \<le> k" "k < j" for k
        using that j(6) later by (cases "k = i") simp_all
      then show ?thesis using eq j by (intro exI [of _ j] exI [of _ c'']) simp
    qed
  qed
qed

section \<open>Starting at a segment\<close>

text \<open>The index of the first batch of the segment with ordinal \<open>n\<close>.\<close>

definition segment_index :: "segment_content list \<Rightarrow> nat \<Rightarrow> nat" where
  "segment_index ss n = length (installed_batches (take (n - 1) ss))"

lemma segment_split:
  assumes "0 < n" "n \<le> length ss"
  shows "ss = take (n - 1) ss @ (fst (ss ! (n - 1)), snd (ss ! (n - 1))) # drop n ss"
  using assms id_take_nth_drop [of "n - 1" ss] by simp

lemma segment_index_Suc:
  assumes "0 < n" "n \<le> length ss"
  shows "segment_index ss (Suc n) = segment_index ss n + length (snd (ss ! (n - 1)))"
proof -
  have "take n ss = take (n - 1) ss @ [ss ! (n - 1)]" using assms take_Suc_conv_app_nth [of "n - 1" ss] by simp
  then show ?thesis by (simp add: segment_index_def)
qed

lemma position_segment_reader:
  assumes "store_view w h ss bs" "copy_cursor h c = c" "0 < n" "n \<le> length ss"
  shows "reader w h (position_segment c (seg_offset ss n) (fst (ss ! (n - 1)))) ss bs (segment_index ss n)"
proof -
  let ?s = "fst (ss ! (n - 1))" and ?b = "snd (ss ! (n - 1))" and ?pre = "take (n - 1) ss"
  let ?c = "position_segment c (seg_offset ss n) ?s"
  have v: "database_view w h ss" using assms(1) by (simp add: store_view_def)
  note d = database_viewD [OF v]
  have ch: "seg_chain (fdata w (batch_file h False)) (private_data_end h) (private_retention h) 160 1
      (?pre @ (?s, ?b) # drop n ss)" using d(4) segment_split [OF assms(3,4)] by simp
  note o = chain_offset_less [OF ch]
  have off: "seg_offset ss n = chain_end 160 ?pre" using assms(3) by (simp add: seg_offset_def)
  have "0 < length ?b" using seg_chain_mid(2) [OF ch] by (simp add: segment_body_def)
  moreover have "unat (chain_end 160 ?pre + of_nat (seg_header_size ?s)) = unat (chain_end 160 ?pre) + seg_header_size ?s"
    using o(2,4,5) u64_bound [of "private_data_end h"] by (intro u64_offset) auto
  then have "body_cursor ?c (chain_end 160 ?pre) ?s ?b 0"
    unfolding body_cursor_def position_segment_def Let_def off
    using segment_end_eq [OF refl, of "chain_end 160 ?pre" ?s] by simp
  ultimately have "store_cursor ?c (?pre @ (?s, ?b) # drop n ss) bs (length (installed_batches ?pre) + 0)"
    by (intro store_cursor.at_body) (simp_all add: position_segment_def Let_def)
  then have "store_cursor ?c ss bs (segment_index ss n)"
    using segment_split [OF assms(3,4)] by (simp add: segment_index_def)
  moreover have "copy_cursor h ?c = ?c"
    using arg_cong [OF assms(2), of "\<lambda>x. position_segment x (seg_offset ss n) ?s"]
    by (simp add: copy_cursor_def position_segment_def Let_def)
  ultimately show ?thesis using assms(1) by (simp add: reader_def)
qed

lemma segment_limit:
  assumes "store_view w h ss bs" "0 < n" "n \<le> length ss"
  shows "\<And>k. segment_index ss n \<le> k \<Longrightarrow> k < segment_index ss (Suc n) \<Longrightarrow>
      store_numbers (private_installed h) ss bs ! k \<le> seg_last (fst (ss ! (n - 1)))"
    "0 < segment_index ss (Suc n)" "segment_index ss (Suc n) \<le> length (store_batches ss bs)"
    "store_numbers (private_installed h) ss bs ! (segment_index ss (Suc n) - 1) = seg_last (fst (ss ! (n - 1)))"
    "\<And>k. segment_index ss n \<le> k \<Longrightarrow> k < segment_index ss (Suc n) \<Longrightarrow>
      store_batches ss bs ! k \<in> set (snd (ss ! (n - 1)))"
proof -
  let ?s = "fst (ss ! (n - 1))" and ?b = "snd (ss ! (n - 1))" and ?pre = "take (n - 1) ss"
  have v: "database_view w h ss" using assms(1) by (simp add: store_view_def)
  note d = database_viewD [OF v]
  have ch: "seg_chain (fdata w (batch_file h False)) (private_data_end h) (private_retention h) 160 1
      (?pre @ (?s, ?b) # drop n ss)" using d(4) segment_split [OF assms(2,3)] by simp
  note mid = seg_chain_mid [OF ch]
  have ne: "0 < length ?b" and l: "unat (seg_last ?s) + 1 = unat (seg_first ?s) + length ?b"
    using mid(2) unfolding segment_body_def by auto
  have idx: "segment_index ss (Suc n) = length (installed_batches ?pre) + length ?b"
    using segment_index_Suc [OF assms(2,3)] by (simp add: segment_index_def)
  have at: "store_numbers (private_installed h) ss bs ! (segment_index ss n + j) = seg_first ?s + of_nat j"
    "store_batches ss bs ! (segment_index ss n + j) = ?b ! j" "segment_index ss n + j < length (store_batches ss bs)"
    if "j < length ?b" for j
    using store_nth_body(1) [OF that, where pre = ?pre and s = ?s and post = "drop n ss" and bs = bs]
      store_nth_body(2) [OF that, where pre = ?pre and s = ?s and post = "drop n ss" and bs = bs and installed = "private_installed h"]
      store_nth_body(3) [OF that, where pre = ?pre and s = ?s and post = "drop n ss" and bs = bs]
    unfolding segment_split [OF assms(2,3), symmetric] by (simp_all add: segment_index_def)
  have num: "unat (seg_first ?s + of_nat j) = unat (seg_first ?s) + j" if "j < length ?b" for j
    using body_word_number [OF mid(2) that] .
  show "store_numbers (private_installed h) ss bs ! k \<le> seg_last ?s"
    if "segment_index ss n \<le> k" "k < segment_index ss (Suc n)" for k
  proof -
    from that(1) obtain j where k: "k = segment_index ss n + j" by (auto simp: le_iff_add)
    with that segment_index_Suc [OF assms(2,3)] have j: "j < length ?b" by simp
    show ?thesis unfolding k using at(1) [OF j] num [OF j] l j by (simp add: word_le_nat_alt)
  qed
  show "store_batches ss bs ! k \<in> set ?b" if "segment_index ss n \<le> k" "k < segment_index ss (Suc n)" for k
  proof -
    from that(1) obtain j where k: "k = segment_index ss n + j" by (auto simp: le_iff_add)
    with that segment_index_Suc [OF assms(2,3)] have j: "j < length ?b" by simp
    show ?thesis unfolding k using at(2) [OF j] nth_mem [OF j] by simp
  qed
  show "0 < segment_index ss (Suc n)" using idx ne by simp
  have last: "segment_index ss (Suc n) - 1 = segment_index ss n + (length ?b - 1)"
    using segment_index_Suc [OF assms(2,3)] ne by linarith
  show "segment_index ss (Suc n) \<le> length (store_batches ss bs)"
    using at(3) [of "length ?b - 1"] ne last segment_index_Suc [OF assms(2,3)] by simp
  show "store_numbers (private_installed h) ss bs ! (segment_index ss (Suc n) - 1) = seg_last ?s"
  proof -
    have j: "length ?b - 1 < length ?b" using ne by simp
    have "unat (seg_first ?s + of_nat (length ?b - 1)) = unat (seg_last ?s)" unfolding num [OF j] using l ne by linarith
    then show ?thesis unfolding last at(1) [OF j] word_unat_eq_iff .
  qed
qed

section \<open>The prefix that may be unordered\<close>

lemma read_segment_ordinal:
  assumes "script w = []" "store_view w h ss bs" "0 < n" "n \<le> length ss"
  shows "read_segment (batch_file h False) (seg_offset ss n) (private_data_end h) w = (Inr (fst (ss ! (n - 1))), w)"
  using answers_quiet [OF read_segment_answers [OF chain_in_view assms(3,4)] assms(1)] assms(2)
  by (simp add: store_view_def)

lemma seek_prefix_quiet:
  assumes "script w = []" "store_view w h ss bs" "private_sequence h \<noteq> UINT64_MAX"
  defines "log \<equiv> store_batches ss bs" and "m \<equiv> segment_index ss (unat (private_span_start h))"
  shows "copy_cursor h c = c \<Longrightarrow> 0 < unat n \<Longrightarrow> unat n \<le> unat (private_span_start h) \<Longrightarrow> off = seg_offset ss (unat n) \<Longrightarrow>
    \<exists>j c'. seek_prefix h c t n off w = (Inr (j < m, c'), w) \<and> copy_cursor h c' = c' \<and>
      (j < m \<longrightarrow> reader w h c' ss bs j \<and> reaches t (log ! j)) \<and> segment_index ss (unat n) \<le> j \<and> j \<le> m \<and>
      (\<forall>k. segment_index ss (unat n) \<le> k \<longrightarrow> k < j \<longrightarrow> \<not> reaches t (log ! k))"
proof (induction "unat (private_span_start h) - unat n" arbitrary: c n off)
  case 0
  then have "n = private_span_start h" by (simp add: word_unat_eq_iff)
  then have "seek_prefix h c t n off w = (Inr (False, c), w)" by (subst seek_prefix.simps) simp
  then show ?case using 0 \<open>n = private_span_start h\<close> by (intro exI [of _ m] exI [of _ c]) (simp add: m_def)
next
  case (Suc d)
  have v: "database_view w h ss" using assms(2) by (simp add: store_view_def)
  note dv = database_viewD [OF v]
  have lt: "n < private_span_start h" "unat n \<le> length ss" using Suc.hyps(2) dv(9) by (simp_all add: word_less_nat_alt)
  have n1: "unat (n + 1) = Suc (unat n)"
    using lt(1) u64_bound [of "private_span_start h"] by (subst u64_add) (simp_all add: word_less_nat_alt)
  let ?s = "fst (ss ! (unat n - 1))" and ?i = "segment_index ss (unat n)" and ?i' = "segment_index ss (Suc (unat n))"
  note lim = segment_limit [OF assms(2) Suc.prems(2) lt(2)]
  have rd: "reader w h (position_segment c off ?s) ss bs ?i"
    using position_segment_reader [OF assms(2) Suc.prems(1,2) lt(2)] Suc.prems(4) by simp
  have ii: "?i \<le> ?i'" using segment_index_Suc [OF Suc.prems(2) lt(2)] by simp
  have im: "?i' \<le> m"
  proof -
    have "unat n \<le> unat (private_span_start h) - 1" using Suc.hyps(2) by simp
    then have "take (unat n) ss = take (unat n) (take (unat (private_span_start h) - 1) ss)" by (simp add: min_def)
    then have "installed_batches (take (unat (private_span_start h) - 1) ss) =
        installed_batches (take (unat n) ss) @ installed_batches (drop (unat n) (take (unat (private_span_start h) - 1) ss))"
      using installed_take_drop [of "take (unat (private_span_start h) - 1) ss" "unat n"] by simp
    then show ?thesis by (simp add: m_def segment_index_def)
  qed
  have rs: "read_segment (batch_file h False) off (private_data_end h) w = (Inr ?s, w)"
    using read_segment_ordinal [OF assms(1,2) Suc.prems(2) lt(2)] Suc.prems(4) by simp
  obtain j c' where j: "seek_frames (position_segment c off ?s) t (seg_last ?s) w = ((if j < ?i' then None else Some END, c'), w)"
    "reader w h c' ss bs j" "?i \<le> j" "j \<le> ?i'" "j < ?i' \<longrightarrow> reaches t (log ! j)" "\<forall>k. ?i \<le> k \<longrightarrow> k < j \<longrightarrow> \<not> reaches t (log ! k)"
    using seek_frames_quiet [OF assms(1,3) lim(1) _ lim(3) rd order_refl ii, of t] lim(2,4) by (auto simp: log_def)
  have cc: "copy_cursor h c' = c'" using j(2) by (simp add: reader_def)
  show ?case
  proof (cases "j < ?i'")
    case True
    then have "seek_prefix h c t n off w = (Inr (True, c'), w)" using lt(1) rs j(1) by (subst seek_prefix.simps) simp
    then show ?thesis using True im j cc by (intro exI [of _ j] exI [of _ c']) simp
  next
    case False
    then have je: "j = ?i'" using j(4) by simp
    have step: "seek_prefix h c t n off w = seek_prefix h c' t (n + 1) (off + segment_extent ?s) w"
      using lt(1) rs j(1) False by (subst seek_prefix.simps) simp
    have "d = unat (private_span_start h) - unat (n + 1)" "0 < unat (n + 1)" "unat (n + 1) \<le> unat (private_span_start h)"
      "off + segment_extent ?s = seg_offset ss (unat (n + 1))"
      using Suc.hyps(2) n1 lt Suc.prems(2,4) by (simp_all add: seg_offset_Suc)
    from Suc.hyps(1) [OF this(1) cc this(2-4)] obtain l c'' where
      l: "seek_prefix h c' t (n + 1) (off + segment_extent ?s) w = (Inr (l < m, c''), w)" "copy_cursor h c'' = c''"
        "l < m \<longrightarrow> reader w h c'' ss bs l \<and> reaches t (log ! l)" "?i' \<le> l" "l \<le> m"
        "\<forall>k. ?i' \<le> k \<longrightarrow> k < l \<longrightarrow> \<not> reaches t (log ! k)"
      using n1 by auto
    have "\<not> reaches t (log ! k)" if "?i \<le> k" "k < l" for k
      using that j(6) l(6) je by (cases "k < ?i'") auto
    then show ?thesis using step l ii by (intro exI [of _ l] exI [of _ c'']) auto
  qed
qed

section \<open>The binary search\<close>

lemma span_maxima_grow:
  assumes "span_ok ss n" "segments_timed ss" "0 < n" "n \<le> a" "a \<le> b" "b \<le> length ss"
  shows "seg_maximum (fst (ss ! (a - 1))) \<le> seg_maximum (fst (ss ! (b - 1)))"
  using assms(5,6)
proof (induction b rule: dec_induct)
  case (step k)
  obtain t c where x: "ss ! k = (t, c)" by force
  have "seg_maximum (fst (ss ! (k - 1))) \<le> seg_minimum (fst (ss ! Suc (k - 1)))"
  proof -
    have "Suc (k - 1) < length ss" "n \<le> Suc (k - 1)" using assms(3,4) step.hyps step.prems by simp_all
    then show ?thesis using assms(1) unfolding span_ok_def by blast
  qed
  moreover have "seg_minimum t \<le> seg_maximum t"
    using assms(2) nth_mem [of k ss] x step.prems by (auto simp: segments_timed_def)
  ultimately have "seg_maximum (fst (ss ! (k - 1))) \<le> seg_maximum (fst (ss ! k))"
    using step.hyps assms(3,4) x by simp
  then show ?case using step by simp
qed simp

lemma seek_search_quiet:
  assumes "script w = []" "store_view w h ss bs"
  defines "mx \<equiv> \<lambda>n. seg_maximum (fst (ss ! (n - 1)))"
  shows "unat (private_span_start h) \<le> unat low \<Longrightarrow> unat low \<le> unat high \<Longrightarrow> unat high \<le> Suc (length ss) \<Longrightarrow>
    \<exists>r. seek_search h t low high w = (Inr r, w) \<and> unat low \<le> unat r \<and> unat r \<le> unat high \<and>
      (\<forall>n. unat low \<le> n \<longrightarrow> n < unat r \<longrightarrow> mx n < t)"
proof (induction "unat high - unat low" arbitrary: low high rule: less_induct)
  case less
  have v: "database_view w h ss" using assms(2) by (simp add: store_view_def)
  note d = database_viewD [OF v]
  show ?case
  proof (cases "low < high")
    case False
    then show ?thesis using less.prems(2) by (subst seek_search.simps) (auto simp: word_less_nat_alt)
  next
    case True
    let ?m = "low + (high - low) div 2"
    note mb = middle_bounds [OF True]
    have tm: "0 < unat ?m" "unat ?m \<le> unat (private_generation h)" using mb(2,3) less.prems d(6,8) by simp_all
    have sa: "segment_at (batch_file h False) (private_data_end h) (private_generation h) (private_last_segment h) ?m w =
        (Inr (seg_offset ss (unat ?m), fst (ss ! (unat ?m - 1))), w)"
      using d(6,7) by (intro answers_quiet [OF segment_at_answers [OF chain_in_view [OF v] d(5) _ tm] assms(1)]) simp_all
    show ?thesis
    proof (cases "mx (unat ?m) < t")
      case up: True
      have eq: "seek_search h t low high w = seek_search h t (?m + 1) high w"
        using True sa up by (subst seek_search.simps) (simp add: mx_def Let_def)
      have "unat high - unat (?m + 1) < unat high - unat low" using mb by linarith
      from less.hyps [OF this] mb less.prems obtain r where
        r: "seek_search h t (?m + 1) high w = (Inr r, w)" "unat (?m + 1) \<le> unat r" "unat r \<le> unat high"
          "\<forall>n. unat (?m + 1) \<le> n \<longrightarrow> n < unat r \<longrightarrow> mx n < t" by auto
      have "mx n < t" if "unat low \<le> n" "n < unat r" for n
      proof (cases "n \<le> unat ?m")
        case True
        have "mx n \<le> mx (unat ?m)"
          unfolding mx_def using True that(1) less.prems(1,3) tm d(6)
          by (intro span_maxima_grow [OF d(10) seg_chain_timed [OF d(4)] d(8)]) simp_all
        then show ?thesis using up by (rule le_less_trans)
      qed (use r(4) that(2) mb(4) in simp)
      then show ?thesis using eq r mb by (intro exI [of _ r]) simp
    next
      case down: False
      have eq: "seek_search h t low high w = seek_search h t low ?m w"
        using True sa down by (subst seek_search.simps) (simp add: mx_def Let_def)
      have "unat ?m - unat low < unat high - unat low" using mb True by (simp add: word_less_nat_alt)
      from less.hyps [OF this] mb less.prems eq show ?thesis by fastforce
    qed
  qed
qed

section \<open>The whole seek\<close>

lemma segment_of_index:
  assumes "0 < a" "a \<le> b" "b \<le> Suc (length ss)" "segment_index ss a \<le> k" "k < segment_index ss b"
  shows "\<exists>n. a \<le> n \<and> n < b \<and> segment_index ss n \<le> k \<and> k < segment_index ss (Suc n)"
  using assms(2,3,5)
proof (induction b rule: dec_induct)
  case (step n)
  then show ?case using assms(4) by (cases "k < segment_index ss n") force+
qed (use assms(4) in simp)

lemma segment_not_reaching:
  assumes "store_view w h ss bs" "0 < n" "n \<le> length ss" "seg_maximum (fst (ss ! (n - 1))) < t"
    and "segment_index ss n \<le> k" "k < segment_index ss (Suc n)"
  shows "\<not> reaches t (store_batches ss bs ! k)"
proof -
  let ?x = "ss ! (n - 1)" and ?r = "store_batches ss bs ! k"
  have v: "database_view w h ss" using assms(1) by (simp add: store_view_def)
  note d = database_viewD [OF v]
  have mem: "?r \<in> set (snd ?x)" using segment_limit(5) [OF assms(1-3,5,6)] .
  have "segments_timed ss" by (rule seg_chain_timed [OF d(4)])
  moreover have "?x \<in> set ss" using assms(2,3) by simp
  ultimately have st: "segment_times (fst ?x) (snd ?x)" by (auto simp: segments_timed_def split: prod.splits)
  have "k < length (store_batches ss bs)" using segment_limit(3) [OF assms(1-3)] assms(6) by linarith
  then have "?r \<noteq> []" using store_batch_valid [OF assms(1)] by (simp add: valid_batch_def)
  then have "timestamp_us (last ?r) \<in> set (batch_times (snd ?x))"
    using mem by (auto simp: batch_times_def intro!: imageI bexI [of _ ?r])
  then have "timestamp_us (last ?r) \<le> seg_maximum (fst ?x)" using st by (simp add: segment_times_def)
  then show ?thesis using assms(4) by (auto simp: reaches_def)
qed

lemma seek_position_quiet:
  assumes "script w = []" "store_view w h ss bs" "copy_cursor h c = c" "0 < unat r" "unat r \<le> Suc (length ss)"
  shows "\<exists>c'. seek_position h c r w = (Inr c', w) \<and> reader w h c' ss bs (segment_index ss (unat r))"
proof -
  have v: "database_view w h ss" using assms(2) by (simp add: store_view_def)
  note d = database_viewD [OF v]
  show ?thesis
  proof (cases "r \<le> private_generation h")
    case True
    then have le: "unat r \<le> unat (private_generation h)" by (simp add: word_le_nat_alt)
    have sa: "segment_at (batch_file h False) (private_data_end h) (private_generation h) (private_last_segment h) r w =
        (Inr (seg_offset ss (unat r), fst (ss ! (unat r - 1))), w)"
      using d(6,7) by (intro answers_quiet [OF segment_at_answers [OF chain_in_view [OF v] d(5) _ assms(4) le] assms(1)]) simp_all
    then show ?thesis
      using True position_segment_reader [OF assms(2-4)] le d(6) by (simp add: seek_position_def io_bind_def)
  next
    case False
    then have r: "unat r = Suc (length ss)" using assms(5) d(6) by (simp add: word_le_nat_alt)
    let ?c = "c\<lparr>private_in_wal := True, private_cursor := 32, private_read_sequence := private_installed h + 1\<rparr>"
    have inst: "private_installed c = private_installed h" using assms(3) wal_view_copy_cursor(2) by metis
    have "store_cursor ?c ss bs (length (installed_batches ss) + 0)"
      by (rule store_cursor.at_wal) (simp add: wal_cursor_def inst)
    moreover have "copy_cursor h ?c = ?c"
      using assms(3) by (cases h; cases c) (simp add: copy_cursor_def)
    ultimately have "reader w h ?c ss bs (segment_index ss (unat r))"
      using assms(2) r by (simp add: reader_def segment_index_def)
    then show ?thesis using False by (simp add: seek_position_def)
  qed
qed

lemma store_number_bound:
  assumes "store_view w h ss bs" "private_sequence h \<noteq> UINT64_MAX" "k < length (store_batches ss bs)"
  shows "store_numbers (private_installed h) ss bs ! k \<le> private_sequence h"
proof -
  have v: "database_view w h ss" "unat (private_sequence h) = unat (private_installed h) + length bs"
    using assms(1) by (simp_all add: store_view_def wal_view_def)
  note wn = wal_word_numbers [OF assms(1,2)]
  show ?thesis
  proof (cases "k < length (installed_batches ss)")
    case True
    have "unat (store_numbers (private_installed h) ss bs ! k) < unat (private_installed h + 1)"
      using number_before_wal [OF v(1) wn(2) [of 0] True] by (simp add: word_less_nat_alt)
    then show ?thesis using wn(1) [of 0] v(2) by (simp add: word_le_nat_alt)
  next
    case False
    then obtain j where j: "k = length (installed_batches ss) + j" by (metis le_iff_add not_less)
    then have jl: "j < length bs" using assms(3) by (simp add: store_batches_def)
    show ?thesis unfolding j store_nth_wal(2) [OF jl] using wn(1) [of j] jl v(2) by (simp add: word_le_nat_alt)
  qed
qed

lemma seek_quiet:
  assumes "script w = []" "store_view w h ss bs" "private_sequence h \<noteq> UINT64_MAX" "TIMELITE_BATCH_SCRATCH \<le> n"
  defines "log \<equiv> store_batches ss bs"
  shows "\<exists>j h'. timelite_batches_seek (Some h) t (Some ()) n w = ((if j < length log then None else Some END, Some h'), w) \<and>
    j \<le> length log \<and> store_view w h' ss bs \<and> store_cursor h' ss bs j \<and> (j < length log \<longrightarrow> reaches t (log ! j)) \<and>
    (\<forall>k < j. \<not> reaches t (log ! k))"
proof -
  have v: "database_view w h ss" "wal_view w h bs" using assms(2) by (simp_all add: store_view_def)
  note d = database_viewD [OF v(1)] and o = view_ordinal [OF v(1)]
  have rdy: "read_arguments (Some h) (Some ()) n = None"
    using wal_view_ready [OF v(2)] assms(4) by (simp add: read_arguments_def)
  have placed: "store_view w (copy_cursor h c) ss bs \<and> store_cursor (copy_cursor h c) ss bs j" if "reader w h c ss bs j" for c j
    using that store_view_read [OF assms(2), of w c] by (simp add: reader_def same_files_def)
  let ?m = "segment_index ss (unat (private_span_start h))"
  have i1: "segment_index ss 1 = 0" by (simp add: segment_index_def)
  have ml: "?m \<le> length log"
    using installed_take_drop [of ss "unat (private_span_start h) - 1"] by (simp add: log_def store_batches_def segment_index_def)
  obtain j c where p: "seek_prefix h (reset_cursor h) t 1 160 w = (Inr (j < ?m, c), w)" "copy_cursor h c = c"
    "j < ?m \<longrightarrow> reader w h c ss bs j \<and> reaches t (log ! j)" "j \<le> ?m" "\<forall>k < j. \<not> reaches t (log ! k)"
    using seek_prefix_quiet [OF assms(1-3) reset_cursor_copy, of 1 160 t] d(8) i1 by (auto simp: log_def)
  show ?thesis
  proof (cases "j < ?m")
    case True
    then have "timelite_batches_seek (Some h) t (Some ()) n w = ((None, Some (copy_cursor h c)), w)"
      using p(1) rdy by (simp add: timelite_batches_seek_def Let_def)
    moreover have "j < length log" using True ml by simp
    ultimately show ?thesis using placed [of c j] p(3,5) True by (intro exI [of _ j] exI [of _ "copy_cursor h c"]) simp
  next
    case False
    then have jm: "j = ?m" using p(4) by simp
    obtain r where r: "seek_search h t (private_span_start h) (private_generation h + 1) w = (Inr r, w)"
      "unat (private_span_start h) \<le> unat r" "unat r \<le> Suc (length ss)"
      "\<forall>k. unat (private_span_start h) \<le> k \<longrightarrow> k < unat r \<longrightarrow> seg_maximum (fst (ss ! (k - 1))) < t"
      using seek_search_quiet [OF assms(1,2) order_refl, of "private_generation h + 1" t] d(9) o(2) by auto
    have r0: "0 < unat r" using r(2) d(8) by linarith
    obtain c' where c': "seek_position h c r w = (Inr c', w)" "reader w h c' ss bs (segment_index ss (unat r))"
      using seek_position_quiet [OF assms(1,2) p(2) r0 r(3)] by blast
    have skip: "\<not> reaches t (log ! k)" if kr: "k < segment_index ss (unat r)" for k
    proof (cases "k < ?m")
      case True
      then show ?thesis using p(5) jm by simp
    next
      case False
      then obtain a where a: "unat (private_span_start h) \<le> a" "a < unat r" "segment_index ss a \<le> k" "k < segment_index ss (Suc a)"
        using segment_of_index [OF d(8) r(2,3), of k] kr by auto
      show ?thesis unfolding log_def
        using a d(8) r(3,4) by (intro segment_not_reaching [OF assms(2), of a]) simp_all
    qed
    have rl: "segment_index ss (unat r) \<le> length log"
      using installed_take_drop [of ss "unat r - 1"] by (simp add: log_def store_batches_def segment_index_def)
    have lim: "store_numbers (private_installed h) ss bs ! k \<le> private_sequence h" if "k < length log" for k
      using store_number_bound [OF assms(2,3)] that by (simp add: log_def)
    obtain l c'' where l: "seek_frames c' t (private_sequence h) w = ((if l < length log then None else Some END, c''), w)"
      "reader w h c'' ss bs l" "segment_index ss (unat r) \<le> l" "l \<le> length log" "l < length log \<longrightarrow> reaches t (log ! l)"
      "\<forall>k. segment_index ss (unat r) \<le> k \<longrightarrow> k < l \<longrightarrow> \<not> reaches t (log ! k)"
      using seek_frames_quiet [OF assms(1,3), where ?i0.0 = 0 and m = "length log" and t = t and limit = "private_sequence h",
          OF _ _ _ c'(2)] lim rl
      unfolding log_def by auto
    have none: "\<forall>k < l. \<not> reaches t (log ! k)" using skip l(6) by (metis not_less)
    show ?thesis
    proof (cases "l < length log")
      case True
      then have "timelite_batches_seek (Some h) t (Some ()) n w = ((None, Some (copy_cursor h c'')), w)"
        using p(1) False rdy r(1) c'(1) l(1) by (simp add: timelite_batches_seek_def Let_def)
      then show ?thesis using placed [OF l(2)] l(4,5) none True by (intro exI [of _ l] exI [of _ "copy_cursor h c''"]) simp
    next
      case over: False
      let ?e = "c''\<lparr>private_in_wal := True, private_cursor := private_end h, private_read_sequence := private_sequence h + 1\<rparr>"
      have "timelite_batches_seek (Some h) t (Some ()) n w = ((Some END, Some (copy_cursor h ?e)), w)"
        using p(1) False rdy r(1) c'(1) l(1) over by (simp add: timelite_batches_seek_def Let_def)
      moreover have "store_cursor (copy_cursor h ?e) ss bs (length (installed_batches ss) + length bs)"
      proof (rule store_cursor.at_wal)
        have "unat (private_end h) = 32 + length (encode_frames (private_installed h + 1) bs)"
          "unat (private_sequence h) = unat (private_installed h) + length bs" using v(2) by (auto simp: wal_view_def)
        then show "wal_cursor (copy_cursor h ?e) bs (length bs)"
          using u64_eq_offset [of "private_sequence h" "private_installed h" "length bs"]
          by (simp add: wal_cursor_def wal_view_copy_cursor)
      qed
      moreover have "store_view w (copy_cursor h ?e) ss bs"
        using store_view_read [OF assms(2), of w ?e] by (simp add: same_files_def)
      ultimately show ?thesis
        using over l(4) none by (intro exI [of _ l] exI [of _ "copy_cursor h ?e"]) (simp add: log_def store_batches_def)
    qed
  qed
qed

section \<open>Properties\<close>

text \<open>
  C6. Seek finds the first batch that reaches the time: without faults \<open>timelite_batches_seek\<close> leaves the
  cursor before the first batch of the store whose last record is at or after \<open>from_us\<close>, and reports
  \<open>TIMELITE_END\<close>, with the cursor after the last batch, exactly when there is none.  The batches the
  binary search skips by their segment's header are among those that do not reach it.
\<close>

theorem seek_finds_first:
  assumes "script w = []" "store_view w h ss bs" "private_sequence h \<noteq> UINT64_MAX" "TIMELITE_BATCH_SCRATCH \<le> n"
  defines "log \<equiv> store_batches ss bs"
  shows "\<exists>j h'. timelite_batches_seek (Some h) t (Some ()) n w = ((if j < length log then None else Some END, Some h'), w) \<and>
    store_view w h' ss bs \<and> store_cursor h' ss bs j \<and>
    (first_batch (reaches t) log 0 j \<or> j = length log \<and> (\<forall>k < length log. \<not> reaches t (log ! k)))"
proof -
  obtain j h' where j: "timelite_batches_seek (Some h) t (Some ()) n w = ((if j < length log then None else Some END, Some h'), w)"
    "j \<le> length log" "store_view w h' ss bs" "store_cursor h' ss bs j" "j < length log \<longrightarrow> reaches t (log ! j)"
    "\<forall>k < j. \<not> reaches t (log ! k)"
    using seek_quiet [OF assms(1-4), of t] unfolding log_def by blast
  then show ?thesis by (intro exI [of _ j] exI [of _ h']) (auto simp: first_batch_def le_less)
qed

theorem seek_finds_first_witness:
  "\<exists>h w h'. timelite_batches_seek (Some h) 1000 (Some ()) TIMELITE_BATCH_SCRATCH w = ((None, Some h'), w)"
proof -
  obtain h w where a: "script w = []" "store_view w h [] [[sample_record]]" "private_sequence h = 1"
    by (rule sample_appended) blast
  have log: "store_batches [] [[sample_record]] = [[sample_record]]" by (simp add: store_batches_def)
  have "reaches 1000 [sample_record]" by (simp add: reaches_def sample_record_def)
  then obtain h' where "timelite_batches_seek (Some h) 1000 (Some ()) TIMELITE_BATCH_SCRATCH w = ((None, Some h'), w)"
    using seek_finds_first [OF a(1,2), of TIMELITE_BATCH_SCRATCH 1000, unfolded log] a(3) by (auto simp: first_batch_def)
  then show ?thesis by (intro exI)
qed

end
