(* ===== verification/TL_InspectStatus.thy ===== *)
theory TL_InspectStatus
  imports TL_InspectVerify TL_SeekStore
begin

text \<open>
  The \<open>status\<close> command of \<open>tools/inspect/inspect.c\<close>, which opens the pair through the library and dumps
  records through its cursor, and the command line of the tool.
\<close>

section \<open>status\<close>

definition signed :: "int \<Rightarrow> string" where
  "signed z = (if z < 0 then ''-'' @ dec (nat (- z)) else dec (nat z))"

text \<open>The value of an error code; \<open>errno_of\<close> gives the platform's \<open>errno\<close> values.\<close>

definition error_number :: "(error \<Rightarrow> int) \<Rightarrow> error \<Rightarrow> int" where
  "error_number errno_value e = (case timelite_code e of Some code \<Rightarrow> code | None \<Rightarrow> errno_value e)"

text \<open>\<open>error < 0 ? 1 : 2\<close>\<close>

definition status_code :: "error \<Rightarrow> nat" where
  "status_code e = (if timelite_code e \<noteq> None then 1 else 2)"

definition status_lines :: "timelite_batches_status \<Rightarrow> string list" where
  "status_lines s =
     [''committed_batches='' @ dec (unat (committed_batches s)),
      ''installed_batches='' @ dec (unat (timelite_batches_status.installed_batches s)),
      ''pending_batches='' @ dec (unat (pending_batches s)),
      ''installed_segments='' @ dec (unat (installed_segments s)),
      ''wal_bytes='' @ dec (unat (wal_bytes s)),
      ''installed_bytes='' @ dec (unat (installed_bytes s)),
      ''last_timestamp_us='' @ dec (unat (last_timestamp_us s))]"

definition record_line :: "u64 \<Rightarrow> timelite_record \<Rightarrow> string" where
  "record_line sequence r =
     ''batch='' @ dec (unat sequence) @ '' series='' @ dec (unat (series r)) @ '' us='' @ dec (unat (timestamp_us r)) @
     '' value='' @ signed (value_i64 r)"

text \<open>The call in the loop: a range read, or a read of whole batches.\<close>

definition dump_read :: "timelite_range option \<Rightarrow> timelite_batches \<Rightarrow> os \<Rightarrow>
    ((error + timelite_record list \<times> u64) \<times> timelite_batches option) \<times> os" where
  "dump_read rg db =
     (if rg \<noteq> None
      then timelite_batches_next_range (Some db) rg (Some ()) TIMELITE_MAX_RECORDS (Some ()) (Some ()) (Some ())
             TIMELITE_BATCH_SCRATCH
      else timelite_batches_next (Some db) (Some ()) TIMELITE_MAX_RECORDS (Some ()) (Some ()) (Some ())
             TIMELITE_BATCH_SCRATCH)"

lemma next_moved:
  assumes "timelite_batches_next (Some h) rec cap cnt sq scratch n w = ((Inr (records, batch), db'), w')"
  shows "\<exists>h'. db' = Some h' \<and> cursor_distance h' < cursor_distance h"
  using assms
  by (auto simp: timelite_batches_next_def dest!: read_cursor_InrD(6) intro: cursor_moved_distance
      split: option.splits if_splits prod.splits sum.splits)

lemma dump_read_moved:
  "dump_read rg h w = ((Inr (records, batch), db'), w') \<Longrightarrow> \<exists>h'. db' = Some h' \<and> cursor_distance h' < cursor_distance h"
  by (auto simp: dump_read_def dest: next_moved next_range_moved split: if_splits)

text \<open>The loop: the error that ends it, the handle, the lines printed so far.\<close>

function inspect_dump ::
  "timelite_range option \<Rightarrow> timelite_batches \<Rightarrow> string list \<Rightarrow> os \<Rightarrow> (error \<times> timelite_batches option \<times> string list) \<times> os" where
  "inspect_dump rg db out w =
     (case dump_read rg db w of
        ((Inl e, db'), w') \<Rightarrow> ((e, db', out), w')
      | ((Inr (records, sequence), db'), w') \<Rightarrow>
          inspect_dump rg (the db') (out @ map (record_line sequence) records) w')"
  by pat_completeness auto
termination
proof (relation "measure (\<lambda>(rg, db, out, w). cursor_distance db)", simp, goal_cases)
  case (1 rg db out w x w' y db' z records sequence)
  then have "dump_read rg db w = ((Inr (records, sequence), db'), w')" by simp
  from dump_read_moved [OF this] show ?case by auto
qed

declare inspect_dump.simps [simp del]

text \<open>The branch for \<open>--dump\<close>: the seek, the loop, and what is made of the error that ends it.\<close>

definition inspect_records ::
  "timelite_range option \<Rightarrow> bool \<Rightarrow> timelite_batches \<Rightarrow> os
     \<Rightarrow> (error option \<times> timelite_batches option \<times> string list) \<times> os" where
  "inspect_records rg have_from db w =
     (case (if have_from then timelite_batches_seek (Some db) (from_us (the rg)) (Some ()) TIMELITE_BATCH_SCRATCH w
            else ((None, Some db), w)) of
        ((sought, db), w) \<Rightarrow>
          (case (if sought = None \<or> sought = Some END then inspect_dump rg (the db) [] w
                 else ((the sought, db, []), w)) of
             ((e, db, out), w) \<Rightarrow>
               if e = END then ((None, db, out), w)
               else ((Some e, db, out @ [''read_error='' @ inspect_error_name (Some e)]), w)))"

text \<open>\<open>memory\<close> is what the uninitialised \<open>struct timelite_batches\<close> holds.\<close>

definition inspect_status ::
  "(error \<Rightarrow> int) \<Rightarrow> timelite_batches \<Rightarrow> string \<Rightarrow> string \<Rightarrow> bool \<Rightarrow> timelite_range option \<Rightarrow> bool \<Rightarrow> os
     \<Rightarrow> (nat \<times> string list) \<times> os" where
  "inspect_status errno_value memory database_path wal_path dump rg have_from w =
     (let out = [''mode=status'', ''read_only=0'',
                 ''note=status opens the pair with the library; open performs normal recovery (WAL suffix truncation, reclaim or retention finish)'',
                 ''database='' @ database_path, ''wal='' @ wal_path];
          (_, db) = timelite_batches_init (Some memory)
      in case timelite_batches_open db (Some database_path) (Some wal_path) OPEN_EXISTING (Some ())
                TIMELITE_BATCH_SCRATCH w of
           ((Some e, db), w) \<Rightarrow>
             ((status_code e, out @ [''open_error='' @ inspect_error_name (Some e),
                                     ''open_code='' @ signed (error_number errno_value e)]), w)
         | ((None, db), w) \<Rightarrow>
             (let (error, lines) =
                (case timelite_batches_get_status db (Some ()) of
                   Inr s \<Rightarrow> (None, status_lines s)
                 | Inl e \<Rightarrow> (Some e, [''status_error='' @ inspect_error_name (Some e)]));
                  out = out @ ''open_result=ok'' # lines
              in case (if error = None \<and> dump then inspect_records rg have_from (the db) w
                       else ((error, db, []), w)) of
                   ((error, db, lines), w) \<Rightarrow>
                     (case timelite_batches_close db w of
                        ((close_error, _), w) \<Rightarrow>
                          (case (error, close_error) of
                             (Some e, _) \<Rightarrow> ((status_code e, out @ lines), w)
                           | (None, Some e) \<Rightarrow>
                               ((2, out @ lines @ [''close_error='' @ inspect_error_name (Some e)]), w)
                           | (None, None) \<Rightarrow> ((0, out @ lines), w)))))"

section \<open>The command line\<close>

definition inspect_usage :: "string list" where
  "inspect_usage =
     [''usage: timelite-inspect verify DATABASE WAL'',
      ''       timelite-inspect status DATABASE WAL [--dump] [--from-us N] [--until-us N] [--series N]'',
      '''',
      ''verify  read-only: parses both files with stdio, never opens them through'',
      ''        the library, never writes, truncates, syncs or creates anything.'',
      ''        Reports the on-disk layout and predicts what recovery would do.'',
      ''status  opens the pair with the public API (TIMELITE_OPEN_EXISTING). This'',
      ''        performs the library's normal recovery: an incomplete WAL suffix is'',
      ''        truncated, an interrupted reclaim or retention is finished.'',
      ''        --dump prints one line per record; --from-us/--until-us select a'',
      ''        half-open window and --series one series.'',
      ''exit codes: 0 coherent, 1 inconsistency found, 2 usage or I/O error'']"

text \<open>\<open>strtoull\<close> in base 10: the value, whether \<open>errno\<close> was set, and the rest of the text.\<close>

definition is_space :: "char \<Rightarrow> bool" where
  "is_space c \<longleftrightarrow> (of_char c :: nat) \<in> {9, 10, 11, 12, 13, 32}"

definition is_digit :: "char \<Rightarrow> bool" where
  "is_digit c \<longleftrightarrow> 48 \<le> (of_char c :: nat) \<and> (of_char c :: nat) \<le> 57"

definition decimal :: "string \<Rightarrow> nat" where
  "decimal ds = foldl (\<lambda>n c. 10 * n + (of_char c - 48)) 0 ds"

definition strtoull :: "string \<Rightarrow> u64 \<times> bool \<times> string" where
  "strtoull text =
     (let body = dropWhile is_space text;
          (negative, body) = (case body of
             c # cs \<Rightarrow> if c = CHR ''-'' then (True, cs) else if c = CHR ''+'' then (False, cs) else (False, body)
           | [] \<Rightarrow> (False, body));
          ds = takeWhile is_digit body; n = decimal ds
      in if ds = [] then (0, False, text)
         else if n \<ge> 2 ^ 64 then (UINT64_MAX, True, dropWhile is_digit body)
         else (if negative then - of_nat n else of_nat n, False, dropWhile is_digit body))"

definition inspect_number :: "string option \<Rightarrow> u64 option" where
  "inspect_number text =
     (case text of
        None \<Rightarrow> None
      | Some s \<Rightarrow>
          if s = [] \<or> hd s = CHR ''-'' then None
          else (case strtoull s of (parsed, failed, rest) \<Rightarrow> if failed \<or> rest \<noteq> [] then None else Some parsed))"

record inspect_opts =
  op_dump :: bool
  op_have_from :: bool
  op_have_until :: bool
  op_have_series :: bool
  op_range :: timelite_range

text \<open>The loop over the options; \<open>None\<close> stands for the exit over the usage.\<close>

fun inspect_options :: "string list \<Rightarrow> inspect_opts \<Rightarrow> inspect_opts option" where
  "inspect_options [] ops = Some ops"
| "inspect_options [a] ops = (if a = ''--dump'' then Some (ops\<lparr>op_dump := True\<rparr>) else None)"
| "inspect_options (a # b # rest) ops =
     (if a = ''--dump'' then inspect_options (b # rest) (ops\<lparr>op_dump := True\<rparr>)
      else (case inspect_number (Some b) of
              None \<Rightarrow> None
            | Some n \<Rightarrow>
                if a = ''--from-us''
                then inspect_options rest (ops\<lparr>op_range := (op_range ops)\<lparr>from_us := n\<rparr>, op_have_from := True\<rparr>)
                else if a = ''--until-us''
                then inspect_options rest (ops\<lparr>op_range := (op_range ops)\<lparr>until_us := n\<rparr>, op_have_until := True\<rparr>)
                else if a = ''--series'' \<and> n \<le> 0xFFFFFFFF
                then inspect_options rest (ops\<lparr>op_range := (op_range ops)\<lparr>range_series := ucast n, filter_series := 1\<rparr>,
                                              op_have_series := True\<rparr>)
                else None))"

definition options_start :: inspect_opts where
  "options_start =
     \<lparr>op_dump = False, op_have_from = False, op_have_until = False, op_have_series = False,
      op_range = \<lparr>from_us = 0, until_us = UINT64_MAX, range_series = 0, filter_series = 0\<rparr>\<rparr>"

text \<open>The result: the exit code, the lines on \<open>out\<close> and the lines on \<open>err\<close>.\<close>

definition timelite_inspect_run ::
  "(error \<Rightarrow> string) \<Rightarrow> (error \<Rightarrow> int) \<Rightarrow> timelite_batches \<Rightarrow> stream_plan \<Rightarrow> stream_plan \<Rightarrow> string list \<Rightarrow> os
     \<Rightarrow> (nat \<times> string list \<times> string list) \<times> os" where
  "timelite_inspect_run strerror errno_value memory plan wal_plan argv w =
     (if length argv \<ge> 2 \<and> (argv ! 1 = ''--help'' \<or> argv ! 1 = ''-h'') then ((0, inspect_usage, []), w)
      else if length argv < 4 then ((2, [], inspect_usage), w)
      else if argv ! 1 = ''verify'' then
        (if length argv \<noteq> 4 then ((2, [], inspect_usage), w)
         else (case inspect_verify strerror (argv ! 2) (argv ! 3) plan wal_plan w of
                 (code, out) \<Rightarrow> ((code, out, []), w)))
      else if argv ! 1 \<noteq> ''status'' then ((2, [], inspect_usage), w)
      else
        (case inspect_options (drop 4 argv) options_start of
           None \<Rightarrow> ((2, [], inspect_usage), w)
         | Some ops \<Rightarrow>
             (let some_range = (op_have_from ops \<or> op_have_until ops \<or> op_have_series ops); rg = op_range ops
              in if some_range \<and> \<not> op_dump ops
                 then ((2, [], [''error=--from-us, --until-us and --series require --dump'']), w)
                 else if from_us rg > until_us rg
                 then ((2, [], [''error=--from-us must not exceed --until-us'']), w)
                 else (case inspect_status errno_value memory (argv ! 2) (argv ! 3) (op_dump ops)
                              (if some_range then Some rg else None) (op_have_from ops) w of
                         ((code, out), w) \<Rightarrow> ((code, out, []), w)))))"

section \<open>The dump prints the store\<close>

lemma next_copy:
  assumes "timelite_batches_next (Some h) rec cap cnt sq scratch n w = ((Inr x, db'), w')"
  shows "\<exists>c. db' = Some (copy_cursor h c)"
  using assms by (auto simp: timelite_batches_next_def split: option.splits if_splits prod.splits sum.splits)

lemma seek_installed:
  "timelite_batches_seek (Some h) t scratch n w = ((e, Some h'), w') \<Longrightarrow> private_installed h' = private_installed h"
  by (auto simp: timelite_batches_seek_def copy_cursor_def Let_def
      split: option.splits if_splits prod.splits sum.splits bool.splits)

lemma private_copy [simp]: "private_installed (copy_cursor h c) = private_installed h"
  by (simp add: copy_cursor_def)

definition wanted :: "timelite_range option \<Rightarrow> timelite_record \<Rightarrow> bool" where
  "wanted rg r \<longleftrightarrow> (case rg of None \<Rightarrow> True | Some rg \<Rightarrow> in_range rg r)"

text \<open>The lines of the dump from batch \<open>i\<close> on.\<close>

definition batch_lines :: "timelite_range option \<Rightarrow> u64 list \<Rightarrow> timelite_record list list \<Rightarrow> nat \<Rightarrow> string list" where
  "batch_lines rg nums log k = map (record_line (nums ! k)) (filter (wanted rg) (log ! k))"

definition dump_lines :: "timelite_range option \<Rightarrow> u64 list \<Rightarrow> timelite_record list list \<Rightarrow> nat \<Rightarrow> string list" where
  "dump_lines rg nums log i = concat (map (batch_lines rg nums log) [i..<length log])"

lemma dump_lines_skip:
  assumes "\<And>k. i \<le> k \<Longrightarrow> k < j \<Longrightarrow> filter (wanted rg) (log ! k) = []" "i \<le> j" "j \<le> length log"
  shows "dump_lines rg nums log i = dump_lines rg nums log j"
proof -
  have "[i..<length log] = [i..<j] @ [j..<length log]" using assms(2,3) upt_add_eq_append [of i j "length log - j"] by simp
  then show ?thesis using assms(1) by (simp add: dump_lines_def batch_lines_def)
qed

lemma dump_lines_step:
  "i < length log \<Longrightarrow> dump_lines rg nums log i = batch_lines rg nums log i @ dump_lines rg nums log (Suc i)"
  by (simp add: dump_lines_def upt_conv_Cons)

lemma dump_read_quiet:
  assumes "script w = []" "store_view w h ss bs" "store_cursor h ss bs i" "private_installed h \<noteq> UINT64_MAX"
    and "rg = None \<or> \<not> bad_range rg"
  defines "log \<equiv> store_batches ss bs"
  defines "none \<equiv> (\<lambda>i j. \<forall>k. i \<le> k \<longrightarrow> k < j \<longrightarrow> filter (wanted rg) (log ! k) = [])"
  shows "(\<exists>j h'. dump_read rg h w =
        ((Inr (filter (wanted rg) (log ! j), store_numbers (private_installed h) ss bs ! j), Some h'), w) \<and>
        i \<le> j \<and> j < length log \<and> none i j \<and> store_view w h' ss bs \<and> store_cursor h' ss bs (Suc j) \<and>
        private_installed h' = private_installed h) \<or>
    (dump_read rg h w = ((Inl END, Some h), w) \<and> none i (length log))"
proof (cases rg)
  case None
  note q = next_in_store_quiet [OF assms(1-3), of TIMELITE_BATCH_SCRATCH TIMELITE_MAX_RECORDS, folded log_def]
  have all: "filter (wanted rg) xs = xs" for xs by (simp add: None wanted_def)
  show ?thesis
  proof (cases "i < length log")
    case True
    then obtain h' where r: "timelite_batches_next (Some h) (Some ()) TIMELITE_MAX_RECORDS (Some ()) (Some ()) (Some ())
        TIMELITE_BATCH_SCRATCH w = ((Inr (log ! i, store_numbers (private_installed h) ss bs ! i), Some h'), w)"
      using q by auto
    note s = next_in_store(4,5) [OF assms(2,3) r]
    obtain c where c: "Some h' = Some (copy_cursor h c)" using next_copy [OF r] by blast
    show ?thesis
      unfolding all
      by (intro disjI1 exI [of _ i] exI [of _ h']) (use True r s c None in \<open>simp add: dump_read_def none_def\<close>)
  next
    case False
    then show ?thesis using q None by (simp add: dump_read_def none_def)
  qed
next
  case (Some r)
  have w: "wanted rg = in_range r" by (simp add: fun_eq_iff wanted_def Some)
  have nb: "\<not> bad_range (Some r)" using assms(5) Some by simp
  obtain x db' u where nr: "timelite_batches_next_range (Some h) (Some r) (Some ()) TIMELITE_MAX_RECORDS
      (Some ()) (Some ()) (Some ()) TIMELITE_BATCH_SCRATCH w = ((x, db'), u)" by (metis surj_pair)
  note s = next_range_store [OF assms(2-4) nb _ _ nr, folded log_def]
  have u: "u = w" using s(3) assms(1) by simp
  have d: "dump_read rg h w = ((x, db'), w)" using nr Some u by (simp add: dump_read_def)
  show ?thesis
  proof (cases x)
    case (Inl e)
    have small: "\<not> TIMELITE_MAX_RECORDS < length (filter (in_range r) (log ! j))" if "j < length log" for j
    proof -
      have "length (log ! j) \<le> TIMELITE_MAX_RECORDS"
        using store_batch_valid [OF assms(2)] that by (simp add: valid_batch_def log_def)
      then show ?thesis using length_filter_le [of "in_range r" "log ! j"] by linarith
    qed
    have "e = END \<and> (\<forall>k. i \<le> k \<longrightarrow> k < length log \<longrightarrow> \<not> hits r (log ! k))"
      using s(3) assms(1) Inl small by (auto simp: first_batch_def)
    then show ?thesis using d Inl s(2) by (simp add: none_def w hits_def)
  next
    case (Inr y)
    obtain ms b where y: "y = (ms, b)" by force
    from s(1) Inr y obtain j h' where "db' = Some h'" "first_batch (hits r) log i j"
      "ms = filter (in_range r) (log ! j)" "b = store_numbers (private_installed h) ss bs ! j" "store_view u h' ss bs"
      "store_cursor h' ss bs (Suc j)" "private_installed h' = private_installed h" by blast
    then show ?thesis
      using d Inr y u by (intro disjI1 exI [of _ j] exI [of _ h']) (simp add: first_batch_def none_def w hits_def)
  qed
qed

lemma inspect_dump_quiet:
  fixes ss :: "segment_content list" and bs :: "timelite_record list list"
  assumes "script w = []" "rg = None \<or> \<not> bad_range rg"
  defines "log \<equiv> store_batches ss bs"
  shows "store_view w h ss bs \<Longrightarrow> store_cursor h ss bs i \<Longrightarrow> i \<le> length log \<Longrightarrow> private_installed h \<noteq> UINT64_MAX \<Longrightarrow>
    \<exists>h'. inspect_dump rg h out w =
      ((END, Some h', out @ dump_lines rg (store_numbers (private_installed h) ss bs) log i), w)"
proof (induction "length log - i" arbitrary: h i out rule: less_induct)
  case less
  let ?lines = "dump_lines rg (store_numbers (private_installed h) ss bs) log"
  note step = dump_read_quiet [OF assms(1) less.prems(1,2,4) assms(2), folded log_def]
  show ?case
  proof (cases "dump_read rg h w = ((Inl END, Some h), w)")
    case True
    then have "\<forall>k. i \<le> k \<longrightarrow> k < length log \<longrightarrow> filter (wanted rg) (log ! k) = []" using step by auto
    then have "?lines i = ?lines (length log)" using less.prems(3) by (intro dump_lines_skip) simp_all
    then show ?thesis using True by (subst inspect_dump.simps) (simp add: dump_lines_def)
  next
    case False
    with step obtain j h' where r: "dump_read rg h w =
        ((Inr (filter (wanted rg) (log ! j), store_numbers (private_installed h) ss bs ! j), Some h'), w)"
      and j: "i \<le> j" "j < length log" "\<forall>k. i \<le> k \<longrightarrow> k < j \<longrightarrow> filter (wanted rg) (log ! k) = []"
      and h': "store_view w h' ss bs" "store_cursor h' ss bs (Suc j)" "private_installed h' = private_installed h" by blast
    have "?lines i = batch_lines rg (store_numbers (private_installed h) ss bs) log j @ ?lines (Suc j)"
      using dump_lines_skip [OF j(3) [rule_format] j(1)] dump_lines_step [OF j(2)] j(2) by simp
    moreover have "length log - Suc j < length log - i" "Suc j \<le> length log" using j by simp_all
    ultimately show ?thesis
      using less.hyps [of "Suc j" h' "out @ map (record_line (store_numbers (private_installed h) ss bs ! j))
          (filter (wanted rg) (log ! j))"] h' less.prems(4) r
      by (subst inspect_dump.simps) (simp add: batch_lines_def)
  qed
qed

lemma sorted_below_last:
  assumes "sorted (map timestamp_us rs)" "rs \<noteq> []" "\<not> reaches t rs" "r \<in> set rs"
  shows "timestamp_us r < t"
proof -
  obtain k where k: "k < length rs" "r = rs ! k" using assms(4) by (auto simp: in_set_conv_nth)
  then have "timestamp_us (rs ! k) \<le> timestamp_us (rs ! (length rs - 1))"
    using sorted_nth_mono [OF assms(1), of k "length rs - 1"] by simp
  then show ?thesis using assms(2,3) k(2) by (simp add: reaches_def last_conv_nth)
qed

section \<open>Numbers on the command line\<close>

lemma of_char_digit: "n < 10 \<Longrightarrow> of_char (digit n) = 48 + n"
  by (simp add: digit_def)

lemma is_digit_digit: "n < 10 \<Longrightarrow> is_digit (digit n)"
  by (simp add: is_digit_def of_char_digit)

lemma decimal_snoc: "decimal (ds @ [c]) = 10 * decimal ds + (of_char c - 48)"
  by (simp add: decimal_def)

lemma dec_digits: "list_all is_digit (dec n) \<and> dec n \<noteq> [] \<and> decimal (dec n) = n"
proof (induction n rule: dec.induct)
  case (1 n)
  show ?case
  proof (cases "n < 10")
    case True
    then show ?thesis by (subst dec.simps, subst (2) dec.simps, subst (3) dec.simps)
        (simp add: is_digit_digit decimal_def of_char_digit)
  next
    case False
    then have "dec n = dec (n div 10) @ [digit (n mod 10)]" by (subst dec.simps) simp
    then show ?thesis using "1.IH" [OF False] by (simp add: is_digit_digit decimal_snoc of_char_digit)
  qed
qed

lemma strtoull_digits:
  assumes "list_all is_digit ds" "ds \<noteq> []"
  shows "strtoull ds = (if decimal ds \<ge> 2 ^ 64 then (UINT64_MAX, True, []) else (of_nat (decimal ds), False, []))"
proof -
  obtain c cs where ds: "ds = c # cs" using assms(2) by (cases ds) simp_all
  have c: "is_digit c" using assms(1) ds by simp
  then have "\<not> is_space c" "c \<noteq> CHR ''-''" "c \<noteq> CHR ''+''" by (auto simp: is_digit_def is_space_def)
  moreover have "takeWhile is_digit ds = ds" "dropWhile is_digit ds = []" using assms(1) by (simp_all add: list_all_iff)
  ultimately show ?thesis using assms(2) by (simp add: strtoull_def ds Let_def)
qed

section \<open>Properties\<close>

text \<open>
  C12. A dump prints the store.  Without faults, \<open>status --dump\<close> on an open store prints one line for each
  record of the store that lies in the range asked for (all of them without a range), in order, each with
  the sequence number of its batch, and ends without an error; with \<open>--from-us\<close>, which makes the tool seek
  first, provided each batch of the store is in time order, as append enforces (a seek may skip
  records of the range in an unordered batch of an old file).
\<close>

theorem dump_prints_store:
  assumes "script w = []" "store_view w h ss bs" "store_cursor h ss bs 0" "private_sequence h \<noteq> UINT64_MAX"
    and "rg = None \<and> \<not> have_from \<or> (\<exists>r. rg = Some r \<and> \<not> bad_range (Some r))"
    and "\<And>rs. have_from \<Longrightarrow> rs \<in> set (store_batches ss bs) \<Longrightarrow> sorted (map timestamp_us rs)"
  defines "log \<equiv> store_batches ss bs" and "nums \<equiv> store_numbers (private_installed h) ss bs"
  shows "\<exists>h'. inspect_records rg have_from h w =
    ((None, Some h', concat (map (\<lambda>k. map (record_line (nums ! k)) (filter (wanted rg) (log ! k))) [0..<length log])), w)"
proof -
  have v: "wal_view w h bs" using assms(2) by (simp add: store_view_def)
  then have "unat (private_installed h) \<le> unat (private_sequence h)" by (simp add: wal_view_def)
  then have inst: "private_installed h \<noteq> UINT64_MAX"
    using assms(4) u64_bound [of "private_sequence h"] by (auto simp: word_unat_eq_iff)
  have rg: "rg = None \<or> \<not> bad_range rg" using assms(5) by auto
  note dump = inspect_dump_quiet [OF assms(1) rg, where out = "[]", unfolded append_Nil]
  have goal: "concat (map (\<lambda>k. map (record_line (nums ! k)) (filter (wanted rg) (log ! k))) [0..<length log]) = dump_lines rg nums log 0"
    by (simp add: dump_lines_def batch_lines_def [abs_def])
  show ?thesis
  proof (cases have_from)
    case False
    obtain h' where "inspect_dump rg h [] w = ((END, Some h', dump_lines rg nums log 0), w)"
      using dump [OF assms(2,3) _ inst] unfolding log_def nums_def by auto
    then show ?thesis unfolding goal using False by (simp add: inspect_records_def)
  next
    case True
    then obtain r where r: "rg = Some r" using assms(5) by auto
    obtain j c where sk: "timelite_batches_seek (Some h) (from_us r) (Some ()) TIMELITE_BATCH_SCRATCH w =
        ((if j < length log then None else Some END, Some c), w)" and j: "store_view w c ss bs" "store_cursor c ss bs j"
        "j \<le> length log" "\<forall>k < j. \<not> reaches (from_us r) (log ! k)"
      using seek_quiet [OF assms(1,2,4) order_refl, of "from_us r", folded log_def] by blast
    note j = sk j seek_installed [OF sk]
    have none: "filter (wanted rg) (log ! k) = []" if "k < j" for k
    proof -
      have k: "log ! k \<in> set log" using that j(4) by simp
      then have "sorted (map timestamp_us (log ! k))" using assms(6) True by (simp add: log_def)
      moreover have "log ! k \<noteq> []"
        using store_batch_valid [OF assms(2), of k] that j(4) by (auto simp: valid_batch_def log_def)
      ultimately show ?thesis
        using sorted_below_last [of "log ! k" "from_us r"] j(5) that
        by (fastforce simp: filter_empty_conv wanted_def r in_range_def not_le)
    qed
    obtain h' where "inspect_dump rg c [] w = ((END, Some h', dump_lines rg nums log j), w)"
      using dump [OF j(2,3)] j(4,6) inst unfolding log_def nums_def by auto
    moreover have "dump_lines rg nums log 0 = dump_lines rg nums log j"
      using none j(4) by (intro dump_lines_skip) simp_all
    ultimately show ?thesis
      unfolding goal using True j(1) r by (simp add: inspect_records_def)
  qed
qed

theorem dump_prints_store_witness:
  "\<exists>h w h'. inspect_records (Some sample_range) True h w =
     ((None, Some h', [''batch=1 series=7 us=1000 value=-5'']), w)"
proof -
  obtain h w where a: "script w = []" "store_view w h [] [[sample_record]]" "store_cursor h [] [[sample_record]] 0"
    "private_sequence h = 1" by (rule sample_appended) blast
  have log: "store_batches [] [[sample_record]] = [[sample_record]]" "store_numbers 0 [] [[sample_record]] = [1]"
    by (simp_all add: store_batches_def store_numbers_def numbers_def)
  have "record_line 1 sample_record = ''batch=1 series=7 us=1000 value=-5''"
    by (simp add: record_line_def sample_record_def signed_def dec.simps digit_def char_of_def bit_0)
  moreover have "wanted (Some sample_range) sample_record" by (simp add: wanted_def)
  ultimately show ?thesis
    using dump_prints_store [OF a(1-3), of "Some sample_range" True, unfolded log sample_installed [OF a(2,4)]] a(4)
    by (fastforce simp: log)
qed

text \<open>
  C33. Numbers survive the round trip through the command line: what the tool prints for a 64-bit number,
  \<open>inspect_number\<close> reads back; a decimal number of 65 bits or more is refused and never wraps.
\<close>

theorem number_round_trip:
  "inspect_number (Some (dec n)) = (if n < 2 ^ 64 then Some (of_nat n) else None)"
proof -
  note d = dec_digits [of n]
  have "hd (dec n) \<noteq> CHR ''-''" using d by (cases "dec n") (auto simp: is_digit_def)
  then show ?thesis using d strtoull_digits [of "dec n"] by (simp add: inspect_number_def)
qed

text \<open>A minus sign after a space is not refused: \<open>strtoull\<close> skips the space and negates.\<close>

lemma number_after_space: "inspect_number (Some '' -1'') = Some UINT64_MAX"
  by (simp add: inspect_number_def strtoull_def is_space_def is_digit_def decimal_def Let_def)

end
