(* ===== verification/TL_Windows.thy ===== *)
theory TL_Windows
  imports TL_FileIO
begin

text \<open>
  The Windows file layer, \<open>file_io_windows.c\<close>, over a model of the Win32 calls it makes.  A handle has a
  file pointer of its own, which the transfers advance and \<open>SetFilePointerEx\<close> sets; a lock is mandatory,
  so that it also stops the transfers of other handles; \<open>SetEndOfFile\<close> leaves the bytes it adds undefined
  (\<open>w_gap\<close>).  As in the POSIX model a script decides the outcome of each call.  The layer meets the same
  contract as the POSIX one: it is a second interpretation of \<open>file_backend\<close>.
\<close>

section \<open>The Win32 calls\<close>

datatype win_error =
    ERROR_SUCCESS | ERROR_FILE_NOT_FOUND | ERROR_PATH_NOT_FOUND | ERROR_FILE_EXISTS | ERROR_ALREADY_EXISTS
  | ERROR_ACCESS_DENIED | ERROR_SHARING_VIOLATION | ERROR_LOCK_VIOLATION | ERROR_WRITE_PROTECT
  | ERROR_INVALID_HANDLE | ERROR_INVALID_PARAMETER | ERROR_INVALID_NAME | ERROR_BAD_PATHNAME
  | ERROR_NEGATIVE_SEEK | ERROR_ARITHMETIC_OVERFLOW | ERROR_FILE_TOO_LARGE | ERROR_DISK_FULL
  | ERROR_HANDLE_DISK_FULL | ERROR_NOT_ENOUGH_MEMORY | ERROR_OUTOFMEMORY | ERROR_TOO_MANY_OPEN_FILES
  | ERROR_FILENAME_EXCED_RANGE | ERROR_INSUFFICIENT_BUFFER | ERROR_NO_UNICODE_TRANSLATION
  | ERROR_NOT_SUPPORTED | ERROR_INVALID_FUNCTION | ERROR_HANDLE_EOF | Native nat

datatype win_handle = NULL_HANDLE | INVALID_HANDLE_VALUE | Handle nat

datatype win_outcome = WDone | WShort nat | WFail win_error | WFailAfter win_error

record win_node =
  n_data :: bytes
  n_synced :: bytes
  n_disk :: bool
  n_directory :: bool

record win =
  w_names :: "string \<Rightarrow> nat option"
  w_nodes :: "nat \<Rightarrow> win_node"
  w_handles :: "nat \<Rightarrow> (nat \<times> nat) option"
  w_locks :: "nat \<Rightarrow> nat option"
  w_gap :: byte
  w_next_node :: nat
  w_next_handle :: nat
  w_script :: "win_outcome list"

definition win_pop :: "win \<Rightarrow> win_outcome \<times> win" where
  "win_pop w = (case w_script w of [] \<Rightarrow> (WDone, w) | oc # s \<Rightarrow> (oc, w\<lparr>w_script := s\<rparr>))"

text \<open>The node and the file pointer of a handle.\<close>

definition win_lookup :: "win_handle \<Rightarrow> win \<Rightarrow> (nat \<times> nat \<times> nat) option" where
  "win_lookup handle w =
     (case handle of Handle h \<Rightarrow> map_option (\<lambda>(i, pos). (h, i, pos)) (w_handles w h) | _ \<Rightarrow> None)"

text \<open>A call without effect but for its outcome.\<close>

definition win_query :: "(win \<Rightarrow> 'a) \<Rightarrow> win \<Rightarrow> (win_error + 'a) \<times> win" where
  "win_query answer w =
     (let (oc, w) = win_pop w
      in case oc of WFail e \<Rightarrow> (Inl e, w) | WFailAfter e \<Rightarrow> (Inl e, w) | _ \<Rightarrow> (Inr (answer w), w))"

text \<open>A call on an open handle.\<close>

definition on_handle ::
  "win_handle \<Rightarrow> (nat \<Rightarrow> nat \<Rightarrow> nat \<Rightarrow> win_outcome \<Rightarrow> win \<Rightarrow> (win_error + 'a) \<times> win) \<Rightarrow> win \<Rightarrow> (win_error + 'a) \<times> win" where
  "on_handle handle act w =
     (let (oc, w) = win_pop w
      in case win_lookup handle w of
           None \<Rightarrow> (Inl ERROR_INVALID_HANDLE, w)
         | Some (h, i, pos) \<Rightarrow> act h i pos oc w)"

definition win_move :: "nat \<Rightarrow> nat \<Rightarrow> nat \<Rightarrow> win \<Rightarrow> win" where
  "win_move h i pos w = w\<lparr>w_handles := (w_handles w)(h \<mapsto> (i, pos))\<rparr>"

definition win_modify :: "nat \<Rightarrow> (win_node \<Rightarrow> win_node) \<Rightarrow> win \<Rightarrow> win" where
  "win_modify i g w = w\<lparr>w_nodes := (w_nodes w)(i := g (w_nodes w i))\<rparr>"

text \<open>\<open>MultiByteToWideChar\<close>: the script decides whether the path is valid UTF-8.\<close>

definition win_MultiByteToWideChar :: "string \<Rightarrow> win \<Rightarrow> (win_error + string) \<times> win" where
  "win_MultiByteToWideChar path = win_query (\<lambda>_. path)"

definition win_CreateFile :: "string \<Rightarrow> bool \<Rightarrow> win \<Rightarrow> (win_error + win_handle) \<times> win" where
  "win_CreateFile path create w =
     (let (oc, w) = win_pop w; i = w_next_node w; h = w_next_handle w;
          made = w\<lparr>w_names := (w_names w)(path \<mapsto> i),
                   w_nodes := (w_nodes w)(i := \<lparr>n_data = [], n_synced = [], n_disk = True, n_directory = False\<rparr>),
                   w_next_node := i + 1\<rparr>
      in case oc of
           WFail e \<Rightarrow> (Inl e, w)
         | WFailAfter e \<Rightarrow> (Inl e, if create \<and> w_names w path = None then made else w)
         | _ \<Rightarrow>
             (case w_names w path of
                Some j \<Rightarrow>
                  if create then (Inl ERROR_FILE_EXISTS, w)
                  else (Inr (Handle h), w\<lparr>w_handles := (w_handles w)(h \<mapsto> (j, 0)), w_next_handle := h + 1\<rparr>)
              | None \<Rightarrow>
                  if create
                  then (Inr (Handle h), made\<lparr>w_handles := (w_handles w)(h \<mapsto> (i, 0)), w_next_handle := h + 1\<rparr>)
                  else (Inl ERROR_FILE_NOT_FOUND, w)))"

text \<open>\<open>GetFileType\<close>: whether it is \<open>FILE_TYPE_DISK\<close>, and the last error after the call.\<close>

definition win_GetFileType :: "win_handle \<Rightarrow> win \<Rightarrow> (bool \<times> win_error) \<times> win" where
  "win_GetFileType handle w =
     (case on_handle handle (\<lambda>h i pos oc w.
             case oc of WFail e \<Rightarrow> (Inl e, w) | WFailAfter e \<Rightarrow> (Inl e, w) | _ \<Rightarrow> (Inr (n_disk (w_nodes w i)), w)) w of
        (Inl e, w) \<Rightarrow> ((False, e), w)
      | (Inr disk, w) \<Rightarrow> ((disk, ERROR_SUCCESS), w))"

text \<open>\<open>GetFileInformationByHandle\<close>: the attribute of a directory.\<close>

definition win_GetFileInformation :: "win_handle \<Rightarrow> win \<Rightarrow> (win_error + bool) \<times> win" where
  "win_GetFileInformation handle =
     on_handle handle (\<lambda>h i pos oc w.
       case oc of WFail e \<Rightarrow> (Inl e, w) | WFailAfter e \<Rightarrow> (Inl e, w) | _ \<Rightarrow> (Inr (n_directory (w_nodes w i)), w))"

text \<open>A close that fails may or may not have released the handle and its lock.\<close>

definition win_CloseHandle :: "win_handle \<Rightarrow> win \<Rightarrow> (win_error + unit) \<times> win" where
  "win_CloseHandle handle =
     on_handle handle (\<lambda>h i pos oc w.
       let closed = w\<lparr>w_handles := (w_handles w)(h := None),
                      w_locks := (if w_locks w i = Some h then (w_locks w)(i := None) else w_locks w)\<rparr>
       in case oc of WFail e \<Rightarrow> (Inl e, w) | WFailAfter e \<Rightarrow> (Inl e, closed) | _ \<Rightarrow> (Inr (), closed))"

text \<open>\<open>LockFileEx\<close> with \<open>LOCKFILE_EXCLUSIVE_LOCK | LOCKFILE_FAIL_IMMEDIATELY\<close> over the whole range.\<close>

definition win_LockFile :: "win_handle \<Rightarrow> win \<Rightarrow> (win_error + unit) \<times> win" where
  "win_LockFile handle =
     on_handle handle (\<lambda>h i pos oc w.
       case oc of
         WFail e \<Rightarrow> (Inl e, w)
       | WFailAfter e \<Rightarrow> (Inl e, w)
       | _ \<Rightarrow> if w_locks w i = None then (Inr (), w\<lparr>w_locks := (w_locks w)(i \<mapsto> h)\<rparr>)
              else (Inl ERROR_LOCK_VIOLATION, w))"

definition locked_out :: "nat \<Rightarrow> nat \<Rightarrow> win \<Rightarrow> bool" where
  "locked_out h i w \<longleftrightarrow> (case w_locks w i of None \<Rightarrow> False | Some owner \<Rightarrow> owner \<noteq> h)"

definition win_SetFilePointer :: "win_handle \<Rightarrow> nat \<Rightarrow> win \<Rightarrow> (win_error + unit) \<times> win" where
  "win_SetFilePointer handle pos =
     on_handle handle (\<lambda>h i _ oc w.
       case oc of WFail e \<Rightarrow> (Inl e, w) | WFailAfter e \<Rightarrow> (Inl e, w) | _ \<Rightarrow> (Inr (), win_move h i pos w))"

text \<open>\<open>ReadFile\<close>; \<open>ERROR_HANDLE_EOF\<close> is an error it can report only at the end of the file.\<close>

definition win_ReadFile :: "win_handle \<Rightarrow> nat \<Rightarrow> win \<Rightarrow> (win_error + bytes) \<times> win" where
  "win_ReadFile handle count =
     on_handle handle (\<lambda>h i pos oc w.
       let got = (\<lambda>n. let bs = block pos n (n_data (w_nodes w i)) in (Inr bs, win_move h i (pos + length bs) w))
       in if locked_out h i w then (Inl ERROR_LOCK_VIOLATION, w)
          else (case oc of
                  WFail e \<Rightarrow> if e = ERROR_HANDLE_EOF \<and> pos < length (n_data (w_nodes w i)) then got count else (Inl e, w)
                | WFailAfter e \<Rightarrow> if e = ERROR_HANDLE_EOF \<and> pos < length (n_data (w_nodes w i)) then got count else (Inl e, w)
                | WShort n \<Rightarrow> got (min count (max 1 n))
                | WDone \<Rightarrow> got count))"

definition win_WriteFile :: "win_handle \<Rightarrow> bytes \<Rightarrow> win \<Rightarrow> (win_error + nat) \<times> win" where
  "win_WriteFile handle bs =
     on_handle handle (\<lambda>h i pos oc w.
       let wrote = (\<lambda>n. win_move h i (pos + n) (win_modify i (\<lambda>x. x\<lparr>n_data := overwrite pos (take n bs) (n_data x)\<rparr>) w))
       in if locked_out h i w then (Inl ERROR_LOCK_VIOLATION, w)
          else (case oc of
                  WFail e \<Rightarrow> (Inl e, w)
                | WFailAfter e \<Rightarrow> (Inl e, wrote (length bs))
                | WShort n \<Rightarrow> (Inr (min n (length bs)), wrote (min n (length bs)))
                | WDone \<Rightarrow> (Inr (length bs), wrote (length bs))))"

text \<open>\<open>GetFileSizeEx\<close> answers with a \<open>LONGLONG\<close>; no volume holds a file that needs more.\<close>

definition win_GetFileSize :: "win_handle \<Rightarrow> win \<Rightarrow> (win_error + int) \<times> win" where
  "win_GetFileSize handle =
     on_handle handle (\<lambda>h i pos oc w.
       case oc of WFail e \<Rightarrow> (Inl e, w) | WFailAfter e \<Rightarrow> (Inl e, w)
       | _ \<Rightarrow> if length (n_data (w_nodes w i)) < 2 ^ 63 then (Inr (int (length (n_data (w_nodes w i)))), w)
              else (Inl ERROR_ARITHMETIC_OVERFLOW, w))"

definition win_SetEndOfFile :: "win_handle \<Rightarrow> win \<Rightarrow> (win_error + unit) \<times> win" where
  "win_SetEndOfFile handle =
     on_handle handle (\<lambda>h i pos oc w.
       let cut = win_modify i (\<lambda>x. x\<lparr>n_data := take pos (n_data x @ replicate (pos - length (n_data x)) (w_gap w))\<rparr>) w
       in case oc of WFail e \<Rightarrow> (Inl e, w) | WFailAfter e \<Rightarrow> (Inl e, cut) | _ \<Rightarrow> (Inr (), cut))"

definition win_FlushFileBuffers :: "win_handle \<Rightarrow> win \<Rightarrow> (win_error + unit) \<times> win" where
  "win_FlushFileBuffers handle =
     on_handle handle (\<lambda>h i pos oc w.
       let flushed = win_modify i (\<lambda>x. x\<lparr>n_synced := n_data x\<rparr>) w
       in case oc of WFail e \<Rightarrow> (Inl e, w) | WFailAfter e \<Rightarrow> (Inl e, flushed) | _ \<Rightarrow> (Inr (), flushed))"

section \<open>file\_io\_windows.c\<close>

definition windows_error :: "win_error \<Rightarrow> error" where
  "windows_error error =
     (case error of
        ERROR_FILE_NOT_FOUND \<Rightarrow> ENOENT
      | ERROR_PATH_NOT_FOUND \<Rightarrow> ENOENT
      | ERROR_FILE_EXISTS \<Rightarrow> EEXIST
      | ERROR_ALREADY_EXISTS \<Rightarrow> EEXIST
      | ERROR_ACCESS_DENIED \<Rightarrow> EACCES
      | ERROR_SHARING_VIOLATION \<Rightarrow> EACCES
      | ERROR_LOCK_VIOLATION \<Rightarrow> EACCES
      | ERROR_WRITE_PROTECT \<Rightarrow> EACCES
      | ERROR_INVALID_HANDLE \<Rightarrow> EBADF
      | ERROR_INVALID_PARAMETER \<Rightarrow> EINVAL
      | ERROR_INVALID_NAME \<Rightarrow> EINVAL
      | ERROR_BAD_PATHNAME \<Rightarrow> EINVAL
      | ERROR_NEGATIVE_SEEK \<Rightarrow> EINVAL
      | ERROR_ARITHMETIC_OVERFLOW \<Rightarrow> EOVERFLOW
      | ERROR_FILE_TOO_LARGE \<Rightarrow> EFBIG
      | ERROR_DISK_FULL \<Rightarrow> ENOSPC
      | ERROR_HANDLE_DISK_FULL \<Rightarrow> ENOSPC
      | ERROR_NOT_ENOUGH_MEMORY \<Rightarrow> ENOMEM
      | ERROR_OUTOFMEMORY \<Rightarrow> ENOMEM
      | ERROR_TOO_MANY_OPEN_FILES \<Rightarrow> EMFILE
      | ERROR_FILENAME_EXCED_RANGE \<Rightarrow> ENAMETOOLONG
      | ERROR_INSUFFICIENT_BUFFER \<Rightarrow> ENAMETOOLONG
      | ERROR_NO_UNICODE_TRANSLATION \<Rightarrow> EILSEQ
      | ERROR_NOT_SUPPORTED \<Rightarrow> ENOTSUP
      | ERROR_INVALID_FUNCTION \<Rightarrow> ENOTSUP
      | _ \<Rightarrow> EIO)"

record win_file =
  f_handle :: win_handle

definition WIN_FILE_INIT :: win_file where
  "WIN_FILE_INIT = \<lparr>f_handle = NULL_HANDLE\<rparr>"

abbreviation MAX_PATH :: nat where "MAX_PATH \<equiv> 260"
abbreviation TRANSFER_LIMIT :: nat where "TRANSFER_LIMIT \<equiv> 0xFFFFFFFF"

definition win_check_file :: "win_file option \<Rightarrow> error option" where
  "win_check_file file =
     (case file of
        None \<Rightarrow> Some EINVAL
      | Some f \<Rightarrow>
          if f_handle f = NULL_HANDLE \<or> f_handle f = INVALID_HANDLE_VALUE then Some EBADF else None)"

text \<open>The checks of \<open>open_file\<close> on a fresh handle.\<close>

definition win_validate_handle :: "win_handle \<Rightarrow> win \<Rightarrow> error option \<times> win" where
  "win_validate_handle handle w =
     (case win_GetFileType handle w of
        ((disk, native_error), w) \<Rightarrow>
          if \<not> disk
          then (Some (if native_error = ERROR_SUCCESS then EINVAL else windows_error native_error), w)
          else (case win_GetFileInformation handle w of
                  (Inl e, w) \<Rightarrow> (Some (windows_error e), w)
                | (Inr directory, w) \<Rightarrow> (if directory then Some EINVAL else None, w)))"

definition win_open_file :: "win_file option \<Rightarrow> string option \<Rightarrow> bool \<Rightarrow> win \<Rightarrow> (error + win_file) \<times> win" where
  "win_open_file file path create w =
     (case (file, path) of
        (Some f, Some p) \<Rightarrow>
          if p = [] then (Inl EINVAL, w)
          else if f_handle f \<noteq> NULL_HANDLE then (Inl EINVAL, w)
          else if min (length p) MAX_PATH = MAX_PATH then (Inl ENAMETOOLONG, w)
          else (case win_MultiByteToWideChar p w of
                  (Inl e, w) \<Rightarrow> (Inl (windows_error e), w)
                | (Inr wide_path, w) \<Rightarrow>
                    (case win_CreateFile wide_path create w of
                       (Inl e, w) \<Rightarrow> (Inl (windows_error e), w)
                     | (Inr handle, w) \<Rightarrow>
                         (case win_validate_handle handle w of
                            (Some e, w) \<Rightarrow> (Inl e, snd (win_CloseHandle handle w))
                          | (None, w) \<Rightarrow> (Inr \<lparr>f_handle = handle\<rparr>, w))))
      | _ \<Rightarrow> (Inl EINVAL, w))"

definition win_file_open :: "win_file option \<Rightarrow> string option \<Rightarrow> win \<Rightarrow> (error + win_file) \<times> win" where
  "win_file_open file path w = win_open_file file path False w"

definition win_file_create :: "win_file option \<Rightarrow> string option \<Rightarrow> win \<Rightarrow> (error + win_file) \<times> win" where
  "win_file_create file path w = win_open_file file path True w"

definition win_file_lock :: "win_file option \<Rightarrow> win \<Rightarrow> error option \<times> win" where
  "win_file_lock file w =
     (case win_check_file file of
        Some e \<Rightarrow> (Some e, w)
      | None \<Rightarrow>
          (case win_LockFile (f_handle (the file)) w of
             (Inl e, w) \<Rightarrow> (Some (if e = ERROR_LOCK_VIOLATION then EBUSY else windows_error e), w)
           | (Inr _, w) \<Rightarrow> (None, w)))"

definition win_check_transfer ::
  "win_file option \<Rightarrow> u64 \<Rightarrow> 'b option \<Rightarrow> nat \<Rightarrow> unit option \<Rightarrow> error option" where
  "win_check_transfer file offset buffer len transferred =
     (if transferred = None then Some EINVAL
      else case win_check_file file of
             Some e \<Rightarrow> Some e
           | None \<Rightarrow>
               if (case buffer of None \<Rightarrow> len \<noteq> 0 | Some _ \<Rightarrow> False) then Some EINVAL
               else if offset > INT64_MAX \<or> len > unat (INT64_MAX - offset) then Some EOVERFLOW
               else None)"

definition win_seek_file :: "win_file \<Rightarrow> u64 \<Rightarrow> win \<Rightarrow> error option \<times> win" where
  "win_seek_file file offset w =
     (case win_SetFilePointer (f_handle file) (unat offset) w of
        (Inl e, w) \<Rightarrow> (Some (windows_error e), w)
      | (Inr _, w) \<Rightarrow> (None, w))"

text \<open>The transfer loops, from the current file pointer; \<open>acc\<close> and \<open>sofar\<close> are what has been transferred.\<close>

function win_read_loop :: "win_handle \<Rightarrow> nat \<Rightarrow> bytes \<Rightarrow> win \<Rightarrow> (error option \<times> bytes) \<times> win" where
  "win_read_loop handle len acc w =
     (if length acc < len then
        (let count = min (len - length acc) TRANSFER_LIMIT
         in case win_ReadFile handle count w of
              (Inl e, w') \<Rightarrow> ((if e = ERROR_HANDLE_EOF then None else Some (windows_error e), acc), w')
            | (Inr bs, w') \<Rightarrow> if bs = [] then ((None, acc), w') else win_read_loop handle len (acc @ bs) w')
      else ((None, acc), w))"
  by pat_completeness auto
termination
  by (relation "measure (\<lambda>(handle, len, acc, w). len - length acc)") (auto simp: neq_Nil_conv)

declare win_read_loop.simps [simp del]

function win_write_loop :: "win_handle \<Rightarrow> bytes \<Rightarrow> nat \<Rightarrow> win \<Rightarrow> (error option \<times> nat) \<times> win" where
  "win_write_loop handle bs sofar w =
     (if sofar < length bs then
        (let count = min (length bs - sofar) TRANSFER_LIMIT
         in case win_WriteFile handle (block sofar count bs) w of
              (Inl e, w') \<Rightarrow> ((Some (windows_error e), sofar), w')
            | (Inr n, w') \<Rightarrow> if n = 0 then ((Some EIO, sofar), w') else win_write_loop handle bs (sofar + n) w')
      else ((None, sofar), w))"
  by pat_completeness auto
termination
  by (relation "measure (\<lambda>(handle, bs, sofar, w). length bs - sofar)") auto

declare win_write_loop.simps [simp del]

definition win_file_read ::
  "win_file option \<Rightarrow> u64 \<Rightarrow> unit option \<Rightarrow> nat \<Rightarrow> unit option \<Rightarrow> win \<Rightarrow> (error option \<times> bytes) \<times> win" where
  "win_file_read file offset buffer len transferred w =
     (case win_check_transfer file offset buffer len transferred of
        Some e \<Rightarrow> ((Some e, []), w)
      | None \<Rightarrow>
          if len = 0 then ((None, []), w)
          else (case win_seek_file (the file) offset w of
                  (Some e, w) \<Rightarrow> ((Some e, []), w)
                | (None, w) \<Rightarrow> win_read_loop (f_handle (the file)) len [] w))"

definition win_file_write ::
  "win_file option \<Rightarrow> u64 \<Rightarrow> bytes option \<Rightarrow> nat \<Rightarrow> unit option \<Rightarrow> win \<Rightarrow> (error option \<times> nat) \<times> win" where
  "win_file_write file offset buffer len transferred w =
     (case win_check_transfer file offset buffer len transferred of
        Some e \<Rightarrow> ((Some e, 0), w)
      | None \<Rightarrow>
          if len = 0 then ((None, 0), w)
          else (case win_seek_file (the file) offset w of
                  (Some e, w) \<Rightarrow> ((Some e, 0), w)
                | (None, w) \<Rightarrow>
                    win_write_loop (f_handle (the file)) (case buffer of None \<Rightarrow> [] | Some b \<Rightarrow> take len b) 0 w))"

definition win_file_size :: "win_file option \<Rightarrow> unit option \<Rightarrow> win \<Rightarrow> (error + u64) \<times> win" where
  "win_file_size file size_out w =
     (case win_check_file file of
        Some e \<Rightarrow> (Inl e, w)
      | None \<Rightarrow>
          if size_out = None then (Inl EINVAL, w)
          else (case win_GetFileSize (f_handle (the file)) w of
                  (Inl e, w) \<Rightarrow> (Inl (windows_error e), w)
                | (Inr z, w) \<Rightarrow> if z < 0 then (Inl EOVERFLOW, w) else (Inr (of_int z), w)))"

definition win_file_truncate :: "win_file option \<Rightarrow> u64 \<Rightarrow> win \<Rightarrow> error option \<times> win" where
  "win_file_truncate file new_size w =
     (case win_check_file file of
        Some e \<Rightarrow> (Some e, w)
      | None \<Rightarrow>
          if new_size > INT64_MAX then (Some EOVERFLOW, w)
          else (case win_file_size file (Some ()) w of
                  (Inl e, w) \<Rightarrow> (Some e, w)
                | (Inr old_size, w) \<Rightarrow>
                    if old_size < new_size
                    then (case win_file_write file (new_size - 1) (Some [0]) 1 (Some ()) w of
                            ((e, _), w) \<Rightarrow> (e, w))
                    else (case win_seek_file (the file) new_size w of
                            (Some e, w) \<Rightarrow> (Some e, w)
                          | (None, w) \<Rightarrow>
                              (case win_SetEndOfFile (f_handle (the file)) w of
                                 (Inl e, w) \<Rightarrow> (Some (windows_error e), w)
                               | (Inr _, w) \<Rightarrow> (None, w)))))"

definition win_file_sync :: "win_file option \<Rightarrow> win \<Rightarrow> error option \<times> win" where
  "win_file_sync file w =
     (case win_check_file file of
        Some e \<Rightarrow> (Some e, w)
      | None \<Rightarrow>
          (case win_FlushFileBuffers (f_handle (the file)) w of
             (Inl e, w) \<Rightarrow> (Some (windows_error e), w)
           | (Inr _, w) \<Rightarrow> (None, w)))"

definition win_file_close :: "win_file option \<Rightarrow> win \<Rightarrow> (error option \<times> win_file option) \<times> win" where
  "win_file_close file w =
     (case win_check_file file of
        Some e \<Rightarrow> ((Some e, file), w)
      | None \<Rightarrow>
          (case win_CloseHandle (f_handle (the file)) w of
             (Inl e, w) \<Rightarrow> ((Some (windows_error e), Some \<lparr>f_handle = NULL_HANDLE\<rparr>), w)
           | (Inr _, w) \<Rightarrow> ((None, Some \<lparr>f_handle = NULL_HANDLE\<rparr>), w)))"

definition win_file_identity :: "win \<Rightarrow> (error + bytes) \<times> win" where
  "win_file_identity w = (Inl ENOTSUP, w)"

definition win_file_provision :: "win_file option \<Rightarrow> string option \<Rightarrow> win \<Rightarrow> error option \<times> win" where
  "win_file_provision file path w = (Some ENOTSUP, w)"

section \<open>What the calls keep\<close>

definition win_node_of :: "win \<Rightarrow> win_file \<Rightarrow> nat option" where
  "win_node_of w f = (case f_handle f of Handle h \<Rightarrow> map_option fst (w_handles w h) | _ \<Rightarrow> None)"

text \<open>\<open>win_changed i g w w'\<close>: node \<open>i\<close> was changed by \<open>g\<close>; besides only file pointers and the script differ.\<close>

definition win_changed :: "nat \<Rightarrow> (win_node \<Rightarrow> win_node) \<Rightarrow> win \<Rightarrow> win \<Rightarrow> bool" where
  "win_changed i g w w' \<longleftrightarrow>
     (\<forall>h. map_option fst (w_handles w' h) = map_option fst (w_handles w h)) \<and> w_names w' = w_names w \<and>
     w_locks w' = w_locks w \<and> w_nodes w' = (w_nodes w)(i := g (w_nodes w i))"

abbreviation win_same :: "win \<Rightarrow> win \<Rightarrow> bool" where
  "win_same \<equiv> win_changed 0 (\<lambda>x. x)"

lemma win_changed_id: "win_same w w' \<Longrightarrow> g (w_nodes w i) = w_nodes w i \<Longrightarrow> win_changed i g w w'"
  by (simp add: win_changed_def)

lemma win_changed_trans: "win_changed i f a b \<Longrightarrow> win_changed i g b c \<Longrightarrow> win_changed i (g \<circ> f) a c"
  by (simp add: win_changed_def)

lemma win_same_trans: "win_same a b \<Longrightarrow> win_same b c \<Longrightarrow> win_same a c"
  by (simp add: win_changed_def)

lemma win_same_changed: "win_same a b \<Longrightarrow> win_changed i f b c \<Longrightarrow> win_changed i f a c"
  by (simp add: win_changed_def)

lemma win_pop_fields:
  assumes "win_pop w = (oc, u)"
  shows "w_handles u = w_handles w" "w_nodes u = w_nodes w" "w_names u = w_names w" "w_locks u = w_locks w"
    "w_gap u = w_gap w" "win_lookup x u = win_lookup x w" "locked_out h i u = locked_out h i w"
  using assms
  by (auto simp: win_pop_def win_lookup_def locked_out_def split: list.splits win_handle.splits)

lemma on_handle_open:
  assumes "w_handles w h = Some (i, p)" "on_handle (Handle h) act w = (r, w')"
  obtains oc u where "win_pop w = (oc, u)" "act h i p oc u = (r, w')" "w_handles u = w_handles w"
    "w_nodes u = w_nodes w" "w_names u = w_names w" "w_locks u = w_locks w" "w_gap u = w_gap w"
proof -
  obtain oc u where pop: "win_pop w = (oc, u)" by force
  note u = win_pop_fields [OF pop]
  have "act h i p oc u = (r, w')"
    using assms pop u(1) by (simp add: on_handle_def win_lookup_def)
  then show ?thesis using that [OF pop _ u(1-5)] by blast
qed

lemma win_sameI:
  "w_handles u = w_handles w \<Longrightarrow> w_nodes u = w_nodes w \<Longrightarrow> w_names u = w_names w \<Longrightarrow> w_locks u = w_locks w \<Longrightarrow>
    win_same w u"
  by (simp add: win_changed_def)

lemma win_modify_changed: "win_same w u \<Longrightarrow> win_changed i g w (win_modify i g u)"
  by (simp add: win_changed_def win_modify_def)

lemma SetFilePointer_effect:
  assumes "win_SetFilePointer (Handle h) pos w = (r, w')" "w_handles w h = Some (i, p)"
  shows "win_same w w' \<and> (r = Inr () \<longrightarrow> w_handles w' h = Some (i, pos))"
  using assms(1) unfolding win_SetFilePointer_def
  by (rule on_handle_open [OF assms(2)])
    (use assms(2) in \<open>auto simp: win_changed_def win_move_def split: win_outcome.splits\<close>)

lemma ReadFile_effect:
  assumes "win_ReadFile (Handle h) count w = (r, w')" "w_handles w h = Some (i, p)"
  shows "win_same w w' \<and> (r = Inl ERROR_HANDLE_EOF \<longrightarrow> length (n_data (w_nodes w i)) \<le> p) \<and>
    (\<forall>bs. r = Inr bs \<longrightarrow> w_handles w' h = Some (i, p + length bs) \<and>
      (\<exists>n \<le> count. bs = block p n (n_data (w_nodes w i)) \<and> (n = 0 \<longrightarrow> count = 0)))"
proof (rule on_handle_open [OF assms(2) assms(1) [unfolded win_ReadFile_def]])
  let ?D = "n_data (w_nodes w i)"
  fix oc u
  define got :: "nat \<Rightarrow> (win_error + bytes) \<times> win"
    where "got n = (Inr (block p n ?D), win_move h i (p + length (block p n ?D)) u)" for n
  assume act: "(let got = (\<lambda>n. let bs = block p n (n_data (w_nodes u i)) in (Inr bs, win_move h i (p + length bs) u))
       in if locked_out h i u then (Inl ERROR_LOCK_VIOLATION, u)
          else (case oc of
                  WFail e \<Rightarrow> if e = ERROR_HANDLE_EOF \<and> p < length (n_data (w_nodes u i)) then got count else (Inl e, u)
                | WFailAfter e \<Rightarrow> if e = ERROR_HANDLE_EOF \<and> p < length (n_data (w_nodes u i)) then got count else (Inl e, u)
                | WShort n \<Rightarrow> got (min count (max 1 n))
                | WDone \<Rightarrow> got count)) = (r, w')"
    and u: "w_handles u = w_handles w" "w_nodes u = w_nodes w" "w_names u = w_names w" "w_locks u = w_locks w"
  have got: "win_same w w' \<and> (r = Inl ERROR_HANDLE_EOF \<longrightarrow> length ?D \<le> p) \<and>
      (\<forall>bs. r = Inr bs \<longrightarrow> w_handles w' h = Some (i, p + length bs) \<and> (\<exists>n \<le> count. bs = block p n ?D \<and> (n = 0 \<longrightarrow> count = 0)))"
    if "(r, w') = got n" "n \<le> count" "n = 0 \<longrightarrow> count = 0" for n
    using that u assms(2) by (auto simp: got_def win_changed_def win_move_def)
  have failed: "win_same w u" using u by (simp add: win_changed_def)
  have "(\<exists>n \<le> count. (r, w') = got n \<and> (n = 0 \<longrightarrow> count = 0)) \<or>
      (\<exists>e. r = Inl e \<and> w' = u \<and> (e = ERROR_HANDLE_EOF \<longrightarrow> length ?D \<le> p))"
  proof (cases oc)
    case (WShort n)
    then show ?thesis
      using act by (auto simp: got_def u(2) Let_def split: if_splits intro!: exI [of _ "min count (max 1 n)"])
  qed (use act in \<open>auto simp: got_def u(2) Let_def not_less split: if_splits intro!: exI [of _ count]\<close>)
  then show ?thesis using got failed by auto
qed

lemma WriteFile_effect:
  assumes "win_WriteFile (Handle h) bs w = (r, w')" "w_handles w h = Some (i, p)"
  shows "\<exists>n \<le> length bs. win_changed i (\<lambda>x. x\<lparr>n_data := overwrite p (take n bs) (n_data x)\<rparr>) w w' \<and>
    (\<forall>k. r = Inr k \<longrightarrow> k = n \<and> w_handles w' h = Some (i, p + n))"
proof (rule on_handle_open [OF assms(2) assms(1) [unfolded win_WriteFile_def]])
  fix oc u
  assume act: "(let wrote = (\<lambda>n. win_move h i (p + n) (win_modify i (\<lambda>x. x\<lparr>n_data := overwrite p (take n bs) (n_data x)\<rparr>) u))
       in if locked_out h i u then (Inl ERROR_LOCK_VIOLATION, u)
          else (case oc of
                  WFail e \<Rightarrow> (Inl e, u)
                | WFailAfter e \<Rightarrow> (Inl e, wrote (length bs))
                | WShort n \<Rightarrow> (Inr (min n (length bs)), wrote (min n (length bs)))
                | WDone \<Rightarrow> (Inr (length bs), wrote (length bs)))) = (r, w')"
    and u: "w_handles u = w_handles w" "w_nodes u = w_nodes w" "w_names u = w_names w" "w_locks u = w_locks w"
  define wrote where "wrote n = win_move h i (p + n) (win_modify i (\<lambda>x. x\<lparr>n_data := overwrite p (take n bs) (n_data x)\<rparr>) u)" for n
  have "win_changed i (\<lambda>x. x\<lparr>n_data := overwrite p (take n bs) (n_data x)\<rparr>) w (wrote n)" for n
    using u assms(2) by (simp add: win_changed_def wrote_def win_move_def win_modify_def)
  moreover have "win_changed i (\<lambda>x. x\<lparr>n_data := overwrite p (take 0 bs) (n_data x)\<rparr>) w u"
    using u by (simp add: win_changed_def)
  moreover have "w_handles (wrote n) h = Some (i, p + n)" for n by (simp add: wrote_def win_move_def)
  ultimately show ?thesis
    using act unfolding wrote_def [symmetric] Let_def
    by (cases oc) (auto split: if_splits intro: exI [of _ 0] exI [of _ "length bs"] exI [of _ "min n (length bs)" for n])
qed

lemma GetFileSize_effect:
  assumes "win_GetFileSize (Handle h) w = (r, w')" "w_handles w h = Some (i, p)"
  shows "win_same w w' \<and> w_handles w' = w_handles w \<and> 
    (\<forall>z. r = Inr z \<longrightarrow> z = int (length (n_data (w_nodes w i))) \<and> length (n_data (w_nodes w i)) < 2 ^ 63)"
  using assms(1) unfolding win_GetFileSize_def
  by (rule on_handle_open [OF assms(2)]) (use assms(2) in \<open>auto simp: win_changed_def split: win_outcome.splits if_splits\<close>)

lemma win_changed_cong:
  "win_changed i f w w' \<Longrightarrow> f (w_nodes w i) = g (w_nodes w i) \<Longrightarrow> win_changed i g w w'"
  by (simp add: win_changed_def)

lemma SetEndOfFile_effect:
  assumes "win_SetEndOfFile (Handle h) w = (r, w')" "w_handles w h = Some (i, p)" "p \<le> length (n_data (w_nodes w i))"
  shows "win_changed i (\<lambda>x. x\<lparr>n_data := resize p (n_data x)\<rparr>) w w' \<or> win_same w w' \<and> r \<noteq> Inr ()"
proof -
  obtain oc u where act: "(let cut = win_modify i (\<lambda>x. x\<lparr>n_data := take p (n_data x @ replicate (p - length (n_data x)) (w_gap u))\<rparr>) u
       in case oc of WFail e \<Rightarrow> (Inl e, u) | WFailAfter e \<Rightarrow> (Inl e, cut) | _ \<Rightarrow> (Inr (), cut)) = (r, w')"
    and same: "win_same w u"
    using assms(1) [unfolded win_SetEndOfFile_def] by (rule on_handle_open [OF assms(2)]) (blast intro: win_sameI)
  have "win_changed i (\<lambda>x. x\<lparr>n_data := resize p (n_data x)\<rparr>) w
      (win_modify i (\<lambda>x. x\<lparr>n_data := take p (n_data x @ replicate (p - length (n_data x)) (w_gap u))\<rparr>) u)"
    by (rule win_changed_cong [OF win_modify_changed [OF same]]) (use assms(3) in \<open>simp add: resize_def\<close>)
  then show ?thesis using act same by (cases oc) auto
qed

lemma FlushFileBuffers_effect:
  assumes "win_FlushFileBuffers (Handle h) w = (r, w')" "w_handles w h = Some (i, p)"
  shows "win_changed i (\<lambda>x. x\<lparr>n_synced := n_data x\<rparr>) w w' \<or> win_same w w' \<and> r \<noteq> Inr ()"
proof -
  obtain oc u where act: "(let flushed = win_modify i (\<lambda>x. x\<lparr>n_synced := n_data x\<rparr>) u
       in case oc of WFail e \<Rightarrow> (Inl e, u) | WFailAfter e \<Rightarrow> (Inl e, flushed) | _ \<Rightarrow> (Inr (), flushed)) = (r, w')"
    and same: "win_same w u"
    using assms(1) [unfolded win_FlushFileBuffers_def] by (rule on_handle_open [OF assms(2)]) (blast intro: win_sameI)
  show ?thesis using act same win_modify_changed [OF same, of i "\<lambda>x. x\<lparr>n_synced := n_data x\<rparr>"] by (cases oc) auto
qed

section \<open>The transfers\<close>

lemma win_read_loop_effect:
  assumes "win_read_loop (Handle h) len acc w = ((err, bs), w')" "w_handles w h = Some (i, off + length acc)"
    and "length acc \<le> len" "acc = block off (length acc) (n_data (w_nodes w i))"
  shows "win_same w w' \<and> (err = None \<longrightarrow> bs = block off len (n_data (w_nodes w i)))"
  using assms
proof (induction "Handle h" len acc w rule: win_read_loop.induct)
  case (1 len acc w)
  let ?c = "min (len - length acc) TRANSFER_LIMIT" and ?D = "n_data (w_nodes w i)"
  show ?case
  proof (cases "length acc < len")
    case False
    then show ?thesis using "1.prems" by (subst (asm) win_read_loop.simps) (auto simp: win_changed_def)
  next
    case True
    obtain r u where call: "win_ReadFile (Handle h) ?c w = (r, u)" by force
    note eff = ReadFile_effect [OF call "1.prems"(2)]
    have eof: "block off len ?D = acc" if "length ?D \<le> off + length acc"
      using that "1.prems"(3,4) by (simp add: block_def)
    show ?thesis
    proof (cases r)
      case (Inl e)
      then show ?thesis
        using "1.prems"(1) True call eff eof by (subst (asm) win_read_loop.simps) (auto split: if_splits)
    next
      case (Inr got)
      with eff True obtain n where n: "win_same w u" "w_handles u h = Some (i, off + length acc + length got)"
        "got = block (off + length acc) n ?D" "n \<le> ?c" "n \<noteq> 0" by auto
      show ?thesis
      proof (cases "got = []")
        case empty: True
        then have "length ?D \<le> off + length acc" using n by (simp add: block_eq_Nil)
        from eof [OF this] show ?thesis
          using "1.prems"(1) True call Inr empty n(1) by (subst (asm) win_read_loop.simps) auto
      next
        case False
        have r: "win_read_loop (Handle h) len (acc @ got) u = ((err, bs), w')"
          using "1.prems"(1) True call Inr False by (subst (asm) win_read_loop.simps) simp
        have nodes: "w_nodes u = w_nodes w" using n(1) by (simp add: win_changed_def)
        have "length got \<le> n" using n(3) by (simp add: length_block)
        moreover have "length acc + n \<le> len" using n(4) True by linarith
        ultimately have "length (acc @ got) \<le> len" unfolding length_append by linarith
        moreover have "acc @ got = block off (length (acc @ got)) (n_data (w_nodes u i))"
        proof -
          have "got = block (off + length acc) (length got) ?D" using n(3) by (simp add: block_def min_def)
          then show ?thesis unfolding nodes length_append using "1.prems"(4) by (subst block_split) metis
        qed
        moreover have "w_handles u h = Some (i, off + length (acc @ got))" using n(2) by (simp add: add.assoc)
        ultimately have "win_same u w' \<and> (err = None \<longrightarrow> bs = block off len (n_data (w_nodes u i)))"
          by (intro "1.hyps" [OF True refl call [symmetric] Inr False r])
        then show ?thesis using win_same_trans [OF n(1)] nodes by simp
      qed
    qed
  qed
qed

lemma win_write_loop_effect:
  assumes "win_write_loop (Handle h) bs sofar w = ((err, count), w')" "w_handles w h = Some (i, off + sofar)"
    and "sofar \<le> length bs"
  shows "\<exists>n. sofar \<le> n \<and> n \<le> length bs \<and>
    win_changed i (\<lambda>x. x\<lparr>n_data := overwrite (off + sofar) (drop sofar (take n bs)) (n_data x)\<rparr>) w w' \<and>
    (err = None \<longrightarrow> n = length bs \<and> count = length bs)"
  using assms
proof (induction "Handle h" bs sofar w rule: win_write_loop.induct)
  case (1 bs sofar w)
  let ?c = "min (length bs - sofar) TRANSFER_LIMIT"
  show ?case
  proof (cases "sofar < length bs")
    case False
    then have "err = None \<and> count = length bs \<and> sofar = length bs \<and> w' = w"
      using "1.prems"(1,3) by (subst (asm) win_write_loop.simps) auto
    then show ?thesis by (intro exI [of _ "length bs"]) (simp add: win_changed_def)
  next
    case True
    obtain r u where call: "win_WriteFile (Handle h) (block sofar ?c bs) w = (r, u)" by force
    from WriteFile_effect [OF call "1.prems"(2)] obtain n where n: "n \<le> length (block sofar ?c bs)"
      "win_changed i (\<lambda>x. x\<lparr>n_data := overwrite (off + sofar) (take n (block sofar ?c bs)) (n_data x)\<rparr>) w u"
      "\<And>k. r = Inr k \<Longrightarrow> k = n \<and> w_handles u h = Some (i, off + sofar + n)" by blast
    have nb: "sofar + n \<le> length bs" "n \<le> ?c" using n(1) True by (auto simp: length_block)
    have chunk: "take n (block sofar ?c bs) = drop sofar (take (sofar + n) bs)"
      using nb by (simp add: block_def drop_take min_def)
    note ch = n(2) [unfolded chunk]
    show ?thesis
    proof (cases "\<exists>k. r = Inr k \<and> n \<noteq> 0")
      case False
      then have none: "(\<exists>e. r = Inl e) \<or> r = Inr 0" using n(3) by (cases r) auto
      have "err \<noteq> None \<and> w' = u"
        using "1.prems"(1) True call none by (subst (asm) win_write_loop.simps) auto
      then show ?thesis using ch nb by (intro exI [of _ "sofar + n"]) auto
    next
      case more: True
      then obtain l where l: "r = Inr l" "n \<noteq> 0" by blast
      with n(3) [OF l(1)] have k: "r = Inr n" "n \<noteq> 0" "w_handles u h = Some (i, off + (sofar + n))"
        by (simp_all add: add.assoc)
      have "win_write_loop (Handle h) bs (sofar + n) u = ((err, count), w')"
        using "1.prems"(1) True call k by (subst (asm) win_write_loop.simps) simp
      note ih = "1.hyps" [OF True refl call [symmetric] k(1,2) this k(3) nb(1)]
      then obtain m where "sofar + n \<le> m \<and> m \<le> length bs \<and>
        win_changed i (\<lambda>x. x\<lparr>n_data := overwrite (off + (sofar + n)) (drop (sofar + n) (take m bs)) (n_data x)\<rparr>) u w' \<and>
        (err = None \<longrightarrow> m = length bs \<and> count = length bs)" by (rule exE) (rule that)
      then have m: "sofar + n \<le> m" "m \<le> length bs" "err = None \<longrightarrow> m = length bs \<and> count = length bs"
        and chm: "win_changed i (\<lambda>x. x\<lparr>n_data := overwrite (off + (sofar + n)) (drop (sofar + n) (take m bs)) (n_data x)\<rparr>) u w'"
        by simp_all
      have "drop sofar (take (sofar + n) bs) @ drop (sofar + n) (take m bs) = drop sofar (take m bs)"
        using m(1) by (rule drop_chunks)
      then have "win_changed i (\<lambda>x. x\<lparr>n_data := overwrite (off + sofar) (drop sofar (take m bs)) (n_data x)\<rparr>) w w'"
        using win_changed_trans [OF ch chm]
          overwrite_adjacent [of "off + sofar" "drop sofar (take (sofar + n) bs)" "drop (sofar + n) (take m bs)"] nb
        by (simp add: comp_def add.assoc)
      then show ?thesis using m by (intro exI [of _ m]) auto
    qed
  qed
qed

section \<open>The Windows backend meets the contract\<close>

definition win_data :: "win \<Rightarrow> win_file \<Rightarrow> bytes" where
  "win_data w f = (case win_node_of w f of None \<Rightarrow> [] | Some i \<Rightarrow> n_data (w_nodes w i))"

definition win_synced :: "win \<Rightarrow> win_file \<Rightarrow> bytes" where
  "win_synced w f = (case win_node_of w f of None \<Rightarrow> [] | Some i \<Rightarrow> n_synced (w_nodes w i))"

definition win_opened :: "win \<Rightarrow> win_file \<Rightarrow> bool" where
  "win_opened w f \<longleftrightarrow> win_node_of w f \<noteq> None"

definition win_alias :: "win \<Rightarrow> win_file \<Rightarrow> win_file \<Rightarrow> bool" where
  "win_alias w f g \<longleftrightarrow> win_node_of w f = win_node_of w g"

definition win_read :: "win_file \<Rightarrow> u64 \<Rightarrow> nat \<Rightarrow> win \<Rightarrow> (error option \<times> bytes) \<times> win" where
  "win_read f off n w = win_file_read (Some f) off (Some ()) n (Some ()) w"

definition win_write :: "win_file \<Rightarrow> u64 \<Rightarrow> bytes \<Rightarrow> win \<Rightarrow> (error option \<times> nat) \<times> win" where
  "win_write f off bs w = win_file_write (Some f) off (Some bs) (length bs) (Some ()) w"

lemma win_openedE:
  assumes "win_opened w f"
  obtains h i p where "f_handle f = Handle h" "w_handles w h = Some (i, p)" "win_node_of w f = Some i"
    "win_check_file (Some f) = None"
  using assms
  by (auto simp: win_opened_def win_node_of_def win_check_file_def split: win_handle.splits)

lemma win_changed_node: "win_changed i g w w' \<Longrightarrow> win_node_of w' f = win_node_of w f"
  by (simp add: win_changed_def win_node_of_def split: win_handle.split)

lemma win_changed_views:
  assumes "win_changed i g w w'" "win_node_of w f = Some i"
  shows "win_opened w' = win_opened w" "win_alias w' = win_alias w"
    "win_data w' f = n_data (g (w_nodes w i))" "win_synced w' f = n_synced (g (w_nodes w i))"
    "(\<And>x. n_synced (g x) = n_synced x) \<Longrightarrow> win_synced w' = win_synced w"
    "(\<And>x. n_data (g x) = n_data x) \<Longrightarrow> win_data w' = win_data w"
    "\<not> win_alias w f k \<Longrightarrow> win_data w' k = win_data w k"
    "\<not> win_alias w f k \<Longrightarrow> win_synced w' k = win_synced w k"
proof -
  note n = win_changed_node [OF assms(1)]
  have nodes: "w_nodes w' = (w_nodes w)(i := g (w_nodes w i))" using assms(1) by (simp add: win_changed_def)
  show "win_opened w' = win_opened w" "win_alias w' = win_alias w"
    by (simp_all add: fun_eq_iff win_opened_def win_alias_def n)
  show "win_data w' f = n_data (g (w_nodes w i))" "win_synced w' f = n_synced (g (w_nodes w i))"
    by (simp_all add: win_data_def win_synced_def n nodes assms(2))
  show "(\<And>x. n_synced (g x) = n_synced x) \<Longrightarrow> win_synced w' = win_synced w"
    "(\<And>x. n_data (g x) = n_data x) \<Longrightarrow> win_data w' = win_data w"
    by (simp_all add: fun_eq_iff win_data_def win_synced_def n nodes split: option.split)
  show "\<not> win_alias w f k \<Longrightarrow> win_data w' k = win_data w k" "\<not> win_alias w f k \<Longrightarrow> win_synced w' k = win_synced w k"
    using assms(2) by (auto simp: win_data_def win_synced_def win_alias_def n nodes split: option.split)
qed

lemma win_same_views:
  assumes "win_same w w'"
  shows "win_opened w' = win_opened w" "win_alias w' = win_alias w" "win_data w' = win_data w" "win_synced w' = win_synced w"
proof -
  note n = win_changed_node [OF assms]
  have nodes: "w_nodes w' = w_nodes w" using assms by (simp add: win_changed_def)
  show "win_opened w' = win_opened w" "win_alias w' = win_alias w" "win_data w' = win_data w" "win_synced w' = win_synced w"
    by (simp_all add: fun_eq_iff win_opened_def win_alias_def win_data_def win_synced_def n nodes split: option.split)
qed

lemma win_check_transfer_ok:
  assumes "win_check_file (Some f) = None"
  shows "win_check_transfer (Some f) offset (Some b) len (Some ()) =
     (if in_off_t offset len then None else Some EOVERFLOW)"
proof (cases "offset > INT64_MAX")
  case True
  then show ?thesis using assms by (simp add: win_check_transfer_def in_off_t_def word_less_nat_alt)
next
  case False
  then have "unat (INT64_MAX - offset) = 0x7FFFFFFFFFFFFFFF - unat offset" by (simp add: u64_arith not_less)
  then show ?thesis using assms False by (auto simp: win_check_transfer_def in_off_t_def word_less_nat_alt)
qed

lemma win_seek_effect:
  assumes "win_seek_file f off w = (e, w')" "f_handle f = Handle h" "w_handles w h = Some (i, p)"
  shows "win_same w w' \<and> (e = None \<longrightarrow> w_handles w' h = Some (i, unat off))"
proof -
  obtain r u where "win_SetFilePointer (Handle h) (unat off) w = (r, u)" by force
  with SetFilePointer_effect [OF this assms(3)] assms(1,2) show ?thesis
    by (auto simp: win_seek_file_def split: sum.splits)
qed

lemma win_read_views:
  assumes "win_read f off n w = ((e, bs), w')" "win_opened w f"
  shows "win_same w w' \<and> (e = None \<longrightarrow> bs = block (unat off) n (win_data w f))"
proof (rule win_openedE [OF assms(2)])
  fix h i p assume h: "f_handle f = Handle h" "w_handles w h = Some (i, p)" "win_node_of w f = Some i"
    "win_check_file (Some f) = None"
  have d: "win_data w f = n_data (w_nodes w i)" using h(3) by (simp add: win_data_def)
  have refl: "win_same w w" by (simp add: win_changed_def)
  note def = assms(1) [unfolded win_read_def win_file_read_def win_check_transfer_ok [OF h(4)]]
  show ?thesis
  proof (cases "in_off_t off n \<and> n \<noteq> 0")
    case False
    then show ?thesis using def refl by (auto simp: block_def split: if_splits)
  next
    case True
    obtain r u where s: "win_seek_file f off w = (r, u)" by force
    note eff = win_seek_effect [OF s h(1,2)]
    show ?thesis
    proof (cases r)
      case (Some x)
      then show ?thesis using def True s eff by auto
    next
      case None
      then have "win_read_loop (Handle h) n [] u = ((e, bs), w')" "w_handles u h = Some (i, unat off + length [])"
        using def True s eff h(1) by auto
      from win_read_loop_effect [OF this] eff d show ?thesis
        using win_same_trans [of w u w'] by (auto simp: block_def win_changed_def)
    qed
  qed
qed

lemma win_write_effect:
  assumes "win_write f off bs w = ((e, k), w')" "win_opened w f" "win_node_of w f = Some i"
  shows "\<exists>n \<le> length bs. win_changed i (\<lambda>x. x\<lparr>n_data := overwrite (unat off) (take n bs) (n_data x)\<rparr>) w w' \<and>
    (e = None \<longrightarrow> n = length bs \<and> k = length bs)"
proof (rule win_openedE [OF assms(2)])
  fix h j p assume h: "f_handle f = Handle h" "w_handles w h = Some (j, p)" "win_node_of w f = Some j"
    "win_check_file (Some f) = None"
  then have j: "j = i" using assms(3) by simp
  have none: "win_changed i (\<lambda>x. x\<lparr>n_data := overwrite (unat off) (take 0 bs) (n_data x)\<rparr>) w u" if "win_same w u" for u
    by (rule win_changed_id [OF that]) simp
  have refl: "win_same w w" by (simp add: win_changed_def)
  note def = assms(1) [unfolded win_write_def win_file_write_def win_check_transfer_ok [OF h(4)]]
  show ?thesis
  proof (cases "in_off_t off (length bs) \<and> length bs \<noteq> 0")
    case False
    then show ?thesis using def none [OF refl] by (intro exI [of _ 0]) (auto split: if_splits)
  next
    case True
    obtain r u where s: "win_seek_file f off w = (r, u)" by force
    note eff = win_seek_effect [OF s h(1,2)]
    show ?thesis
    proof (cases r)
      case (Some x)
      then show ?thesis using def True s eff none [of u] by (intro exI [of _ 0]) auto
    next
      case None
      then have "win_write_loop (Handle h) bs 0 u = ((e, k), w')" "w_handles u h = Some (i, unat off + 0)"
        using def True s eff h(1) j by auto
      from win_write_loop_effect [OF this] eff show ?thesis
        using win_same_changed [of w u] by auto
    qed
  qed
qed

lemma win_sync_effect:
  assumes "win_file_sync (Some f) w = (e, w')" "win_opened w f" "win_node_of w f = Some i"
  shows "win_changed i (\<lambda>x. x\<lparr>n_synced := n_data x\<rparr>) w w' \<or> win_same w w' \<and> e \<noteq> None"
proof (rule win_openedE [OF assms(2)])
  fix h j p assume h: "f_handle f = Handle h" "w_handles w h = Some (j, p)" "win_node_of w f = Some j"
    "win_check_file (Some f) = None"
  obtain r u where "win_FlushFileBuffers (Handle h) w = (r, u)" by force
  with FlushFileBuffers_effect [OF this h(2)] assms(1,3) h show ?thesis
    by (auto simp: win_file_sync_def split: sum.splits)
qed

lemma win_size_effect:
  assumes "win_file_size (Some f) (Some ()) w = (r, w')" "win_opened w f"
  shows "win_same w w' \<and> (\<forall>z. r = Inr z \<longrightarrow> unat z = length (win_data w f))"
proof (rule win_openedE [OF assms(2)])
  fix h i p assume h: "f_handle f = Handle h" "w_handles w h = Some (i, p)" "win_node_of w f = Some i"
    "win_check_file (Some f) = None"
  obtain s u where c: "win_GetFileSize (Handle h) w = (s, u)" by force
  note eff = GetFileSize_effect [OF c h(2)]
  have "win_data w f = n_data (w_nodes w i)" using h(3) by (simp add: win_data_def)
  then show ?thesis using c eff assms(1) h by (cases s) (auto simp: win_file_size_def u64_of_nat)
qed

lemma overwrite_last_zero: "length p < n \<Longrightarrow> overwrite (n - 1) [0] p = resize n p"
  by (cases n) (simp_all add: overwrite_def resize_def replicate_append_same [symmetric] Suc_diff_le)

lemma win_truncate_effect:
  assumes "win_file_truncate (Some f) n w = (e, w')" "win_opened w f" "win_node_of w f = Some i"
  shows "win_changed i (\<lambda>x. x\<lparr>n_data := resize (unat n) (n_data x)\<rparr>) w w' \<or> win_same w w' \<and> e \<noteq> None"
proof (rule win_openedE [OF assms(2)])
  fix h j p assume h: "f_handle f = Handle h" "w_handles w h = Some (j, p)" "win_node_of w f = Some j"
    "win_check_file (Some f) = None"
  then have j: "j = i" using assms(3) by simp
  have d: "win_data w f = n_data (w_nodes w i)" using h(3) j by (simp add: win_data_def)
  note def = assms(1) [unfolded win_file_truncate_def h(4) option.case]
  obtain r u where s: "win_file_size (Some f) (Some ()) w = (r, u)" by force
  note same = win_size_effect [OF s assms(2)]
  have refl: "win_same w w" by (simp add: win_changed_def)
  have u: "win_opened u f" "win_node_of u f = Some i" "w_nodes u = w_nodes w"
    "\<exists>p. w_handles u h = Some (i, p)"
    using same win_same_views(1) [of w u] win_changed_node [of 0 _ w u f] assms(2,3) h j
    by (auto simp: win_changed_def win_node_of_def dest: spec [of _ h])
  show ?thesis
  proof (cases "n > INT64_MAX \<or> (\<exists>x. r = Inl x)")
    case True
    then show ?thesis using def s same refl by (auto split: if_splits)
  next
    case False
    then obtain z where z: "r = Inr z" "\<not> n > INT64_MAX" by (cases r) auto
    have zn: "unat z = length (win_data w f)" using same z(1) by simp
    show ?thesis
    proof (cases "z < n")
      case True
      obtain k where wr: "win_write f (n - 1) [0] u = ((e, k), w')"
        using def s z True by (auto simp: win_write_def split: prod.splits)
      have n1: "unat (n - 1) = unat n - 1" using True by (simp add: word_less_nat_alt u64_sub)
      from win_write_effect [OF wr u(1,2)] obtain m where m: "m \<le> 1" "e = None \<longrightarrow> m = 1"
        "win_changed i (\<lambda>x. x\<lparr>n_data := overwrite (unat (n - 1)) (take m [0]) (n_data x)\<rparr>) u w'" by auto
      show ?thesis
      proof (cases "m = 0")
        case True
        then have "win_same u w'" using m(3) by (simp add: win_changed_def)
        then show ?thesis using True m(2) win_same_trans [of w u w'] same by auto
      next
        case False
        then have "m = 1" using m(1) by simp
        moreover have "overwrite (unat n - 1) [0] (n_data (w_nodes w i)) = resize (unat n) (n_data (w_nodes w i))"
          using True zn d by (intro overwrite_last_zero) (simp add: word_less_nat_alt)
        ultimately have "win_changed i (\<lambda>x. x\<lparr>n_data := resize (unat n) (n_data x)\<rparr>) u w'"
          using win_changed_cong [OF m(3), of "\<lambda>x. x\<lparr>n_data := resize (unat n) (n_data x)\<rparr>"] by (simp add: n1 u(3))
        then show ?thesis using win_same_changed same by blast
      qed
    next
      case shrink: False
      obtain x v where sk: "win_seek_file f n u = (x, v)" by force
      from u(4) obtain q where q: "w_handles u h = Some (i, q)" by blast
      note sv = win_seek_effect [OF sk h(1) q]
      note wv = win_same_trans [OF conjunct1 [OF same] conjunct1 [OF sv]]
      show ?thesis
      proof (cases x)
        case (Some y)
        then show ?thesis using def s z shrink sk wv by auto
      next
        case None
        obtain y v' where en: "win_SetEndOfFile (Handle h) v = (y, v')" by force
        have "unat n \<le> length (n_data (w_nodes v i))"
          using shrink zn d wv by (simp add: word_less_nat_alt win_changed_def)
        with None sv have "win_changed i (\<lambda>x. x\<lparr>n_data := resize (unat n) (n_data x)\<rparr>) v v' \<or> win_same v v' \<and> y \<noteq> Inr ()"
          using SetEndOfFile_effect [OF en] by blast
        moreover have "w' = v'" "y \<noteq> Inr () \<longrightarrow> e \<noteq> None"
          using def s z shrink sk None en h(1) by (auto split: sum.splits)
        ultimately show ?thesis using win_same_changed [OF wv] win_same_trans [OF wv] by blast
      qed
    qed
  qed
qed

interpretation windows: file_backend win_data win_synced win_opened win_alias win_read win_write
  "\<lambda>f. win_file_truncate (Some f)" "\<lambda>f. win_file_sync (Some f)"
proof (unfold_locales, goal_cases)
  case (1 w f) then show ?case by (simp add: win_alias_def)
next
  case (2 w f off n r w')
  then show ?case by (cases r) (metis win_read_views win_same_views)
next
  case (3 w f off n bs w') then show ?case using win_read_views by blast
next
  case (4 w f off bs s w')
  obtain i where i: "win_node_of w f = Some i" using 4(1) by (auto simp: win_opened_def)
  obtain e k where s: "s = (e, k)" by force
  from win_write_effect [OF 4(2) [unfolded s] 4(1) i] obtain n where
    "win_changed i (\<lambda>x. x\<lparr>n_data := overwrite (unat off) (take n bs) (n_data x)\<rparr>) w w'" by blast
  note v = win_changed_views [OF this i]
  show ?case using v(1,2,5,7) by simp
next
  case (5 w f off bs s w')
  obtain i where i: "win_node_of w f = Some i" using 5(1) by (auto simp: win_opened_def)
  obtain e k where s: "s = (e, k)" by force
  from win_write_effect [OF 5(2) [unfolded s] 5(1) i] obtain n where
    n: "n \<le> length bs" "win_changed i (\<lambda>x. x\<lparr>n_data := overwrite (unat off) (take n bs) (n_data x)\<rparr>) w w'" by blast
  from win_changed_views(3) [OF n(2) i] n(1) i show ?case by (intro exI [of _ n]) (simp add: win_data_def)
next
  case (6 w f off bs k w')
  obtain i where i: "win_node_of w f = Some i" using 6(1) by (auto simp: win_opened_def)
  from win_write_effect [OF 6(2,1) i] have k: "k = length bs"
    "win_changed i (\<lambda>x. x\<lparr>n_data := overwrite (unat off) (take (length bs) bs) (n_data x)\<rparr>) w w'" by blast+
  from win_changed_views(3) [OF k(2) i] k(1) i show ?case by (simp add: win_data_def)
next
  case (7 w f n r w')
  obtain i where i: "win_node_of w f = Some i" using 7(1) by (auto simp: win_opened_def)
  show ?case
    using win_truncate_effect [OF 7(2,1) i]
  proof
    assume "win_changed i (\<lambda>x. x\<lparr>n_data := resize (unat n) (n_data x)\<rparr>) w w'"
    note v = win_changed_views(1,2,5,7) [OF this i]
    show ?case using v by (simp add: win_data_def)
  next
    assume "win_same w w' \<and> r \<noteq> None"
    then show ?case using win_same_views [of w w'] by simp
  qed
next
  case (8 w f n r w')
  obtain i where i: "win_node_of w f = Some i" using 8(1) by (auto simp: win_opened_def)
  show ?case
    using win_truncate_effect [OF 8(2,1) i]
  proof
    assume "win_changed i (\<lambda>x. x\<lparr>n_data := resize (unat n) (n_data x)\<rparr>) w w'"
    note v = win_changed_views(3) [OF this i]
    show ?case using v i by (simp add: win_data_def)
  next
    assume "win_same w w' \<and> r \<noteq> None"
    then show ?case using win_same_views [of w w'] by simp
  qed
next
  case (9 w f n w')
  obtain i where i: "win_node_of w f = Some i" using 9(1) by (auto simp: win_opened_def)
  show ?case
    using win_truncate_effect [OF 9(2,1) i] win_changed_views(3) [OF _ i] i by (auto simp: win_data_def)
next
  case (10 w f r w')
  obtain i where i: "win_node_of w f = Some i" using 10(1) by (auto simp: win_opened_def)
  show ?case
    using win_sync_effect [OF 10(2,1) i]
  proof
    assume "win_changed i (\<lambda>x. x\<lparr>n_synced := n_data x\<rparr>) w w'"
    note v = win_changed_views(1,2,6,8) [OF this i]
    show ?case using v by (simp add: win_data_def)
  next
    assume "win_same w w' \<and> r \<noteq> None"
    then show ?case using win_same_views [of w w'] by simp
  qed
next
  case (11 w f r w')
  obtain i where i: "win_node_of w f = Some i" using 11(1) by (auto simp: win_opened_def)
  show ?case
    using win_sync_effect [OF 11(2,1) i]
  proof
    assume "win_changed i (\<lambda>x. x\<lparr>n_synced := n_data x\<rparr>) w w'"
    note v = win_changed_views(4) [OF this i]
    show ?case using v i by (simp add: win_data_def)
  next
    assume "win_same w w' \<and> r \<noteq> None"
    then show ?case using win_same_views [of w w'] by simp
  qed
next
  case (12 w f w')
  obtain i where i: "win_node_of w f = Some i" using 12(1) by (auto simp: win_opened_def)
  show ?case
    using win_sync_effect [OF 12(2,1) i] win_changed_views(4) [OF _ i] i by (auto simp: win_data_def)
qed

section \<open>Locks and the life of a handle\<close>

lemma on_handle_locked:
  assumes "locked_out h i w" "win_lookup (Handle h) w = Some (h, i, p)"
  shows "\<exists>u. win_ReadFile (Handle h) n w = (Inl ERROR_LOCK_VIOLATION, u) \<and> win_same w u"
    "\<exists>u. win_WriteFile (Handle h) bs w = (Inl ERROR_LOCK_VIOLATION, u) \<and> win_same w u"
proof -
  obtain oc u where pop: "win_pop w = (oc, u)" by force
  note f = win_pop_fields [OF pop]
  have "win_same w u" using f by (intro win_sameI)
  then show "\<exists>u. win_ReadFile (Handle h) n w = (Inl ERROR_LOCK_VIOLATION, u) \<and> win_same w u"
    "\<exists>u. win_WriteFile (Handle h) bs w = (Inl ERROR_LOCK_VIOLATION, u) \<and> win_same w u"
    using assms pop f by (simp_all add: win_ReadFile_def win_WriteFile_def on_handle_def)
qed

lemma win_seek_keeps:
  assumes "win_seek_file f off w = (e, u)" "f_handle f = Handle h" "w_handles w h = Some (i, p)"
  shows "win_same w u" "\<exists>q. win_lookup (Handle h) u = Some (h, i, q)" "locked_out h i u = locked_out h i w"
proof -
  show s: "win_same w u" using win_seek_effect [OF assms] by simp
  have "map_option fst (w_handles u h) = Some i" using s assms(3) by (simp add: win_changed_def)
  then show "\<exists>q. win_lookup (Handle h) u = Some (h, i, q)" by (auto simp: win_lookup_def)
  show "locked_out h i u = locked_out h i w" using s by (simp add: locked_out_def win_changed_def)
qed

lemma win_read_locked:
  assumes "f_handle f = Handle h" "w_handles w h = Some (i, p)" "locked_out h i w" "n \<noteq> 0"
  shows "fst (fst (win_read f off n w)) \<noteq> None \<and> snd (fst (win_read f off n w)) = []"
proof -
  have c: "win_check_file (Some f) = None" using assms(1) by (simp add: win_check_file_def)
  obtain e u where s: "win_seek_file f off w = (e, u)" by force
  note k = win_seek_keeps [OF s assms(1,2)]
  obtain q where "win_lookup (Handle h) u = Some (h, i, q)" using k(2) by blast
  with k(3) assms(3) obtain v where "win_ReadFile (Handle h) (min n TRANSFER_LIMIT) u = (Inl ERROR_LOCK_VIOLATION, v)"
    using on_handle_locked(1) by blast
  then show ?thesis
    using s assms(1,4)
    by (cases e) (simp_all add: win_read_def win_file_read_def win_check_transfer_ok [OF c] win_read_loop.simps)
qed

lemma win_write_locked:
  assumes "f_handle f = Handle h" "w_handles w h = Some (i, p)" "locked_out h i w" "bs \<noteq> []"
    and "win_write f off bs w = (r, w')"
  shows "fst r \<noteq> None \<and> win_same w w'"
proof -
  have c: "win_check_file (Some f) = None" using assms(1) by (simp add: win_check_file_def)
  have refl: "win_same w w" by (simp add: win_changed_def)
  obtain e u where s: "win_seek_file f off w = (e, u)" by force
  note k = win_seek_keeps [OF s assms(1,2)]
  obtain q where "win_lookup (Handle h) u = Some (h, i, q)" using k(2) by blast
  with k(3) assms(3) obtain v where v: "win_WriteFile (Handle h) (block 0 (min (length bs) TRANSFER_LIMIT) bs) u =
      (Inl ERROR_LOCK_VIOLATION, v)" "win_same u v"
    using on_handle_locked(2) by blast
  from win_same_trans [OF k(1) v(2)] have "win_same w v" .
  then show ?thesis
    using s v(1) assms(1,4,5) k(1) refl
    by (cases e)
      (auto simp: win_write_def win_file_write_def win_check_transfer_ok [OF c] win_write_loop.simps split: if_splits)
qed

text \<open>Growing a file is a write of its new last byte.\<close>

lemma win_grow_locked:
  assumes "f_handle f = Handle h" "w_handles w h = Some (i, p)" "locked_out h i w"
    and "length (win_data w f) < unat n" "win_file_truncate (Some f) n w = (e, w')"
  shows "e \<noteq> None \<and> win_same w w'"
proof -
  have c: "win_check_file (Some f) = None" using assms(1) by (simp add: win_check_file_def)
  have o: "win_opened w f" using assms(1,2) by (simp add: win_opened_def win_node_of_def)
  obtain r u where s: "win_file_size (Some f) (Some ()) w = (r, u)" by force
  note same = win_size_effect [OF s o]
  note def = assms(5) [unfolded win_file_truncate_def c option.case]
  have refl: "win_same w w" by (simp add: win_changed_def)
  show ?thesis
  proof (cases "n > INT64_MAX \<or> (\<exists>x. r = Inl x)")
    case True
    then show ?thesis using def s same refl by (auto split: if_splits)
  next
    case False
    then obtain z where z: "r = Inr z" "\<not> n > INT64_MAX" by (cases r) auto
    have "unat z = length (win_data w f)" using same z(1) by simp
    then have "z < n" using assms(4) by (simp add: word_less_nat_alt)
    then obtain k where wr: "win_write f (n - 1) [0] u = ((e, k), w')"
      using def s z by (auto simp: win_write_def split: prod.splits)
    have "map_option fst (w_handles u h) = Some i" using same assms(2) by (simp add: win_changed_def)
    then obtain q where q: "w_handles u h = Some (i, q)" by auto
    have "locked_out h i u" using same assms(3) by (simp add: locked_out_def win_changed_def)
    from win_write_locked [OF assms(1) q this _ wr] same show ?thesis using win_same_trans by auto
  qed
qed

text \<open>Steps that only use up the script.\<close>

definition win_idle :: "win \<Rightarrow> win \<Rightarrow> bool" where
  "win_idle w u \<longleftrightarrow> u = w\<lparr>w_script := w_script u\<rparr> \<and> (w_script w = [] \<longrightarrow> w_script u = [])"

lemma win_idle_refl [simp]: "win_idle w w"
  by (simp add: win_idle_def)

lemma win_idle_trans: "win_idle a b \<Longrightarrow> win_idle b c \<Longrightarrow> win_idle a c"
  by (cases a; cases b; cases c) (simp add: win_idle_def)

lemma win_idle_fields:
  assumes "win_idle w u"
  shows "w_handles u = w_handles w" "w_nodes u = w_nodes w" "w_names u = w_names w" "w_locks u = w_locks w"
    "w_next_handle u = w_next_handle w" "w_script w = [] \<Longrightarrow> w_script u = []"
  using assms by (cases w; cases u; simp add: win_idle_def)+

lemma win_pop_idle: "win_pop w = (oc, u) \<Longrightarrow> win_idle w u"
  by (auto simp: win_pop_def win_idle_def split: list.splits)

lemma validate_idle:
  assumes "win_validate_handle handle w = (r, u)"
  shows "win_idle w u"
proof -
  have q: "win_idle w u" if "on_handle handle act w = (s, u)" "\<And>h i p oc v r x. act h i p oc v = (r, x) \<Longrightarrow> x = v"
    for act :: "nat \<Rightarrow> nat \<Rightarrow> nat \<Rightarrow> win_outcome \<Rightarrow> win \<Rightarrow> (win_error + 'a) \<times> win" and s w u
    using that(1) by (auto simp: on_handle_def dest!: that(2) dest: win_pop_idle split: prod.splits option.splits)
  obtain d v where t: "win_GetFileType handle w = (d, v)" by (meson surj_pair)
  then have "win_idle w v"
    unfolding win_GetFileType_def
    by (auto split: prod.splits sum.splits win_outcome.splits elim!: q)
  moreover have "win_idle v u" if "win_GetFileInformation handle v = (s, u)" for s u
    using that unfolding win_GetFileInformation_def by (rule q) (auto split: win_outcome.splits)
  ultimately show ?thesis
    using assms t by (auto simp: win_validate_handle_def split: prod.splits sum.splits if_splits intro: win_idle_trans)
qed

lemma open_existing_cases:
  assumes "win_CreateFile path False w = (r, u)"
  shows "(\<exists>e. r = Inl e \<and> win_idle w u) \<or>
    (\<exists>j. r = Inr (Handle (w_next_handle w)) \<and> w_handles u = (w_handles w)(w_next_handle w \<mapsto> (j, 0)) \<and>
      w_nodes u = w_nodes w \<and> w_names u = w_names w \<and> w_locks u = w_locks w \<and>
      (w_script w = [] \<longrightarrow> w_script u = []))"
proof -
  obtain oc x where pop: "win_pop w = (oc, x)" by force
  note i = win_pop_idle [OF pop] and x = win_idle_fields [OF win_pop_idle [OF pop]]
  show ?thesis using assms pop i x by (cases oc) (auto simp: win_CreateFile_def Let_def split: option.splits)
qed

lemma close_fresh:
  assumes "snd (win_CloseHandle (Handle h) v) = w'" "w_handles v = (w_handles w)(h \<mapsto> (j, 0))" "w_locks v = w_locks w"
    and "w_handles w h = None" "\<And>i. w_locks w i \<noteq> Some h"
  shows "w_nodes w' = w_nodes v \<and> w_names w' = w_names v \<and> w_locks w' = w_locks w \<and>
    (\<forall>k. k \<noteq> h \<longrightarrow> w_handles w' k = w_handles w k) \<and> (w_script v = [] \<longrightarrow> w_handles w' = w_handles w)"
proof -
  obtain r u where c: "win_CloseHandle (Handle h) v = (r, u)" by force
  have vh: "w_handles v h = Some (j, 0)" using assms(2) by simp
  obtain oc x where pop: "win_pop v = (oc, x)" by force
  note x = win_idle_fields [OF win_pop_idle [OF pop]]
  have quiet: "w_script v = [] \<Longrightarrow> oc = WDone" using pop by (simp add: win_pop_def)
  have undone: "(w_handles w)(h := None) = w_handles w" using assms(4) by (auto simp: fun_eq_iff)
  show ?thesis
    using assms(1) c pop vh x quiet assms(2,3,5) undone
    by (cases oc) (auto simp: win_CloseHandle_def on_handle_def win_lookup_def Let_def)
qed

section \<open>A sample\<close>

definition sample_win :: "(nat \<Rightarrow> nat option) \<Rightarrow> bytes \<Rightarrow> win" where
  "sample_win locks data =
     \<lparr>w_names = [''db'' \<mapsto> 0], w_nodes = (\<lambda>_. \<lparr>n_data = data, n_synced = data, n_disk = True, n_directory = False\<rparr>),
      w_handles = [5 \<mapsto> (0, 0), 6 \<mapsto> (0, 0)], w_locks = locks, w_gap = 0xAA, w_next_node = 1, w_next_handle = 7,
      w_script = []\<rparr>"

lemma sample_win_opened [simp]: "win_opened (sample_win locks data) \<lparr>f_handle = Handle 5\<rparr>"
  and sample_win_data [simp]: "win_data (sample_win locks data) \<lparr>f_handle = Handle 5\<rparr> = data"
  by (simp_all add: win_opened_def win_data_def win_node_of_def sample_win_def)

definition sample_posix :: "bytes \<Rightarrow> os" where
  "sample_posix data =
     \<lparr>entries = (\<lambda>_. None), synced_entries = (\<lambda>_. None), directories = (\<lambda>p. p = ''.''),
      inodes = (\<lambda>_. \<lparr>i_data = data, i_synced = data, i_regular = True, i_fs = 0xef53\<rparr>),
      fds = [4 \<mapsto> 1], lock_owner = (\<lambda>_. None), entropy = replicate 16 7, default_fs = 0xef53,
      fresh_inode = 2, fresh_fd = 5, script = []\<rparr>"

section \<open>Properties\<close>

text \<open>
  C29. The two file layers are interchangeable.  On files with the same bytes, a read, a write or a
  truncation that succeeds on both reads the same bytes and leaves files with the same bytes, however
  each operating system splits the transfers, and whatever \<open>SetEndOfFile\<close> would leave in a gap.
\<close>

theorem backends_agree:
  assumes "is_opened w f" "win_opened v g" "fdata w f = win_data v g"
  shows "(posix_read f off n w = ((None, bs), w') \<longrightarrow> win_read g off n v = ((None, bs'), v') \<longrightarrow> bs = bs') \<and>
    (posix_write f off data w = ((None, k), w') \<longrightarrow> win_write g off data v = ((None, k'), v') \<longrightarrow>
       k = k' \<and> fdata w' f = win_data v' g) \<and>
    (timelite_file_truncate (Some f) sz w = (None, w') \<longrightarrow> win_file_truncate (Some g) sz v = (None, v') \<longrightarrow>
       fdata w' f = win_data v' g)"
  using posix.rd_ok [OF assms(1)] windows.rd_ok [OF assms(2)] posix.wr_ok [OF assms(1)] windows.wr_ok [OF assms(2)]
    posix.tr_ok [OF assms(1)] windows.tr_ok [OF assms(2)] assms(3)
  by (intro conjI impI) (blast | simp)+

text \<open>
  C30. A Windows lock keeps the transfers of other handles out.  While a handle owns the lock of a file,
  whatever the outcome of the calls, no other handle can lock it (without faults the result is \<open>EBUSY\<close>),
  read a byte of it, write a byte to it or extend it: each of these reports an error, and the files keep
  their bytes.  Cutting a file with \<open>SetEndOfFile\<close> is not among these operations: the lock is advisory.
\<close>

theorem windows_lock_excludes:
  assumes "f_handle f = Handle h" "w_handles w h = Some (i, p)" "w_locks w i = Some owner" "owner \<noteq> h"
  shows "fst (win_file_lock (Some f) w) \<noteq> None \<and>
    (w_script w = [] \<longrightarrow> win_file_lock (Some f) w = (Some EBUSY, w)) \<and>
    (n \<noteq> 0 \<longrightarrow> fst (fst (win_read f off n w)) \<noteq> None \<and> snd (fst (win_read f off n w)) = []) \<and>
    (bs \<noteq> [] \<longrightarrow> fst (fst (win_write f off bs w)) \<noteq> None \<and>
       win_data (snd (win_write f off bs w)) = win_data w) \<and>
    (length (win_data w f) < unat sz \<longrightarrow> fst (win_file_truncate (Some f) sz w) \<noteq> None \<and>
       win_data (snd (win_file_truncate (Some f) sz w)) = win_data w)"
proof -
  have l: "locked_out h i w" using assms(3,4) by (simp add: locked_out_def)
  obtain oc u where pop: "win_pop w = (oc, u)" by force
  note u = win_pop_fields [OF pop]
  have "fst (win_file_lock (Some f) w) \<noteq> None"
    using assms pop u
    by (cases oc) (auto simp: win_file_lock_def win_check_file_def win_LockFile_def on_handle_def win_lookup_def)
  moreover have "w_script w = [] \<longrightarrow> win_file_lock (Some f) w = (Some EBUSY, w)"
    using assms by (simp add: win_file_lock_def win_check_file_def win_LockFile_def on_handle_def win_lookup_def win_pop_def)
  moreover have "bs \<noteq> [] \<longrightarrow> fst (fst (win_write f off bs w)) \<noteq> None \<and>
       win_data (snd (win_write f off bs w)) = win_data w"
    using win_write_locked [OF assms(1,2) l, of bs off] win_same_views(3)
    by (cases "win_write f off bs w") auto
  moreover have "length (win_data w f) < unat sz \<longrightarrow> fst (win_file_truncate (Some f) sz w) \<noteq> None \<and>
       win_data (snd (win_file_truncate (Some f) sz w)) = win_data w"
    using win_grow_locked [OF assms(1,2) l, of sz] win_same_views(3)
    by (cases "win_file_truncate (Some f) sz w") auto
  ultimately show ?thesis using win_read_locked [OF assms(1,2) l] by blast
qed

theorem windows_lock_excludes_witness:
  "win_file_lock (Some \<lparr>f_handle = Handle 6\<rparr>) (sample_win [0 \<mapsto> 5] [1, 2]) =
     (Some EBUSY, sample_win [0 \<mapsto> 5] [1, 2]) \<and>
   fst (fst (win_read \<lparr>f_handle = Handle 6\<rparr> 0 2 (sample_win [0 \<mapsto> 5] [1, 2]))) \<noteq> None \<and>
   win_data (snd (win_write \<lparr>f_handle = Handle 6\<rparr> 0 [9] (sample_win [0 \<mapsto> 5] [1, 2]))) \<lparr>f_handle = Handle 6\<rparr> = [1, 2] \<and>
   fst (win_file_truncate (Some \<lparr>f_handle = Handle 6\<rparr>) 3 (sample_win [0 \<mapsto> 5] [1, 2])) \<noteq> None"
proof -
  let ?w = "sample_win [0 \<mapsto> 5] [1, 2]" and ?f = "\<lparr>f_handle = Handle 6\<rparr>"
  have "win_data ?w ?f = [1, 2]" by (simp add: win_data_def win_node_of_def sample_win_def)
  then show ?thesis
    using windows_lock_excludes [of ?f 6 ?w 0 0 5 2 0 "[9]" 3] by (simp add: sample_win_def)
qed

text \<open>
  C31. A failed open of the Windows layer changes no file, name, lock or other handle, whatever the
  outcome of its calls, and without faults it does not keep the handle it had created.
\<close>

theorem windows_open_no_leak:
  assumes "win_file_open file path w = (Inl e, w')" "w_handles w (w_next_handle w) = None"
    and "\<And>i. w_locks w i \<noteq> Some (w_next_handle w)"
  shows "w_nodes w' = w_nodes w \<and> w_names w' = w_names w \<and> w_locks w' = w_locks w \<and>
    (\<forall>h. h \<noteq> w_next_handle w \<longrightarrow> w_handles w' h = w_handles w h) \<and>
    (w_script w = [] \<longrightarrow> w_handles w' = w_handles w)"
proof -
  show ?thesis
  proof (cases "\<exists>f p x. file = Some f \<and> path = Some p \<and> p \<noteq> [] \<and> f_handle f = NULL_HANDLE \<and> length p < MAX_PATH \<and>
      win_MultiByteToWideChar p w = (Inr p, x)")
    case False
    then have "win_idle w w'"
      using assms(1)
      by (auto simp: win_file_open_def win_open_file_def win_MultiByteToWideChar_def win_query_def min_def Let_def
          dest: win_pop_idle split: option.splits prod.splits sum.splits if_splits win_outcome.splits)
    from win_idle_fields(1-4) [OF this] show ?thesis by simp
  next
    case True
    then obtain f p x where f: "file = Some f" "path = Some p" "p \<noteq> []" "f_handle f = NULL_HANDLE" "length p < MAX_PATH"
      and x: "win_MultiByteToWideChar p w = (Inr p, x)" by blast
    then have i: "win_idle w x"
      by (auto simp: win_MultiByteToWideChar_def win_query_def dest: win_pop_idle split: prod.splits win_outcome.splits)
    note i = win_idle_fields [OF i]
    obtain r u where c: "win_CreateFile p False x = (r, u)" by force
    have def: "win_file_open file path w = (case r of Inl e \<Rightarrow> (Inl (windows_error e), u)
        | Inr handle \<Rightarrow> (case win_validate_handle handle u of
              (Some e, w) \<Rightarrow> (Inl e, snd (win_CloseHandle handle w)) | (None, w) \<Rightarrow> (Inr \<lparr>f_handle = handle\<rparr>, w)))"
      using f x c by (simp add: win_file_open_def win_open_file_def min_def)
    from open_existing_cases [OF c] show ?thesis
    proof (elim disjE exE conjE)
      fix e' assume "r = Inl e'" "win_idle x u"
      with def assms(1) show ?thesis using i win_idle_fields(1-4) [of x u] by simp
    next
      let ?h = "w_next_handle w"
      fix j assume u: "r = Inr (Handle (w_next_handle x))" "w_handles u = (w_handles x)(w_next_handle x \<mapsto> (j, 0))"
        "w_nodes u = w_nodes x" "w_names u = w_names x" "w_locks u = w_locks x" "w_script x = [] \<longrightarrow> w_script u = []"
      obtain y v where v: "win_validate_handle (Handle ?h) u = (y, v)" by force
      note iv = win_idle_fields [OF validate_idle [OF v]]
      have "snd (win_CloseHandle (Handle ?h) v) = w'" using def assms(1) u(1) v i by (cases y) auto
      from close_fresh [OF this, of w j] show ?thesis using u i iv assms(2,3) by simp
    qed
  qed
qed

text \<open>A device under the name: the handle \<open>CreateFileW\<close> made fails the validation and is closed.\<close>

theorem windows_open_no_leak_witness:
  "\<exists>w'. win_file_open (Some WIN_FILE_INIT) (Some ''db'')
      ((sample_win (\<lambda>_. None) [])\<lparr>w_nodes := (\<lambda>_. \<lparr>n_data = [], n_synced = [], n_disk = False, n_directory = False\<rparr>)\<rparr>) =
        (Inl EINVAL, w') \<and>
     w_next_handle w' = 8 \<and> w_handles w' = w_handles (sample_win (\<lambda>_. None) [])"
proof -
  let ?w = "(sample_win (\<lambda>_. None) [])\<lparr>w_nodes := (\<lambda>_. \<lparr>n_data = [], n_synced = [], n_disk = False, n_directory = False\<rparr>)\<rparr>"
  obtain r w' where o: "win_file_open (Some WIN_FILE_INIT) (Some ''db'') ?w = (r, w')" by force
  then have r: "r = Inl EINVAL" "w_next_handle w' = 8"
    by (auto simp: win_file_open_def win_open_file_def WIN_FILE_INIT_def win_MultiByteToWideChar_def win_query_def
        win_CreateFile_def win_validate_handle_def win_GetFileType_def win_CloseHandle_def win_lookup_def on_handle_def
        win_pop_def sample_win_def Let_def)
  then show ?thesis using o windows_open_no_leak [of "Some WIN_FILE_INIT" "Some ''db''" ?w EINVAL w']
    by (simp add: sample_win_def)
qed

theorem backends_agree_witness:
  "\<exists>w' v'. posix_write \<lparr>fd = 4\<rparr> 1 [9] (sample_posix [1, 2]) = ((None, 1), w') \<and>
     win_write \<lparr>f_handle = Handle 5\<rparr> 1 [9] (sample_win (\<lambda>_. None) [1, 2]) = ((None, 1), v') \<and>
     fdata w' \<lparr>fd = 4\<rparr> = win_data v' \<lparr>f_handle = Handle 5\<rparr>"
proof -
  let ?w = "sample_posix [1, 2]" and ?v = "sample_win (\<lambda>_. None) [1, 2]"
  have a: "is_opened ?w \<lparr>fd = 4\<rparr>" "fdata ?w \<lparr>fd = 4\<rparr> = win_data ?v \<lparr>f_handle = Handle 5\<rparr>"
    by (simp_all add: sample_posix_def is_opened_def fdata_def)
  obtain w' where w: "posix_write \<lparr>fd = 4\<rparr> 1 [9] ?w = ((None, 1), w')"
    using posix_live.wr_live [of ?w "\<lparr>fd = 4\<rparr>" 1 "[9]"] a(1) posix.wr_ok [OF a(1)]
    by (fastforce simp: in_off_t_def sample_posix_def)
  obtain e k v' where v: "win_write \<lparr>f_handle = Handle 5\<rparr> 1 [9] ?v = ((e, k), v')" by (metis surj_pair)
  have "e = None"
    using v by (simp add: win_write_def win_file_write_def win_check_transfer_def win_check_file_def win_seek_file_def
        win_SetFilePointer_def on_handle_def win_pop_def win_lookup_def sample_win_def win_move_def win_write_loop.simps
        win_WriteFile_def locked_out_def Let_def word_less_nat_alt block_def)
  then have "k = 1" using windows.wr_ok [OF sample_win_opened] v by fastforce
  then show ?thesis using w v \<open>e = None\<close> backends_agree [OF a(1) sample_win_opened a(2)] by blast
qed

end
