(* ===== verification/TL_PowerLoss.thy ===== *)
theory TL_PowerLoss
  imports TL_Append
begin

text \<open>
  Recovery of the WAL after an append that a power loss interrupted: the storage holds the old bytes and
  an arbitrary mixture of old and new bytes behind them, of which only the order of the two syncs is
  known.
\<close>

section \<open>What recovery finds\<close>

text \<open>\<open>recovered\<close>: the recovery scan finds exactly the batches \<open>bs\<close>, and the end of their frames.\<close>

definition recovered :: "timelite_file \<Rightarrow> u64 \<Rightarrow> timelite_record list list \<Rightarrow> os \<Rightarrow> bool" where
  "recovered wal installed bs w \<longleftrightarrow>
     recover_wal wal (of_nat (length (fdata w wal))) installed w =
       (Inr (of_nat (32 + length (encode_frames (installed + 1) bs)), installed + of_nat (length bs),
             fold_frames wal_scan 32 (installed + 1) bs wal_empty, False), w)"

lemma recovered_whole:
  assumes "script w = []" "is_opened w f" "unat installed + length bs + 1 < 2 ^ 64"
    and "list_all valid_batch bs" "length header = 32"
    and "fdata w f = header @ encode_frames (installed + 1) bs" "length (fdata w f) < 2 ^ 32"
  shows "recovered f installed bs w"
  using recover_wal_torn [OF assms(1-4) sample_record_valid(1), of 0 header "of_nat (length (fdata w f))"] assms(5-7)
  by (simp add: recovered_def torn_wal_def)

lemma recovered_torn:
  assumes "script w = []" "is_opened w f" "unat installed + length bs + 1 < 2 ^ 64"
    and "list_all valid_batch bs" "valid_batch rs" "length header = 32" "k < 64 + length rs * 20"
    and "fdata w f = header @ encode_frames (installed + 1) bs @
      take k (encode_frame (installed + 1 + of_nat (length bs)) rs)" "length (fdata w f) < 2 ^ 32"
  shows "if 0 < k \<and> k < 32
    then recover_wal f (of_nat (length (fdata w f))) installed w = (Inl INVALID_DATABASE, w)
    else recovered f installed bs w"
proof -
  have "fdata w f = torn_wal header installed bs rs k" using assms(8) by (simp add: torn_wal_def)
  from recover_wal_torn [OF assms(1-5,7,6) this assms(9) refl] show ?thesis by (auto simp only: recovered_def split: if_splits)
qed

section \<open>A frame of which any bytes may be missing\<close>

text \<open>Each byte of \<open>tail\<close> is the byte of the frame or still zero.\<close>

definition patchy :: "bytes \<Rightarrow> bytes \<Rightarrow> bool" where
  "patchy frame tail \<longleftrightarrow>
     length tail \<le> length frame \<and> (\<forall>i \<in> set [0..<length tail]. tail ! i = 0 \<or> tail ! i = frame ! i)"

text \<open>A header that passes its check in spite of missing bytes announces the length of the frame.\<close>

lemma patchy_header_length:
  assumes "patchy (encode_frame s rs) tail" "32 \<le> length tail" "valid_batch rs" "check_frame_header (take 32 tail)"
  shows "unat (decode32 (drop 20 (take 32 tail))) = 32 + length rs * 20"
proof -
  let ?h = "take 32 tail" and ?f = "encode_frame s rs" and ?c = "of_nat (length rs) :: u32"
  have c: "length rs \<le> TIMELITE_MAX_RECORDS" using assms(3) by (simp add: valid_batch_def)
  have bit32: "bit (decode32 p) k \<longleftrightarrow> k < 32 \<and> bit (p ! (k div 8)) (k mod 8)" for p k
    by (auto simp: decode32_def bit_foldl_bytes)
  have frame: "decode32 (drop 16 ?f) = ?c"
    by (simp only: encode_frame_def frame_body_def append_assoc frame_header_fields)
  have byte: "drop 16 ?h ! j = 0 \<or> drop 16 ?h ! j = drop 16 ?f ! j" if "j < 4" for j
    using assms(1,2) that by (auto simp: patchy_def)
  have "take_bit 8 ?c = ?c"
    using c by (simp only: word_unat_eq_iff unsigned_take_bit_eq frame_counts(1)) (simp add: take_bit_nat_eq_self)
  then have high: "\<not> bit ?c k" if "8 \<le> k" for k by (metis bit_take_bit_iff not_le that)
  have "decode32 (drop 16 ?h) = ?c"
  proof (cases "drop 16 ?h ! 0 = 0")
    case True
    have "\<not> bit (decode32 (drop 16 ?h)) k" for k
    proof (cases "k < 8")
      case False
      then show ?thesis using byte [of "k div 8"] high [of k] bit32 [of "drop 16 ?f" k] bit32 [of "drop 16 ?h" k]
        unfolding frame by (auto simp: less_mult_imp_div_less)
    qed (use True in \<open>simp add: bit32\<close>)
    then have "decode32 (drop 16 ?h) = 0" by (simp add: bit_eq_iff)
    then show ?thesis using assms(4) by (simp add: check_frame_header_def)
  next
    case False
    show ?thesis
    proof (rule bit_word_eqI)
      fix k assume "k < LENGTH(32)"
      then have k: "k < 32" "k div 8 < 4" by auto
      show "bit (decode32 (drop 16 ?h)) k = bit ?c k"
      proof (cases "k < 8")
        case True
        then show ?thesis using k byte [of 0] False bit32 [of "drop 16 ?f" k] bit32 [of "drop 16 ?h" k]
          unfolding frame by simp
      next
        case no: False
        then show ?thesis using k byte [of "k div 8"] high [of k] bit32 [of "drop 16 ?f" k] bit32 [of "drop 16 ?h" k]
          unfolding frame by auto
      qed
    qed
  qed
  then have "decode32 (drop 20 ?h) = of_nat (32 + length rs * 20)"
    using assms(4) by (simp add: check_frame_header_def Let_def)
  then show ?thesis using frame_counts(2) [OF c] by (simp del: of_nat_add of_nat_mult)
qed

text \<open>A commit record that passes the check after a complete body is the one that was written.\<close>

lemma check_commit_unique:
  assumes "check_commit (frame_body s rs @ c) s (of_nat (length rs)) (of_nat (32 + length rs * 20))"
    and "length c = 32" "length rs \<le> TIMELITE_MAX_RECORDS"
  shows "c = frame_commit s (length rs) (frame_body s rs)"
proof -
  let ?b = "frame_body s rs" and ?n = "32 + length rs * 20"
  have n: "unat (of_nat ?n :: u32) = ?n" using frame_counts(2) [OF assms(3)] .
  have f: "take 8 c = ascii ''TLCOMMIT''" "decode64 (drop 8 c) = s" "decode32 (drop 16 c) = of_nat (length rs)"
    "decode32 (drop 20 c) = of_nat ?n" "decode32 (drop 24 c) = checksum ?b ?n" "decode32 (drop 28 c) = checksum c 28"
    using assms(1) unfolding check_commit_def n Let_def by (simp_all add: has_magic_def checksum_append)
  have "block 8 8 c = encode64 s"
    using encode64_decode64 [of "block 8 8 c"] f(2) assms(2) by (simp add: length_block u64_codec.dec_block)
  moreover have "block 16 4 c = encode32 (of_nat (length rs))" "block 20 4 c = encode32 (of_nat ?n)"
    "block 24 4 c = encode32 (checksum ?b ?n)" "block 28 4 c = encode32 (checksum c 28)"
    using encode32_decode32 [of "block 16 4 c"] encode32_decode32 [of "block 20 4 c"]
      encode32_decode32 [of "block 24 4 c"] encode32_decode32 [of "block 28 4 c"] f assms(2)
    by (simp_all add: length_block u32_codec.dec_block del: of_nat_add of_nat_mult)
  moreover have split: "c = take 28 c @ block 28 4 c"
    "take 28 c = take 8 c @ block 8 8 c @ block 16 4 c @ block 20 4 c @ block 24 4 c"
    using assms(2) block_split [of 0 8 20 c] block_split [of 8 8 12 c] block_split [of 16 4 8 c] block_split [of 20 4 4 c]
      block_split [of 0 28 4 c]
    by (simp_all add: block_def)
  ultimately have t: "take 28 c = ascii ''TLCOMMIT'' @ encode64 s @ encode32 (of_nat (length rs)) @ encode32 (of_nat ?n) @
      encode32 (checksum ?b ?n)" and e: "c = take 28 c @ encode32 (checksum c 28)"
    using f(1) by simp_all
  have "checksum c 28 = checksum (take 28 c) 28" by (simp add: checksum_take)
  then have "c = take 28 c @ encode32 (checksum (take 28 c) 28)" using e by simp
  then show ?thesis unfolding t frame_commit_def Let_def .
qed

lemma read_frame_patchy:
  assumes "script w = []" "is_opened w f" "valid_batch rs" "unat end = length (fdata w f)" "unat end < 2 ^ 32"
    and "drop (unat off) (fdata w f) = tail" "patchy (encode_frame s rs) tail"
    and "32 \<le> length tail" "length tail < 64 + length rs * 20"
  shows "read_frame f off end seq w =
    (Inl (if check_frame_header (take 32 tail) \<and> decode64 (drop 8 (take 32 tail)) = seq then END
          else INVALID_DATABASE), w)"
proof -
  let ?h = "take 32 tail"
  have len: "unat off + length tail = unat end"
    using arg_cong [OF assms(6), of length] assms(4,8) by auto
  then have gap: "unat (end - off) = length tail" by (simp add: u64_arith)
  have "read_exact f off 32 w = (Inr (block (unat off) 32 (fdata w f)), w)"
    using len assms(4,5,8) by (intro read_exact_quiet [OF assms(1,2)]) (simp_all add: in_off_t_def)
  then have r: "read_exact f off 32 w = (Inr ?h, w)" by (simp add: block_def assms(6))
  have "\<not> end - off < 32" using gap assms(8) by (simp add: word_less_nat_alt)
  moreover have "of_nat (unat (decode32 (drop 20 ?h)) + 32) > end - off" if "check_frame_header ?h"
    using patchy_header_length [OF assms(7,8,3) that] gap assms(3,9)
    by (simp add: word_less_nat_alt u64_of_nat valid_batch_def del: of_nat_add of_nat_mult)
  ultimately show ?thesis
    using r by (auto simp: read_frame_def io_bind_def Let_def)
qed

section \<open>Recovery\<close>

lemma recover_wal_scan:
  assumes "script w = []" "is_opened w f" "unat installed + length bs + 1 < 2 ^ 64"
    and "list_all valid_batch bs" "length header = 32"
    and data: "fdata w f = header @ encode_frames (installed + 1) bs @ tail"
    and size: "length (fdata w f) < 2 ^ 32" and n: "n = of_nat (length (fdata w f))"
    and start: "bs = [] \<Longrightarrow> wal_start f n installed w = (Inr (False, installed), w)"
  shows "recover_wal f n installed w =
    (case scan_frames wal_frame True f n (of_nat (32 + length (encode_frames (installed + 1) bs)))
            (installed + 1 + of_nat (length bs)) (fold_frames wal_scan 32 (installed + 1) bs wal_empty) w of
       (Inl e, w') \<Rightarrow> (Inl e, w')
     | (Inr (offset, next_seq, s), w') \<Rightarrow> (Inr (offset, next_seq - 1, s, False), w'))"
proof -
  let ?run = "encode_frames (installed + 1) bs"
  have un: "unat n = length (fdata w f)" unfolding n using size by (intro u64_of_nat) simp
  have run: "block 32 (length ?run) (fdata w f) = ?run" using data assms(5) by (simp add: block_def)
  have "wal_start f n installed w = (Inr (False, installed), w)"
  proof (cases bs)
    case (Cons b bs')
    have "valid_batch b" "block 32 32 (fdata w f) = frame_header (installed + 1) (length b)"
      using assms(4) run Cons block_prefix [OF run, of 32] by (simp_all add: take_32_encode_frame)
    moreover have "64 \<le> length (fdata w f)" using data assms(5) Cons by simp
    ultimately show ?thesis using assms(3) n size by (intro wal_start_current [OF assms(1,2)]) auto
  qed (use start in simp)
  moreover have "scan_frames wal_frame True f n 32 (installed + 1) wal_empty w =
      scan_frames wal_frame True f n (of_nat (32 + length ?run)) (installed + 1 + of_nat (length bs))
        (fold_frames wal_scan 32 (installed + 1) bs wal_empty) w"
    using run un size data assms(5)
    by (subst scan_frames_run [where step = wal_frame and g = wal_scan, OF assms(1,2) wal_frame_scan _ assms(4)]) simp_all
  ultimately show ?thesis
    by (auto simp: recover_wal_def io_bind_def simp del: of_nat_add split: prod.splits sum.splits)
qed

text \<open>The bytes behind the committed frames are an incomplete frame, in whatever state.\<close>

lemma recover_patchy:
  assumes "script w = []" "is_opened w f" "unat installed + length bs + 1 < 2 ^ 64"
    and "list_all valid_batch bs" "valid_batch rs" "length header = 32"
    and data: "fdata w f = header @ encode_frames (installed + 1) bs @ tail"
    and size: "length (fdata w f) < 2 ^ 32"
    and patchy: "patchy (encode_frame (installed + 1 + of_nat (length bs)) rs) tail"
    and short: "length tail < 64 + length rs * 20"
  shows "recovered f installed bs w \<or>
    recover_wal f (of_nat (length (fdata w f))) installed w = (Inl INVALID_DATABASE, w) \<and> tail \<noteq> [] \<and>
    take 32 tail \<noteq> frame_header (installed + 1 + of_nat (length bs)) (length rs)"
proof -
  let ?run = "encode_frames (installed + 1) bs" and ?next = "installed + 1 + of_nat (length bs)"
  define n :: u64 where "n = of_nat (length (fdata w f))"
  define off :: u64 where "off = of_nat (32 + length ?run)"
  have len: "length (fdata w f) = 32 + length ?run + length tail" using data assms(6) by simp
  have un: "unat n = length (fdata w f)" unfolding n_def using size by (intro u64_of_nat) simp
  have uo: "unat off = 32 + length ?run" unfolding off_def using size len by (intro u64_of_nat) simp
  have tail: "drop (unat off) (fdata w f) = tail" unfolding uo data using assms(6) by simp
  note scan = recover_wal_scan [OF assms(1-4,6) data size n_def, folded off_def]
  show ?thesis
  proof (cases "tail = []")
    case True
    then show ?thesis using recovered_whole [OF assms(1-4,6) _ size] data by simp
  next
    case some: False
    show ?thesis
    proof (cases "length tail < 32")
      case True
      have "recover_wal f n installed w = (Inl INVALID_DATABASE, w)"
      proof (cases "bs = []")
        case True
        have "n > 32" using un len some by (simp add: word_less_nat_alt)
        moreover have "read_exact f 32 32 w = (Inl INVALID_DATABASE, w)"
          using un len True \<open>length tail < 32\<close> by (intro read_exact_quiet_short [OF assms(1,2)]) (simp_all add: in_off_t_def)
        ultimately show ?thesis by (simp add: recover_wal_def wal_start_def io_bind_def)
      next
        case False
        have "scan_frames wal_frame True f n off ?next acc w = (Inl INVALID_DATABASE, w)" for acc
          using True some un len uo by (intro scan_frames_short) simp_all
        then show ?thesis using scan False by simp
      qed
      moreover have "take 32 tail \<noteq> frame_header ?next (length rs)"
        using True arg_cong [of "take 32 tail" "frame_header ?next (length rs)" length] by auto
      ultimately show ?thesis using some by (simp add: n_def)
    next
      case False
      define h where "h = take 32 tail"
      have rf: "read_frame f off n seq w =
          (Inl (if check_frame_header h \<and> decode64 (drop 8 h) = seq then END else INVALID_DATABASE), w)" for seq
        using read_frame_patchy [OF assms(1,2,5) un _ tail patchy _ short] size False un by (simp add: h_def)
      have "off < n" using uo un len some by (simp add: word_less_nat_alt)
      then have sf: "scan_frames wal_frame t f n off seq acc w =
          (if check_frame_header h \<and> decode64 (drop 8 h) = seq \<and> t then Inr (off, seq, acc) else Inl INVALID_DATABASE, w)"
        for t seq acc
        by (subst scan_frames.simps) (simp add: rf)
      have hdr: "check_frame_header h \<and> decode64 (drop 8 h) = ?next" if "h = frame_header ?next (length rs)"
        using that frame_header_ok(1,2) [OF assms(5)] by simp
      have current: "recovered f installed bs w \<or>
          recover_wal f n installed w = (Inl INVALID_DATABASE, w) \<and> h \<noteq> frame_header ?next (length rs)"
        if "bs = [] \<longrightarrow> wal_start f n installed w = (Inr (False, installed), w)"
      proof -
        have "?next - 1 = installed + of_nat (length bs)" by simp
        then show ?thesis
          using scan that sf hdr by (auto simp: recovered_def simp flip: n_def off_def simp del: of_nat_add)
      qed
      show ?thesis
      proof (cases "bs = [] \<and> wal_start f n installed w \<noteq> (Inr (False, installed), w)")
        case False
        then show ?thesis using current some by (auto simp: h_def n_def)
      next
        case True
        then have o32: "off = 32" by (simp add: off_def)
        have "n > 32" using \<open>off < n\<close> o32 by simp
        have "read_exact f 32 32 w = (Inr h, w)"
          using read_exact_quiet [OF assms(1,2), of 32 32] tail uo o32 len False un
          by (simp add: in_off_t_def block_def h_def)
        then have ws: "wal_start f n installed w =
            (if \<not> check_frame_header h then Inl INVALID_DATABASE
             else if decode64 (drop 8 h) \<noteq> 0 \<and> decode64 (drop 8 h) \<le> installed then Inr (True, decode64 (drop 8 h) - 1)
             else Inr (False, installed), w)"
          using \<open>n > 32\<close> by (simp add: wal_start_def io_bind_def Let_def)
        then have bad: "\<not> check_frame_header h \<or> decode64 (drop 8 h) \<noteq> 0 \<and> decode64 (drop 8 h) \<le> installed"
          using True by (auto split: if_splits)
        then have "recover_wal f n installed w = (Inl INVALID_DATABASE, w)"
          using ws sf [of False] o32 by (auto simp: recover_wal_def io_bind_def)
        moreover have "h \<noteq> frame_header ?next (length rs)"
        proof
          assume "h = frame_header ?next (length rs)"
          from hdr [OF this] bad True have "installed + 1 \<le> installed" by simp
          then show False using assms(3) u64_add [of installed 1] by (simp add: word_le_nat_alt)
        qed
        ultimately show ?thesis using some by (simp add: h_def n_def)
      qed
    qed
  qed
qed

text \<open>The body is complete and as many bytes follow as the commit record has.\<close>

lemma recover_complete_body:
  assumes "script w = []" "is_opened w f" "unat installed + length bs + 2 < 2 ^ 64"
    and "list_all valid_batch bs" "valid_batch rs" "length header = 32" "length c = 32"
    and data: "fdata w f = header @ encode_frames (installed + 1) bs @
      frame_body (installed + 1 + of_nat (length bs)) rs @ c"
    and size: "length (fdata w f) < 2 ^ 32"
  shows "recovered f installed (bs @ [rs]) w \<or>
    recover_wal f (of_nat (length (fdata w f))) installed w = (Inl INVALID_DATABASE, w) \<and>
    frame_body (installed + 1 + of_nat (length bs)) rs @ c \<noteq> encode_frame (installed + 1 + of_nat (length bs)) rs"
proof (cases "c = frame_commit (installed + 1 + of_nat (length bs)) (length rs)
      (frame_body (installed + 1 + of_nat (length bs)) rs)")
  case True
  have "fdata w f = header @ encode_frames (installed + 1) (bs @ [rs])"
    using data True by (simp add: encode_frames_snoc encode_frame_def)
  then show ?thesis using recovered_whole [OF assms(1,2) _ _ assms(6) _ size, of installed "bs @ [rs]"] assms(3-5) by simp
next
  case False
  let ?run = "encode_frames (installed + 1) bs" and ?next = "installed + 1 + of_nat (length bs)"
  let ?b = "frame_body ?next rs" and ?n = "64 + length rs * 20"
  define n :: u64 where "n = of_nat (length (fdata w f))"
  define off :: u64 where "off = of_nat (32 + length ?run)"
  have cnt: "length rs \<le> TIMELITE_MAX_RECORDS" using assms(5) by (simp add: valid_batch_def)
  have len: "length (fdata w f) = 32 + length ?run + ?n" using data assms(6,7) by simp
  have un: "unat n = length (fdata w f)" unfolding n_def using size by (intro u64_of_nat) simp
  have uo: "unat off = 32 + length ?run" unfolding off_def using size len by (intro u64_of_nat) simp
  have tail: "drop (unat off) (fdata w f) = ?b @ c" unfolding uo data using assms(6) by simp
  have h: "block (unat off) 32 (fdata w f) = frame_header ?next (length rs)"
    unfolding block_def tail by (simp add: frame_body_def)
  note fh = frame_header_ok [OF assms(5), of ?next]
  have gap: "unat (n - off) = ?n" using un uo len by (simp add: u64_arith)
  have r1: "read_exact f off 32 w = (Inr (frame_header ?next (length rs)), w)"
    using read_exact_quiet [OF assms(1,2), of off 32] uo len size h by (simp add: in_off_t_def)
  have o32: "unat (off + 32) = unat off + 32" using uo len size by (subst u64_add) simp_all
  define hd rest where "hd = frame_header ?next (length rs)" and "rest = drop 32 (?b @ c)"
  have "drop (unat off + 32) (fdata w f) = rest"
    by (simp only: rest_def drop_drop [symmetric] tail add.commute [of "unat off"])
  moreover have "length rest = 32 + length rs * 20" using assms(7) by (simp add: rest_def)
  ultimately have r2: "read_exact f (off + 32) (32 + length rs * 20) w = (Inr rest, w)"
    using read_exact_quiet [OF assms(1,2), of "off + 32" "32 + length rs * 20"] uo len size o32
    by (simp add: in_off_t_def block_def)
  have whole: "hd @ rest = ?b @ c" by (simp add: hd_def rest_def frame_body_def)
  define nx where "nx = ?next"
  have "\<not> check_commit (hd @ rest) nx (of_nat (length rs)) (of_nat (32 + length rs * 20))"
    unfolding whole nx_def using check_commit_unique [OF _ assms(7) cnt] False by blast
  moreover have "\<not> n - off < 32" "\<not> of_nat ?n > n - off"
    using gap cnt by (simp_all add: word_less_nat_alt u64_of_nat del: of_nat_add of_nat_mult)
  moreover have "decode32 (drop 16 hd) = of_nat (length rs)" "decode32 (drop 20 hd) = of_nat (32 + length rs * 20)"
    using frame_header_fields [of ?next "length rs" "[]"] by (simp_all add: hd_def)
  moreover have "check_frame_header hd" "decode64 (drop 8 hd) = nx" using fh by (simp_all add: hd_def nx_def)
  moreover have "read_exact f off 32 w = (Inr hd, w)" using r1 by (simp add: hd_def)
  ultimately have "read_frame f off n nx w = (Inl INVALID_DATABASE, w)"
    using r2 frame_counts [OF cnt]
    by (simp add: read_frame_def io_bind_def Let_def add.commute add.left_commute del: of_nat_add of_nat_mult)
  then have "read_frame f off n ?next w = (Inl INVALID_DATABASE, w)" by (simp add: nx_def)
  moreover have "off < n" using uo un len by (simp add: word_less_nat_alt)
  ultimately have sf: "scan_frames wal_frame True f n off ?next acc w = (Inl INVALID_DATABASE, w)" for acc
    by (subst scan_frames.simps) simp
  have start: "wal_start f n installed w = (Inr (False, installed), w)" if "bs = []"
    using that h uo len un size assms(3) data assms(6)
    by (intro wal_start_current [OF assms(1,2) _ assms(5)]) (simp_all add: n_def)
  have b3: "unat installed + length bs + 1 < 2 ^ 64" using assms(3) by simp
  have data': "fdata w f = header @ encode_frames (installed + 1) bs @ (?b @ c)" using data by simp
  have "recover_wal f n installed w = (Inl INVALID_DATABASE, w)"
    using recover_wal_scan [OF assms(1,2) b3 assms(4,6) data' size n_def start] sf by (simp add: off_def)
  then show ?thesis using False by (simp add: n_def encode_frame_def)
qed

section \<open>Power loss\<close>

text \<open>The machine after the restart: the storage holds \<open>kept\<close> of the file, and calls succeed again.\<close>

definition power_loss :: "timelite_file \<Rightarrow> bytes \<Rightarrow> os \<Rightarrow> os" where
  "power_loss f kept w =
     (case fds w (fd f) of
        None \<Rightarrow> w\<lparr>script := []\<rparr>
      | Some i \<Rightarrow> (modify_inode i (\<lambda>x. x\<lparr>i_data := kept, i_synced := kept\<rparr>) w)\<lparr>script := []\<rparr>)"

lemma power_loss_views:
  assumes "is_opened w f"
  shows "script (power_loss f kept w) = []" "is_opened (power_loss f kept w) f" "fdata (power_loss f kept w) f = kept"
  using assms by (auto simp: power_loss_def is_opened_def fdata_def modify_inode_def)

lemma may_persist_same: "may_persist s s kept \<Longrightarrow> kept = s"
  by (rule nth_equalityI) (auto simp: may_persist_def)

lemma patchy_kept:
  assumes "may_persist s c kept" "c = old @ take k frame" "s \<in> {old, old @ take m frame}" "take (length old) kept = old"
  shows "patchy frame (drop (length old) kept)"
proof -
  have "length kept \<le> length old + length frame" using assms(1-3) by (auto simp: may_persist_def)
  moreover have "drop (length old) kept ! j = 0 \<or> drop (length old) kept ! j = frame ! j"
    if "j < length kept - length old" for j
  proof -
    let ?i = "length old + j"
    have i: "?i < length kept" using that by simp
    have "kept ! ?i = (if ?i < length s then s ! ?i else 0) \<or> ?i < length c \<and> kept ! ?i = c ! ?i"
      using assms(1) [unfolded may_persist_def, THEN conjunct2, THEN conjunct2, rule_format, of ?i] i by auto
    then show ?thesis using assms(2,3) i by (auto simp: nth_append split: if_splits)
  qed
  ultimately show ?thesis by (auto simp: patchy_def)
qed

text \<open>A failed append, in terms of what the storage may have kept of it.\<close>

lemma append_failed_storage:
  assumes "wal_view w h bs" "fsynced w (batch_file h True) = fdata w (batch_file h True)"
    and "append_arguments (Some h) (Some rs) (length rs) scratch n out = None"
    and "append_effects (batch_file h True) (private_end h) (frame_body (private_sequence h + 1) rs)
         (frame_commit (private_sequence h + 1) (length rs) (frame_body (private_sequence h + 1) rs)) w = (e, w')"
    and "may_persist (fsynced w' (batch_file h True)) (fdata w' (batch_file h True)) kept"
  shows "is_opened w' (batch_file h True) \<and>
    (\<exists>tail. kept = fdata w (batch_file h True) @ tail \<and> patchy (encode_frame (private_sequence h + 1) rs) tail \<and>
      (length (frame_body (private_sequence h + 1) rs) < length tail \<longrightarrow>
       take (length (frame_body (private_sequence h + 1) rs)) tail = frame_body (private_sequence h + 1) rs))"
proof -
  let ?wal = "batch_file h True" and ?s = "private_sequence h + 1"
  let ?old = "fdata w ?wal" and ?b = "frame_body ?s rs" and ?f = "encode_frame ?s rs"
  have v: "is_opened w ?wal" "unat (private_end h) = length ?old" "unat (private_end h) \<le> unat TIMELITE_WAL_CAPACITY"
    using assms(1) by (simp_all add: wal_view_def)
  have "unat (private_end h) + length ?b < 2 ^ 64" using append_fits(1) [OF assms(3) v(3)] by simp
  note a = append_effects_any [OF assms(4) v(1) this]
  have o: "overwrite (unat (private_end h)) xs ?old = ?old @ xs" for xs using v(2) by (simp add: overwrite_end)
  obtain k where k: "fdata w' ?wal = ?old @ take k ?f"
    "k \<le> length ?b \<and> fsynced w' ?wal = ?old \<or> length ?b \<le> k \<and> fsynced w' ?wal \<in> {?old @ ?b, ?old @ ?f}"
    using a unfolding o encode_frame_def assms(2) by blast
  have order: "take (length ?old) kept = ?old"
    "length (?old @ ?b) < length kept \<longrightarrow> take (length (?old @ ?b)) kept = ?old @ ?b"
    using write_order [OF assms(5) k(1) _ k(2)] by (simp_all add: encode_frame_def)
  define m where "m = (if fsynced w' ?wal = ?old @ ?b then length ?b else length ?f)"
  have "fsynced w' ?wal \<in> {?old, ?old @ take m ?f}"
    using k(2) by (auto simp: m_def encode_frame_def)
  then have p: "patchy ?f (drop (length ?old) kept)" by (rule patchy_kept [OF assms(5) k(1) _ order(1)])
  have split: "kept = ?old @ drop (length ?old) kept" using order(1) by (metis append_take_drop_id)
  have "take (length ?b) (drop (length ?old) kept) = ?b" if "length ?b < length (drop (length ?old) kept)"
    using order(2) that by (simp add: take_drop add.commute)
  then show ?thesis using p split a v(1) by (intro conjI exI [of _ "drop (length ?old) kept"]) auto
qed

section \<open>Properties\<close>

text \<open>
  C2. Power loss during or after an append.  Let the WAL be durable when the append starts, let the
  machine lose power at any point of it, with the storage free to have written back any bytes of what was
  not yet synced, and recover from what was kept.  If the append had reported success, recovery finds the old
  batches and the new one.  If not, it finds the old batches, or the old ones and the complete new one, or
  fails closed with \<open>TIMELITE_INVALID_DATABASE\<close>, and this only when the header of the new frame is itself
  incomplete or its commit record is damaged behind a complete body.  The old bytes are there in every case,
  and no part of a batch is ever shown.
\<close>

theorem append_power_loss:
  assumes "wal_view w h bs" "list_all record_in_range rs" "unat (private_sequence h) + 2 < 2 ^ 64"
    and "fsynced w (batch_file h True) = fdata w (batch_file h True)"
    and "timelite_batches_append (Some h) (Some rs) (length rs) scratch n out w = ((r, db'), w')"
    and "may_persist (fsynced w' (batch_file h True)) (fdata w' (batch_file h True)) kept"
  defines "wal \<equiv> batch_file h True" and "old \<equiv> fdata w (batch_file h True)"
    and "restarted \<equiv> power_loss (batch_file h True) kept w'"
  shows "case r of
      Inr s \<Rightarrow> recovered wal (private_installed h) (bs @ [rs]) restarted
    | Inl e \<Rightarrow> take (length old) kept = old \<and>
       (recovered wal (private_installed h) bs restarted \<or>
        recovered wal (private_installed h) (bs @ [rs]) restarted \<or>
        recover_wal wal (of_nat (length kept)) (private_installed h) restarted = (Inl INVALID_DATABASE, restarted) \<and>
        length old < length kept \<and>
        (take 32 (drop (length old) kept) \<noteq> frame_header (private_sequence h + 1) (length rs) \<or>
         take (length (old @ frame_body (private_sequence h + 1) rs)) kept = old @ frame_body (private_sequence h + 1) rs \<and>
         length kept = length (old @ encode_frame (private_sequence h + 1) rs) \<and>
         kept \<noteq> old @ encode_frame (private_sequence h + 1) rs))"
proof -
  note v = assms(1) [unfolded wal_view_def, folded wal_def old_def]
  then obtain header where header: "length header = 32" "old = header @ encode_frames (private_installed h + 1) bs" by blast
  let ?s = "private_sequence h + 1" and ?i = "private_installed h"
  have sq: "?s = ?i + 1 + of_nat (length bs)"
    using u64_eq_offset [of "private_sequence h" ?i "length bs"] v by simp
  have seq: "unat ?i + length bs + 1 < 2 ^ 64" "unat ?i + length bs + 2 < 2 ^ 64" using v assms(3) by simp_all
  have lv: "list_all valid_batch bs" using v by blast
  have small: "length old < 2 ^ 32 - 4096" using v by simp
  have whole: "recovered wal ?i (bs @ [rs]) restarted" if "is_opened w' wal" "kept = old @ encode_frame ?s rs" "valid_batch rs"
  proof (rule recovered_whole [where header = header])
    note p = power_loss_views [OF that(1) [unfolded wal_def], of kept]
    show "script restarted = []" "is_opened restarted wal" using p by (simp_all add: restarted_def wal_def)
    show "fdata restarted wal = header @ encode_frames (?i + 1) (bs @ [rs])"
      using p(3) that(2) header(2) by (simp add: restarted_def wal_def encode_frames_snoc sq)
    show "length (fdata restarted wal) < 2 ^ 32"
      using p(3) that(2,3) small by (simp add: restarted_def wal_def valid_batch_def)
  qed (use seq lv that(3) header in simp_all)
  show ?thesis
    using assms(5)
  proof (cases rule: append_cases)
    case (rejected e)
    then have k: "kept = old" using assms(4,6) may_persist_same by (simp add: old_def)
    have "recovered wal ?i bs restarted"
      using power_loss_views [of w' "batch_file h True" kept] rejected(4) v header k small
      by (intro recovered_whole [OF _ _ seq(1) lv header(1)]) (simp_all add: restarted_def wal_def)
    then show ?thesis using rejected(2) k by simp
  next
    case committed
    note c = append_committed_view [OF assms(1,2) assms(5) [unfolded committed(3,4)]]
    have "kept = old @ encode_frame ?s rs"
      using assms(6) may_persist_same unfolding c(3) c(5) by (simp add: old_def)
    moreover have "valid_batch rs" using append_arguments_None(1,2) [OF committed(1)] assms(2) by (simp add: valid_batch_def)
    moreover have "is_opened w' wal" using c(1) c(6) by (simp add: wal_view_def wal_def)
    ultimately show ?thesis using whole committed(3) by simp
  next
    case (failed e)
    have vb: "valid_batch rs" using append_arguments_None(1,2) [OF failed(1)] assms(2) by (simp add: valid_batch_def)
    from append_failed_storage [OF assms(1,4) failed(1,2) assms(6), folded wal_def old_def]
    obtain tail where o: "is_opened w' wal" and k: "kept = old @ tail" and p: "patchy (encode_frame ?s rs) tail"
      and body: "length (frame_body ?s rs) < length tail \<longrightarrow> take (length (frame_body ?s rs)) tail = frame_body ?s rs" by blast
    note pl = power_loss_views [OF o [unfolded wal_def], of kept, folded restarted_def wal_def]
    have le: "length tail \<le> 64 + length rs * 20" using p by (simp add: patchy_def)
    have size: "length (fdata restarted wal) < 2 ^ 32" using pl(3) k le small vb by (simp add: valid_batch_def)
    have data: "fdata restarted wal = header @ encode_frames (?i + 1) bs @ tail" using pl(3) k header(2) by simp
    show ?thesis
    proof (cases "length tail < 64 + length rs * 20")
      case True
      from recover_patchy [OF pl(1,2) seq(1) lv vb header(1) data size p [unfolded sq] True] show ?thesis
        using failed(3) k pl(3) by (auto simp flip: sq)
    next
      case False
      then have full: "length tail = 64 + length rs * 20" using le by simp
      then have b: "take (length (frame_body ?s rs)) tail = frame_body ?s rs" using body by simp
      then have t: "tail = frame_body ?s rs @ drop (length (frame_body ?s rs)) tail" by (metis append_take_drop_id)
      define c where "c = drop (length (frame_body ?s rs)) tail"
      have c: "tail = frame_body ?s rs @ c" "length c = 32" using t full by (simp_all add: c_def)
      from recover_complete_body [OF pl(1,2) seq(2) lv vb header(1) c(2) data [unfolded c(1) sq] size]
      show ?thesis using failed(3) k pl(3) c full b by (auto simp flip: sq)
    qed
  qed
qed

text \<open>The last sync of an append failed, and the commit record was lost with the power: the batch is gone.\<close>

theorem append_power_loss_witness:
  "\<exists>w'. fst (timelite_batches_append (Some sample_handle) (Some [sample_record]) (length [sample_record])
      (Some ()) TIMELITE_BATCH_SCRATCH (Some ())
      ((sample_os (replicate 160 0) (replicate 32 0))\<lparr>script := [Done, Done, Done, Fail EIO]\<rparr>)) =
        (Inl EIO, Some (sample_handle\<lparr>private_failed := True\<rparr>)) \<and>
    (recovered \<lparr>fd = 4\<rparr> 0 [] (power_loss \<lparr>fd = 4\<rparr> (replicate 32 0 @ frame_body 1 [sample_record]) w') \<or>
     recovered \<lparr>fd = 4\<rparr> 0 [[sample_record]] (power_loss \<lparr>fd = 4\<rparr> (replicate 32 0 @ frame_body 1 [sample_record]) w'))"
proof (rule sample_sync_fails)
  let ?w = "(sample_os (replicate 160 0) (replicate 32 0))\<lparr>script := [Done, Done, Done, Fail EIO]\<rparr>" and ?f = "\<lparr>fd = 4\<rparr>"
  let ?kept = "replicate 32 0 @ frame_body 1 [sample_record]"
  fix w' assume v: "wal_view ?w sample_handle []" and s: "fsynced ?w ?f = fdata ?w ?f" "fdata ?w ?f = replicate 32 0"
    and a: "timelite_batches_append (Some sample_handle) (Some [sample_record]) (length [sample_record])
      (Some ()) TIMELITE_BATCH_SCRATCH (Some ()) ?w = ((Inl EIO, Some (sample_handle\<lparr>private_failed := True\<rparr>)), w')"
    and w': "fsynced w' ?f = ?kept" "fdata w' ?f = replicate 32 0 @ encode_frame 1 [sample_record]"
  have "may_persist (fsynced w' ?f) (fdata w' ?f) ?kept"
    unfolding w' by (auto simp: may_persist_def nth_append)
  from append_power_loss [OF v _ _ _ a, of ?kept, unfolded sample_handle_files sample_handle_simps, OF _ _ s(1) this] a s(2)
  show ?thesis by (intro exI [of _ w']) (simp add: frame_body_def)
qed

end
