(* ===== verification/Spec2Isabelle.thy ===== *)
theory Spec2Isabelle
  imports TL_FileSafety TL_Retention TL_Handle TL_InspectStatus TL_Windows TL_PowerLoss
begin

text \<open>
  A model of timelite, an embedded store for time-ordered batches of records, and the theorems that
  make it correct.

  \<^bold>\<open>The program.\<close>  A database is a pair of files: \<^verbatim>\<open>FILE\<close> holds two manifest slots and a chain of
  immutable segments, \<^verbatim>\<open>FILE.wal\<close> holds the batches appended since the last checkpoint.  An append
  writes one frame (header, records, commit record) to the WAL, with a sync before and after the commit
  record.  A checkpoint copies the WAL's frames into a new segment, syncs, switches the manifest, syncs,
  and cuts the WAL back to its header.  Retention rewrites the surviving segments and switches the
  manifest in phases.  Opening validates the pair and recovers from a stop at any of these points.
  Reading walks a cursor over segments and WAL; seek, range read and aggregate are built on it.

  \<^bold>\<open>The theories\<close>, from the bottom up, with the code they model:

  \<^item> \<open>TL_Prelude\<close>: shared types (\<open>byte\<close>, \<open>u32\<close>, \<open>u64\<close>, the result codes), memory blocks, and lemmas on lists
    and words.
  \<^item> \<open>TL_Codec\<close>: \<^verbatim>\<open>encode32\<close> ... \<^verbatim>\<open>decode64\<close>, \<^verbatim>\<open>checksum\<close> of \<^verbatim>\<open>src/timelite.c\<close>; round trips and
    the detection of every error burst of at most 32 bits, and that the checksum is CRC-32 as the
    standards define it.
  \<^item> \<open>TL_Layout\<close>: records, frames, file headers, manifests and segment headers with their encoders and
    checks; the round trips.
  \<^item> \<open>TL_Backend\<close>, \<open>TL_FileIO\<close>, \<open>TL_FileSafety\<close>: the interface \<^verbatim>\<open>src/file_io.h\<close> as a locale of laws, and
    \<^verbatim>\<open>src/file_io.c\<close> over a model of the POSIX calls.  The state \<open>os\<close> has inodes, descriptors, names, locks
    and a script that decides each call's outcome: complete, short, interrupted or failed.  The model
    is an interpretation of the locale, so that the laws hold under every script.
  \<^item> \<open>TL_Lifecycle\<close>: the version 1 single-file lifecycle.
  \<^item> \<open>TL_Store\<close>, \<open>TL_Frames\<close>, \<open>TL_Segments\<close>: the readers of frames, segments, manifests and skip links.
  \<^item> \<open>TL_Open\<close>: \<^verbatim>\<open>timelite_batches_open\<close>, recovery and \<^verbatim>\<open>timelite_batches_close\<close>.
  \<^item> \<open>TL_Append\<close>, \<open>TL_Checkpoint\<close>, \<open>TL_Cursor\<close>, \<open>TL_Retention\<close>, \<open>TL_Query\<close>: one theory for each group of
    operations, each operation with all its guards and error paths.
  \<^item> \<open>TL_Log\<close>: the abstract specification, a log of batches with a cursor, as locales of the laws a
    store promises (\<open>installing_log\<close> extends the append-only log by checkpoints) and the simulation of
    a run of operations, proved once from the laws.
  \<^item> \<open>TL_Installed\<close>, \<open>TL_Install\<close>, \<open>TL_StoreLog\<close>: what the bytes of a whole database mean
    (\<open>database_view\<close>, \<open>store_view\<close>), that reading, appending and checkpointing keep it, and the
    interpretation \<open>store: installing_log\<close> on the operations of the code.
  \<^item> \<open>TL_Handle\<close>: the handle as a state machine; the bounds that every operation keeps on every outcome, and the
    array of skip links, which the loops over the chain never leave.
  \<^item> \<open>TL_QueryStore\<close>, \<open>TL_SeekStore\<close>: range read, aggregate and seek against that meaning.
  \<^item> \<open>TL_InspectParse\<close>, \<open>TL_Inspect\<close>: the offline tool \<^verbatim>\<open>src/tools/inspect/inspect.c\<close>, whose parsers are
    copies of the library's checks; each parser is shown to accept what the library accepts.
  \<^item> \<open>TL_InspectPredict\<close>, \<open>TL_InspectChain\<close>, \<open>TL_InspectVerify\<close>: the stages of the tool, one after the
    other, against the stages of the library's open; the tool's prediction is right.
  \<^item> \<open>TL_InspectStatus\<close>: the \<^verbatim>\<open>status\<close> command of the tool over the model of the library, its dump and its
    command line; the dump prints the store.
  \<^item> \<open>TL_Windows\<close>: \<^verbatim>\<open>src/file_io_windows.c\<close> over a model of the Win32 calls, a second interpretation of the
    interface; agreement with the POSIX layer, locks, and failed opens.
  \<^item> \<open>TL_PowerLoss\<close>: recovery after a power loss during an append, for whatever mixture of synced and
    unsynced bytes the storage kept (\<open>may_persist\<close> of \<open>TL_Append\<close>).
  \<^item> this theory: what an interrupted append leaves and what recovery makes of it.

  \<^bold>\<open>How code becomes definitions.\<close>  Machine integers are words of their width.  A \<^verbatim>\<open>timelite_error\<close> other
  than \<^verbatim>\<open>TIMELITE_OK\<close> is \<open>Inl\<close> or \<open>Some\<close>; a null pointer is \<open>None\<close>; an output parameter is part of the
  result.  Effects pass the state \<open>os\<close> explicitly.  A caller's buffer is present or absent together
  with its capacity; its contents matter only where the code reads them.  The build's fixed limits
  (record count, buffer sizes, WAL capacity) have the values of \<^verbatim>\<open>src/timelite.h\<close>.

  \<^bold>\<open>Loops and fuel.\<close>  Loops that count up to a bound are structural or have a \<open>termination\<close> proof.
  The transfer loops retry on \<^verbatim>\<open>EINTR\<close> and are driven by the finite script, which is used up by each
  call; the loops over segments, frames and batches end because
  every round moves an offset or the cursor, which is the measure of their termination proofs.  No loop
  stops for lack of fuel, so that every result is one the code computes; the liveness theorems show
  that without faults it is success.

  \<^bold>\<open>Durability.\<close>  The state keeps for each file the bytes of the last sync and the current bytes.  A sync that
  succeeds makes them equal.  In between a storage may write back any part of the current bytes; where a
  theorem speaks of a power loss it ranges over all of these mixtures.

  \<^bold>\<open>Not modelled.\<close>  Tests, build scripts, the timing workload, the example programs and the \<^verbatim>\<open>main\<close> of the
  tool.  The conversion of a path to wide characters is the identity, or fails.
  Concurrency does not arise within a handle (the library has no threads); between processes it
  is the lock of \<^verbatim>\<open>FILE\<close>, which is modelled.  A medium that loses or corrupts synced bytes is outside
  the assumptions, as in the documentation of the code.
\<close>

section \<open>Interrupted appends and recovery\<close>

text \<open>What an append leaves in the WAL, whatever its outcome: a prefix of the new frame after the old bytes.\<close>

lemma append_leaves_prefix:
  assumes "wal_view w h bs"
    and "timelite_batches_append (Some h) (Some rs) (length rs) scratch n out w = ((r, db'), w')"
  shows "is_opened w' (batch_file h True) \<and>
    (\<exists>k \<le> 64 + length rs * 20. fdata w' (batch_file h True) =
        fdata w (batch_file h True) @ take k (encode_frame (private_sequence h + 1) rs) \<and>
      (0 < k \<longrightarrow> rs \<noteq> [] \<and> length rs \<le> TIMELITE_MAX_RECORDS) \<and>
      (\<forall>s. r = Inr s \<longrightarrow> k = 64 + length rs * 20 \<and> 0 < k) \<and>
      unat (private_end h) + k \<le> unat TIMELITE_WAL_CAPACITY)"
  using assms(2)
proof (cases rule: append_cases)
  case (rejected e)
  then show ?thesis using assms(1) by (auto simp: wal_view_def intro!: exI [of _ 0])
next
  case (failed e)
  let ?wal = "batch_file h True" and ?s = "private_sequence h + 1"
  have v: "is_opened w ?wal" "unat (private_end h) = length (fdata w ?wal)"
    "unat (private_end h) \<le> unat TIMELITE_WAL_CAPACITY"
    using assms(1) by (simp_all add: wal_view_def)
  note fit = append_fits(1) [OF failed(1) v(3)] and a = append_arguments_None [OF failed(1)]
  have "unat (private_end h) + length (frame_body ?s rs) < 2 ^ 64" using fit by simp
  from append_effects_any [OF failed(2) v(1) this] obtain k where
    "k \<le> 64 + length rs * 20" "is_opened w' = is_opened w"
    "fdata w' ?wal = overwrite (unat (private_end h)) (take k (encode_frame ?s rs)) (fdata w ?wal)"
    by (auto simp: encode_frame_def)
  then show ?thesis using v fit a(1,2) failed(3) by (auto simp: overwrite_end intro!: exI [of _ k])
next
  case committed
  let ?wal = "batch_file h True" and ?s = "private_sequence h + 1"
  have v: "is_opened w ?wal" "unat (private_end h) = length (fdata w ?wal)"
    "unat (private_end h) \<le> unat TIMELITE_WAL_CAPACITY"
    using assms(1) by (simp_all add: wal_view_def)
  note fit = append_fits(1) [OF committed(1) v(3)] and a = append_arguments_None [OF committed(1)]
  have "unat (private_end h) + length (frame_body ?s rs) < 2 ^ 64" using fit by simp
  from append_effects_ok [OF committed(2) v(1) this]
  have "is_opened w' = is_opened w" "fdata w' ?wal = fdata w ?wal @ encode_frame ?s rs"
    using v(2) by (auto simp: encode_frame_def overwrite_end)
  then show ?thesis using v fit a(1,2) by (auto intro!: exI [of _ "64 + length rs * 20"])
qed

text \<open>
  C1. Crash safety of append.  Stop the program during or after an append, whatever the operating
  system did to its calls, and recover: if the append had reported success, recovery finds the old
  batches and the new one; if not, it finds the old batches, or the old ones and the complete new one;
  only when fewer than 32 bytes of the new frame's header had been written does it fail closed, with
  \<open>TIMELITE_INVALID_DATABASE\<close>.  A committed batch is never lost and no part of a batch is ever shown.
\<close>

theorem append_crash_recovery:
  assumes "wal_view w h bs" "list_all record_in_range rs" "unat (private_sequence h) + 2 < 2 ^ 64"
    and "timelite_batches_append (Some h) (Some rs) (length rs) scratch n out w = ((r, db'), w')"
  defines "wal \<equiv> batch_file h True" and "restarted \<equiv> w'\<lparr>script := []\<rparr>"
  shows "case r of
      Inr s \<Rightarrow> recovered wal (private_installed h) (bs @ [rs]) restarted
    | Inl e \<Rightarrow>
        recovered wal (private_installed h) bs restarted \<or>
        recovered wal (private_installed h) (bs @ [rs]) restarted \<or>
        recover_wal wal (of_nat (length (fdata restarted wal))) (private_installed h) restarted =
          (Inl INVALID_DATABASE, restarted) \<and>
        length (fdata w wal) < length (fdata restarted wal) \<and>
        length (fdata restarted wal) < length (fdata w wal) + 32"
proof -
  note v = assms(1) [unfolded wal_view_def, folded wal_def]
  then obtain header where header: "length header = 32"
      "fdata w wal = header @ encode_frames (private_installed h + 1) bs" by blast
  from append_leaves_prefix [OF assms(1,4)] obtain k where o: "is_opened w' wal"
    and k: "k \<le> 64 + length rs * 20" "fdata w' wal = fdata w wal @ take k (encode_frame (private_sequence h + 1) rs)"
      "0 < k \<longrightarrow> rs \<noteq> [] \<and> length rs \<le> TIMELITE_MAX_RECORDS"
      "\<And>s. r = Inr s \<Longrightarrow> k = 64 + length rs * 20 \<and> 0 < k"
      "unat (private_end h) + k \<le> unat TIMELITE_WAL_CAPACITY"
    unfolding wal_def by blast
  have r: "script restarted = []" "is_opened restarted wal" "fdata restarted wal = fdata w' wal"
    using o same_files_views [OF same_files_script [of w' "[]"]] by (simp_all add: restarted_def)
  have sq: "private_sequence h + 1 = private_installed h + 1 + of_nat (length bs)"
    using u64_eq_offset [of "private_sequence h" "private_installed h" "length bs"] v by simp
  have len: "length (fdata restarted wal) < 2 ^ 32"
    using k(1,5) v r(3) by (simp add: k(2))
  have seq: "unat (private_installed h) + length bs + 1 < 2 ^ 64"
    "unat (private_installed h) + length (bs @ [rs]) + 1 < 2 ^ 64" using v assms(3) by simp_all
  have lv: "list_all valid_batch bs" using v by blast
  show ?thesis
  proof (cases "k < 64 + length rs * 20")
    case True
    show ?thesis
    proof (cases "k = 0")
      case True
      then have "recovered wal (private_installed h) bs restarted"
        using recovered_whole [OF r(1,2) seq(1) lv header(1)] len header k(2) r(3) by simp
      then show ?thesis using k(4) True by (auto split: sum.splits)
    next
      case False
      then have vb: "valid_batch rs" using k(3) assms(2) by (simp add: valid_batch_def)
      have "fdata restarted wal = header @ encode_frames (private_installed h + 1) bs @
          take k (encode_frame (private_installed h + 1 + of_nat (length bs)) rs)"
        unfolding r(3) k(2) header(2) sq by simp
      from recovered_torn [OF r(1,2) seq(1) lv vb header(1) True this len]
      have "if 0 < k \<and> k < 32
        then recover_wal wal (of_nat (length (fdata restarted wal))) (private_installed h) restarted =
          (Inl INVALID_DATABASE, restarted)
        else recovered wal (private_installed h) bs restarted" .
      moreover have "length (fdata restarted wal) = length (fdata w wal) + k" using r(3) k(1,2) by simp
      ultimately show ?thesis using k(4) True False by (auto split: sum.splits if_splits)
    qed
  next
    case False
    then have kk: "k = 64 + length rs * 20" using k(1) by simp
    then have vb: "valid_batch rs" using k(3) assms(2) by (simp add: valid_batch_def)
    have "fdata restarted wal = header @ encode_frames (private_installed h + 1) (bs @ [rs])"
      using kk unfolding r(3) k(2) header(2) sq by (simp add: encode_frames_snoc)
    then have "recovered wal (private_installed h) (bs @ [rs]) restarted"
      using recovered_whole [OF r(1,2) seq(2) _ header(1) _ len] lv vb by simp
    then show ?thesis by (auto split: sum.splits)
  qed
qed

theorem append_crash_recovery_witness:
  "\<exists>r db' w'. timelite_batches_append (Some sample_handle) (Some [sample_record]) (length [sample_record])
      (Some ()) TIMELITE_BATCH_SCRATCH (Some ()) (sample_os (replicate 160 0) (replicate 32 0)) = ((r, db'), w') \<and>
    recovered \<lparr>fd = 4\<rparr> 0 [[sample_record]] (w'\<lparr>script := []\<rparr>)"
proof -
  obtain h' w' where a: "timelite_batches_append (Some sample_handle) (Some [sample_record])
      (length [sample_record]) (Some ()) TIMELITE_BATCH_SCRATCH (Some ())
      (sample_os (replicate 160 0) (replicate 32 0)) = ((Inr (private_sequence sample_handle + 1), Some h'), w')"
    using append_live [OF _ sample_view sample_arguments] by auto
  from append_crash_recovery [OF sample_view _ _ a] a show ?thesis by auto
qed

end
